(* ===== verification/Prelude.thy ===== *)
theory Prelude
  imports Main "HOL-Library.Word" "HOL-Library.Signed_Division"
begin

text \<open>
  Shared vocabulary of the libfm development.

  \<^item> Failures. The library is compiled in CMake's \<open>Debug\<close> configuration (the top-level
    CMakeLists.txt sets it when no build type is given), so every \<open>assert\<close> is live. A failed
    assert, a \<open>LOG_FATAL\<close>, a C++ exception of the standard library and an access outside an
    object are values of \<open>fault\<close>; an operation that may fail returns \<open>fault + 'a\<close>.
  \<^item> \<open>size_t\<close> is \<open>nat\<close> below \<open>2 ^ 64\<close>, with the wrap-around of addition and subtraction
    written out in \<open>sz_add\<close> and \<open>sz_sub\<close>.
  \<^item> Byte arrays are lists of \<open>char\<close> (8 bits), integers in memory are written byte by byte.
  \<^item> The generic list lemmas the components share.
\<close>

subsection \<open>Failures as values\<close>

datatype fault =
    AssertFailed    \<comment> \<open>a false \<open>assert(...)\<close>\<close>
  | OutOfBounds     \<comment> \<open>a read or write outside the object (undefined behaviour in C++)\<close>
  | LengthError     \<comment> \<open>\<open>std::length_error\<close> or \<open>std::bad_alloc\<close> of a container\<close>
  | UseAfterFree    \<comment> \<open>an access through a dangling pointer\<close>
  | NullCallback    \<comment> \<open>a call of an empty \<open>std::function\<close> or through a null pointer\<close>
  | FatalLog        \<comment> \<open>\<open>LOG_FATAL\<close>\<close>
  | Terminated      \<comment> \<open>\<open>std::terminate\<close>: an exception nobody catches, a joinable thread destroyed\<close>

type_synonym 'a result = "fault + 'a"

text \<open>The address of an object.\<close>

type_synonym addr = nat

definition result_bind :: "'a result \<Rightarrow> ('a \<Rightarrow> 'b result) \<Rightarrow> 'b result" where
  "result_bind m k = (case m of Inl e \<Rightarrow> Inl e | Inr x \<Rightarrow> k x)"

definition check :: "fault \<Rightarrow> bool \<Rightarrow> 'a result \<Rightarrow> 'a result" where
  "check e P k = (if P then k else Inl e)"

abbreviation assert_c :: "bool \<Rightarrow> 'a result \<Rightarrow> 'a result" where
  "assert_c \<equiv> check AssertFailed"

definition is_ok :: "'a result \<Rightarrow> bool" where
  "is_ok r = (case r of Inl e \<Rightarrow> False | Inr x \<Rightarrow> True)"

named_theorems result_simps \<open>evaluation of the error monad\<close>

lemma result_bind_Inr [simp, result_simps]: "result_bind (Inr x) k = k x"
  by (simp add: result_bind_def)

lemma result_bind_Inl [simp, result_simps]: "result_bind (Inl e) k = Inl e"
  by (simp add: result_bind_def)

lemma result_bind_assoc: "result_bind (result_bind m k) h = result_bind m (\<lambda>x. result_bind (k x) h)"
  by (cases m) simp_all

lemma result_bind_eq_Inr:
  "result_bind m k = Inr y \<longleftrightarrow> (\<exists>x. m = Inr x \<and> k x = Inr y)"
  by (cases m) simp_all

lemma result_bind_InrE:
  assumes "result_bind m k = Inr y"
  obtains x where "m = Inr x" and "k x = Inr y"
  using assms by (auto simp: result_bind_eq_Inr)

lemma check_True [simp, result_simps]: "check e True k = k"
  by (simp add: check_def)

lemma check_False [simp, result_simps]: "check e False k = Inl e"
  by (simp add: check_def)

lemma check_eq_Inr: "check e P k = Inr y \<longleftrightarrow> P \<and> k = Inr y"
  by (simp add: check_def)

lemma is_ok_simps [simp]: "is_ok (Inr x)" "\<not> is_ok (Inl e)"
  by (simp_all add: is_ok_def)

lemma is_ok_conv: "is_ok r \<longleftrightarrow> (\<exists>x. r = Inr x)"
  by (cases r) simp_all

lemmas result_eqs = result_bind_eq_Inr check_eq_Inr

text \<open>A loop over a list whose body may fail, as a range-based \<open>for\<close> loop.\<close>

fun foldM :: "('a \<Rightarrow> 's \<Rightarrow> 's result) \<Rightarrow> 'a list \<Rightarrow> 's \<Rightarrow> 's result" where
  "foldM f [] s = Inr s"
| "foldM f (x # xs) s = result_bind (f x s) (foldM f xs)"

lemma foldM_append: "foldM f (xs @ ys) s = result_bind (foldM f xs s) (foldM f ys)"
proof (induction xs arbitrary: s)
  case Nil
  then show ?case by simp
next
  case (Cons x xs)
  then have "foldM f (xs @ ys) = (\<lambda>s. result_bind (foldM f xs s) (foldM f ys))" by auto
  then show ?case by (simp add: result_bind_assoc)
qed

text \<open>\<open>yields F P r\<close>: \<open>r\<close> is a value satisfying \<open>P\<close>, or one of the faults \<open>F\<close>. With \<open>F = {}\<close> it is total
  correctness: the operation returns.\<close>

definition yields :: "fault set \<Rightarrow> ('a \<Rightarrow> bool) \<Rightarrow> 'a result \<Rightarrow> bool" where
  "yields F P r = (case r of Inl e \<Rightarrow> e \<in> F | Inr x \<Rightarrow> P x)"

lemma yields_simps [simp]: "yields F P (Inr x) \<longleftrightarrow> P x" "yields F P (Inl e) \<longleftrightarrow> e \<in> F"
  by (simp_all add: yields_def)

lemma yields_bind:
  assumes "yields F P m" and "\<And>x. P x \<Longrightarrow> yields F Q (k x)"
  shows "yields F Q (result_bind m k)"
  using assms by (cases m) simp_all

lemma yields_mono: "yields F P r \<Longrightarrow> (\<And>x. P x \<Longrightarrow> Q x) \<Longrightarrow> yields F Q r"
  by (cases r) simp_all

lemma yields_InrD: "yields F P r \<Longrightarrow> r = Inr x \<Longrightarrow> P x"
  by simp

text \<open>The loop rule: the invariant speaks about the elements still to come.\<close>

lemma yields_foldM:
  assumes "I xs s"
    and "\<And>x ys s. I (x # ys) s \<Longrightarrow> yields F (I ys) (f x s)"
  shows "yields F (I []) (foldM f xs s)"
  using assms(1)
proof (induction xs arbitrary: s)
  case Nil
  then show ?case by simp
next
  case (Cons x xs)
  from assms(2) [OF Cons.prems] show ?case
    by (auto intro: yields_bind Cons.IH)
qed

lemma yields_foldM_const:
  assumes "J s" and "\<And>x s. x \<in> set xs \<Longrightarrow> J s \<Longrightarrow> yields F J (f x s)"
  shows "yields F J (foldM f xs s)"
  using yields_foldM [of "\<lambda>ys s. set ys \<subseteq> set xs \<and> J s" xs s F f] assms
  by (auto elim: yields_mono)

subsection \<open>size_t\<close>

definition sz_add :: "nat \<Rightarrow> nat \<Rightarrow> nat" where
  "sz_add a b = (a + b) mod 2 ^ 64"

definition sz_sub :: "nat \<Rightarrow> nat \<Rightarrow> nat" where
  "sz_sub a b = (a + (2 ^ 64 - b mod 2 ^ 64)) mod 2 ^ 64"

lemma sz_add_small [simp]: "a + b < 2 ^ 64 \<Longrightarrow> sz_add a b = a + b"
  by (simp add: sz_add_def)

lemma sz_sub_le [simp]:
  assumes "b \<le> a" and "a < 2 ^ 64"
  shows "sz_sub a b = a - b"
proof -
  have "a + (2 ^ 64 - b mod 2 ^ 64) = (a - b) + 2 ^ 64"
    using assms by simp
  then have "sz_sub a b = (a - b) mod 2 ^ 64"
    unfolding sz_sub_def by (metis mod_add_self2)
  then show ?thesis
    using assms by simp
qed

lemma sz_sub_wrap:
  assumes "a < b" and "b < 2 ^ 64"
  shows "sz_sub a b = 2 ^ 64 - (b - a)"
  using assms by (simp add: sz_sub_def)

lemma sz_add_bound: "sz_add a b < 2 ^ 64"
  by (simp add: sz_add_def)

lemma sz_sub_bound: "sz_sub a b < 2 ^ 64"
  by (simp add: sz_sub_def)

text \<open>\<open>std::vector<char>::max_size()\<close>: half of the address space.\<close>

definition vector_max :: nat where
  "vector_max = 2 ^ 63 - 1"

subsection \<open>Memory ranges of a byte array\<close>

text \<open>\<open>[from, to)\<close> of an array, and \<open>std::copy\<close> of \<open>d\<close> to position \<open>i\<close>.\<close>

definition mem_read :: "'a list \<Rightarrow> nat \<Rightarrow> nat \<Rightarrow> 'a list result" where
  "mem_read xs a b = check OutOfBounds (a \<le> b \<and> b \<le> length xs) (Inr (take (b - a) (drop a xs)))"

definition mem_write :: "'a list \<Rightarrow> nat \<Rightarrow> 'a list \<Rightarrow> 'a list result" where
  "mem_write xs i d =
     check OutOfBounds (i + length d \<le> length xs)
       (Inr (take i xs @ d @ drop (i + length d) xs))"

lemma mem_read_ok: "a \<le> b \<Longrightarrow> b \<le> length xs \<Longrightarrow> mem_read xs a b = Inr (take (b - a) (drop a xs))"
  by (simp add: mem_read_def)

lemma mem_write_ok:
  "i + length d \<le> length xs \<Longrightarrow> mem_write xs i d = Inr (take i xs @ d @ drop (i + length d) xs)"
  by (simp add: mem_write_def)

lemma mem_write_mid:
  "length d \<le> length post \<Longrightarrow> mem_write (pre @ post) (length pre) d = Inr (pre @ d @ drop (length d) post)"
  by (simp add: mem_write_def)

subsection \<open>Searching\<close>

text \<open>\<open>std::find(first, last, c) - first\<close>: the length of the range when there is no \<open>c\<close>.\<close>

definition find_pos :: "'a \<Rightarrow> 'a list \<Rightarrow> nat" where
  "find_pos c xs = length (takeWhile (\<lambda>x. x \<noteq> c) xs)"

lemma find_pos_le: "find_pos c xs \<le> length xs"
  by (simp add: find_pos_def length_takeWhile_le)

lemma find_pos_less_iff: "find_pos c xs < length xs \<longleftrightarrow> c \<in> set xs"
proof (induction xs)
  case Nil
  then show ?case by (simp add: find_pos_def)
next
  case (Cons x xs)
  then show ?case by (auto simp: find_pos_def)
qed

lemma find_pos_take: "c \<notin> set (take (find_pos c xs) xs)"
  by (induction xs) (auto simp: find_pos_def)

lemma find_pos_nth: "c \<in> set xs \<Longrightarrow> xs ! find_pos c xs = c"
  by (induction xs) (auto simp: find_pos_def)

lemma find_pos_append: "c \<notin> set xs \<Longrightarrow> find_pos c (xs @ c # ys) = length xs"
  by (induction xs) (auto simp: find_pos_def)

lemma find_pos_notin: "c \<notin> set xs \<Longrightarrow> find_pos c xs = length xs"
  by (induction xs) (auto simp: find_pos_def)

subsection \<open>Sorted lists\<close>

text \<open>On a sorted list a downward closed prefix is a filter: \<open>lower_bound\<close> splits a \<open>std::set\<close>.\<close>

lemma takeWhile_sorted_filter:
  assumes "sorted_wrt (<) xs" and "\<And>x y. x \<in> set xs \<Longrightarrow> y \<in> set xs \<Longrightarrow> x < y \<Longrightarrow> P y \<Longrightarrow> P x"
  shows "takeWhile P xs = filter P xs" and "dropWhile P xs = filter (\<lambda>x. \<not> P x) xs"
  using assms
proof (induction xs)
  case (Cons x xs)
  {
    case 1
    with Cons.IH(1) show ?case by (auto simp: filter_empty_conv eq_commute [of "[]"])
  next
    case 2
    with Cons.IH(2) show ?case by (auto simp: filter_empty_conv intro!: filter_True [symmetric])
  }
qed simp_all

subsection \<open>Decimal printing\<close>

text \<open>What \<open>%d\<close> (\<open>%u\<close>, \<open>%zd\<close>) prints, and \<open>%0<w>d\<close>. \<open>snprintf\<close> with a buffer of \<open>n\<close> bytes keeps at most
  \<open>n - 1\<close> of them.\<close>

definition digit_char :: "nat \<Rightarrow> char" where
  "digit_char d = char_of (48 + d)"

fun show_nat :: "nat \<Rightarrow> string" where
  "show_nat n = (if n < 10 then [digit_char n] else show_nat (n div 10) @ [digit_char (n mod 10)])"

definition show_int :: "int \<Rightarrow> string" where
  "show_int i = (if i < 0 then CHR ''-'' # show_nat (nat (- i)) else show_nat (nat i))"

definition show_padded :: "nat \<Rightarrow> nat \<Rightarrow> string" where
  "show_padded w n = replicate (w - length (show_nat n)) (CHR ''0'') @ show_nat n"

definition snprintf :: "nat \<Rightarrow> string \<Rightarrow> string" where
  "snprintf n str = take (n - 1) str"

declare show_nat.simps [simp del]

text \<open>Reading the digits back.\<close>

definition digit_val :: "char \<Rightarrow> nat" where
  "digit_val c = of_char c - 48"

definition read_nat :: "string \<Rightarrow> nat" where
  "read_nat s = foldl (\<lambda>n c. 10 * n + digit_val c) 0 s"

lemma of_char_digit: "d < 10 \<Longrightarrow> (of_char (digit_char d) :: nat) = 48 + d"
  by (simp add: digit_char_def)

lemma digit_val_char: "d < 10 \<Longrightarrow> digit_val (digit_char d) = d"
  by (simp add: digit_val_def of_char_digit)

lemma read_nat_snoc: "read_nat (s @ [c]) = 10 * read_nat s + digit_val c"
  by (simp add: read_nat_def)

lemma read_show_nat: "read_nat (show_nat n) = n"
proof (induction n rule: show_nat.induct)
  case (1 n)
  show ?case
  proof (cases "n < 10")
    case True
    then show ?thesis by (simp add: show_nat.simps [of n] read_nat_def digit_val_char)
  next
    case False
    with 1 show ?thesis by (simp add: show_nat.simps [of n] read_nat_snoc digit_val_char)
  qed
qed

lemma show_nat_inject: "show_nat m = show_nat n \<Longrightarrow> m = n"
  by (metis read_show_nat)

lemma show_nat_digits: "c \<in> set (show_nat n) \<Longrightarrow> \<exists>d<10. c = digit_char d"
proof (induction n rule: show_nat.induct)
  case (1 n)
  show ?case
  proof (cases "n < 10")
    case True
    with "1.prems" show ?thesis by (auto simp: show_nat.simps [of n])
  next
    case False
    with "1.prems" have "c \<in> set (show_nat (n div 10)) \<or> c = digit_char (n mod 10)"
      by (auto simp: show_nat.simps [of n])
    moreover have "n mod 10 < 10" by simp
    ultimately show ?thesis using False "1.IH" by blast
  qed
qed

lemma show_nat_nonempty: "show_nat n \<noteq> []"
  by (simp add: show_nat.simps [of n])

lemma length_show_nat: "0 < k \<Longrightarrow> n < 10 ^ k \<Longrightarrow> length (show_nat n) \<le> k"
proof (induction n arbitrary: k rule: show_nat.induct)
  case (1 n)
  show ?case
  proof (cases "n < 10")
    case True
    with "1.prems" show ?thesis by (simp add: show_nat.simps [of n])
  next
    case False
    then obtain j where k: "k = Suc j" "0 < j"
      using "1.prems" by (cases k; cases "k = 1") auto
    with "1.prems" have "n div 10 < 10 ^ j" by (simp add: less_mult_imp_div_less mult.commute)
    with "1.IH" False k have "length (show_nat (n div 10)) \<le> j" by simp
    with False k show ?thesis by (simp add: show_nat.simps [of n])
  qed
qed

lemma length_show_padded: "0 < w \<Longrightarrow> n < 10 ^ w \<Longrightarrow> length (show_padded w n) = w"
  using length_show_nat [of w n] by (simp add: show_padded_def)

subsection \<open>Machines that never fail\<close>

text \<open>A component driven by events: \<open>step\<close> executes an event, \<open>enabled\<close> tells which events can happen, \<open>out\<close> what
  an event emits. A run is any sequence of events that can happen, with everything emitted.\<close>

inductive machine_run ::
  "('e \<Rightarrow> 's \<Rightarrow> 's result) \<Rightarrow> ('e \<Rightarrow> 's \<Rightarrow> bool) \<Rightarrow> ('e \<Rightarrow> 's \<Rightarrow> 'o list) \<Rightarrow> 's \<Rightarrow> 'o list \<Rightarrow> 's \<Rightarrow> bool"
  for step enabled out s0 where
  run_start: "machine_run step enabled out s0 [] s0"
| run_event: "machine_run step enabled out s0 os s \<Longrightarrow> enabled e s \<Longrightarrow> step e s = Inr s' \<Longrightarrow>
    machine_run step enabled out s0 (os @ out e s) s'"

text \<open>A machine without output.\<close>

definition silent :: "'e \<Rightarrow> 's \<Rightarrow> unit list" where "silent e s = []"

lemma run_event_silent:
  "machine_run step enabled silent s0 [] s \<Longrightarrow> enabled e s \<Longrightarrow> step e s = Inr s' \<Longrightarrow>
     machine_run step enabled silent s0 [] s'"
  using machine_run.run_event [of step enabled silent s0 "[]" s e s'] by (simp add: silent_def)

text \<open>A schedule, executed; \<open>None\<close> when an event is not possible or fails.\<close>

fun run_schedule :: "('e \<Rightarrow> 's \<Rightarrow> 's result) \<Rightarrow> ('e \<Rightarrow> 's \<Rightarrow> bool) \<Rightarrow> 'e list \<Rightarrow> 's \<Rightarrow> 's option" where
  "run_schedule step enabled [] s = Some s"
| "run_schedule step enabled (e # es) s =
     (if enabled e s then case step e s of Inl _ \<Rightarrow> None | Inr s' \<Rightarrow> run_schedule step enabled es s' else None)"

lemma run_trans:
  assumes "machine_run step enabled out s1 qs s2" and "machine_run step enabled out s0 ps s1"
  shows "machine_run step enabled out s0 (ps @ qs) s2"
  using assms
proof (induction rule: machine_run.induct)
  case (run_event qs s e s')
  then show ?case using machine_run.run_event [of step enabled out s0 "ps @ qs" s e s'] by simp
qed simp

lemma run_schedule_run:
  "run_schedule step enabled es s = Some s' \<Longrightarrow> machine_run step enabled silent s [] s'"
proof (induction es arbitrary: s)
  case Nil
  then show ?case by (simp add: machine_run.run_start)
next
  case (Cons e es)
  then obtain s1 where "enabled e s" "step e s = Inr s1" "run_schedule step enabled es s1 = Some s'"
    by (auto split: if_splits sum.splits)
  with Cons.IH [of s1] run_trans [of step enabled silent s1 "[]" s' s "[]"]
    run_event_silent [OF machine_run.run_start, of enabled e s step s1]
  show ?case by simp
qed

text \<open>The contract of a component that is safe under its invariant, and what every run of it has.\<close>

locale safe_machine =
  fixes step :: "'e \<Rightarrow> 's \<Rightarrow> 's result" and enabled :: "'e \<Rightarrow> 's \<Rightarrow> bool" and inv :: "'s \<Rightarrow> bool"
  assumes step_safe: "inv s \<Longrightarrow> enabled e s \<Longrightarrow> \<exists>s'. step e s = Inr s' \<and> inv s'"
begin

lemma run_inv: "machine_run step enabled out s0 os s \<Longrightarrow> inv s0 \<Longrightarrow> inv s"
proof (induction rule: machine_run.induct)
  case (run_event os s e s')
  with step_safe [of s e] show ?case by auto
qed

lemma run_safe: "machine_run step enabled out s0 os s \<Longrightarrow> inv s0 \<Longrightarrow> enabled e s \<Longrightarrow> is_ok (step e s)"
  using step_safe [OF run_inv, of out s0 os s e] by auto

end

text \<open>The contract of a component that also accounts for what it emits: \<open>seen\<close> is the history the state holds.\<close>

locale output_machine = safe_machine step enabled inv
  for step :: "'e \<Rightarrow> 's \<Rightarrow> 's result" and enabled :: "'e \<Rightarrow> 's \<Rightarrow> bool" and inv :: "'s \<Rightarrow> bool" +
  fixes out :: "'e \<Rightarrow> 's \<Rightarrow> 'o list list" and seen :: "'s \<Rightarrow> 'o list"
  assumes step_out: "inv s \<Longrightarrow> enabled e s \<Longrightarrow> step e s = Inr s' \<Longrightarrow> seen s' = seen s @ concat (out e s)"
begin

lemma run_out: "machine_run step enabled out s0 os s \<Longrightarrow> inv s0 \<Longrightarrow> seen s = seen s0 @ concat os"
proof (induction rule: machine_run.induct)
  case (run_event os s e s')
  then have "inv s" using run_inv by blast
  from step_out [OF this run_event.hyps(2,3)] run_event show ?case by simp
qed simp

end

end
