(* ===== verification/Endian.thy ===== *)
theory Endian
  imports Prelude
begin

text \<open>
  Byte order: the six conversion functions of include/libfm/fmnet/Endian.h over the macros of
  \<open>endian.h\<close>. The host's byte order is a parameter, so what is proved holds on both kinds of host.
  Integers are words of their width; the memory image of an \<open>n\<close>-byte integer is
  \<open>mem_store e n v\<close> and reading it back is \<open>mem_load e\<close>.
\<close>

datatype byte_order = LittleEndian | BigEndian

fun le_bytes :: "nat \<Rightarrow> nat \<Rightarrow> char list" where
  "le_bytes 0 v = []"
| "le_bytes (Suc n) v = char_of v # le_bytes n (v div 256)"

fun le_value :: "char list \<Rightarrow> nat" where
  "le_value [] = 0"
| "le_value (c # cs) = of_char c + 256 * le_value cs"

definition be_bytes :: "nat \<Rightarrow> nat \<Rightarrow> char list" where
  "be_bytes n v = rev (le_bytes n v)"

definition be_value :: "char list \<Rightarrow> nat" where
  "be_value cs = le_value (rev cs)"

definition mem_store :: "byte_order \<Rightarrow> nat \<Rightarrow> nat \<Rightarrow> char list" where
  "mem_store e n v = (case e of LittleEndian \<Rightarrow> le_bytes n v | BigEndian \<Rightarrow> be_bytes n v)"

definition mem_load :: "byte_order \<Rightarrow> char list \<Rightarrow> nat" where
  "mem_load e cs = (case e of LittleEndian \<Rightarrow> le_value cs | BigEndian \<Rightarrow> be_value cs)"

text \<open>\<open>htobe16/32/64\<close> and \<open>be16toh/32/64\<close>: a byte swap on a little-endian host, nothing on a
  big-endian one.\<close>

definition to_be :: "byte_order \<Rightarrow> nat \<Rightarrow> nat \<Rightarrow> nat" where
  "to_be e n v = (case e of LittleEndian \<Rightarrow> le_value (be_bytes n v) | BigEndian \<Rightarrow> v)"

definition hostToNetwork64 :: "byte_order \<Rightarrow> 64 word \<Rightarrow> 64 word" where
  "hostToNetwork64 e host64 = of_nat (to_be e 8 (unat host64))"

definition hostToNetwork32 :: "byte_order \<Rightarrow> 32 word \<Rightarrow> 32 word" where
  "hostToNetwork32 e host32 = of_nat (to_be e 4 (unat host32))"

definition hostToNetwork16 :: "byte_order \<Rightarrow> 16 word \<Rightarrow> 16 word" where
  "hostToNetwork16 e host16 = of_nat (to_be e 2 (unat host16))"

definition networkToHost64 :: "byte_order \<Rightarrow> 64 word \<Rightarrow> 64 word" where
  "networkToHost64 e net64 = of_nat (to_be e 8 (unat net64))"

definition networkToHost32 :: "byte_order \<Rightarrow> 32 word \<Rightarrow> 32 word" where
  "networkToHost32 e net32 = of_nat (to_be e 4 (unat net32))"

definition networkToHost16 :: "byte_order \<Rightarrow> 16 word \<Rightarrow> 16 word" where
  "networkToHost16 e net16 = of_nat (to_be e 2 (unat net16))"

lemmas hostToNetwork_defs = hostToNetwork64_def hostToNetwork32_def hostToNetwork16_def
lemmas networkToHost_defs = networkToHost64_def networkToHost32_def networkToHost16_def

subsection \<open>Bytes and values\<close>

lemma length_le_bytes [simp]: "length (le_bytes n v) = n"
  by (induction n arbitrary: v) simp_all

lemma length_be_bytes [simp]: "length (be_bytes n v) = n"
  by (simp add: be_bytes_def)

lemma length_mem_store [simp]: "length (mem_store e n v) = n"
  by (cases e) (simp_all add: mem_store_def)

lemma le_value_bound: "le_value cs < 256 ^ length cs"
proof (induction cs)
  case Nil
  then show ?case by simp
next
  case (Cons c cs)
  have "of_char c + 256 * le_value cs < 256 + 256 * le_value cs" by simp
  also from Cons have "\<dots> \<le> 256 * 256 ^ length cs" by simp
  finally show ?case by simp
qed

lemma le_value_le_bytes: "le_value (le_bytes n v) = v mod 256 ^ n"
proof (induction n arbitrary: v)
  case 0
  then show ?case by simp
next
  case (Suc n)
  have "v mod 256 + 256 * (v div 256 mod 256 ^ n) = v mod (256 * 256 ^ n)"
    by (simp add: mod_mult2_eq)
  with Suc show ?case by simp
qed

lemma le_bytes_le_value: "le_bytes (length cs) (le_value cs) = cs"
proof (induction cs)
  case Nil
  then show ?case by simp
next
  case (Cons c cs)
  have "of_char c < (256::nat)" by simp
  then have "(of_char c + 256 * le_value cs) div 256 = le_value cs" by simp
  moreover have "char_of (of_char c + 256 * le_value cs) = c"
    by (metis char_of_char char_of_mod_256 mod_mult_self2 of_char_mod_256)
  ultimately show ?case using Cons by simp
qed

lemma le_bytes_mod: "le_bytes n (v mod 256 ^ n) = le_bytes n v"
  using le_bytes_le_value [of "le_bytes n v"] by (simp add: le_value_le_bytes)

lemma be_value_be_bytes: "be_value (be_bytes n v) = v mod 256 ^ n"
  by (simp add: be_value_def be_bytes_def le_value_le_bytes)

lemma be_bytes_be_value: "be_bytes (length cs) (be_value cs) = cs"
  using le_bytes_le_value [of "rev cs"] by (simp add: be_value_def be_bytes_def)

lemma be_value_bound: "be_value cs < 256 ^ length cs"
  using le_value_bound [of "rev cs"] by (simp add: be_value_def)

lemma to_be_bound:
  assumes "v < 256 ^ n"
  shows "to_be e n v < 256 ^ n"
  using assms le_value_bound [of "be_bytes n v"] by (cases e) (simp_all add: to_be_def)

text \<open>What the conversion is for: the memory image of the converted value is the big-endian
  image of the value, whatever the host.\<close>

lemma mem_store_to_be: "mem_store e n (to_be e n v) = be_bytes n v"
proof (cases e)
  case LittleEndian
  have "le_bytes n (le_value (be_bytes n v)) = be_bytes n v"
    using le_bytes_le_value [of "be_bytes n v"] by simp
  with LittleEndian show ?thesis by (simp add: mem_store_def to_be_def)
next
  case BigEndian
  then show ?thesis by (simp add: mem_store_def to_be_def)
qed

lemma to_be_mem_load: "to_be e (length cs) (mem_load e cs) = be_value cs"
proof (cases e)
  case LittleEndian
  then show ?thesis
    by (simp add: to_be_def mem_load_def be_value_def be_bytes_def le_bytes_le_value)
next
  case BigEndian
  then show ?thesis by (simp add: to_be_def mem_load_def)
qed

lemma mem_load_bound: "mem_load e cs < 256 ^ length cs"
  by (cases e) (simp_all add: mem_load_def le_value_bound be_value_bound)

lemma to_be_to_be: "v < 256 ^ n \<Longrightarrow> to_be e n (to_be e n v) = v"
proof (cases e)
  case LittleEndian
  assume v: "v < 256 ^ n"
  have "be_bytes n (le_value (be_bytes n v)) = le_bytes n v"
    using le_bytes_le_value [of "be_bytes n v"] by (simp add: be_bytes_def)
  with LittleEndian v show ?thesis by (simp add: to_be_def le_value_le_bytes)
next
  case BigEndian
  then show ?thesis by (simp add: to_be_def)
qed

lemma unat_word64_byte_bound: "unat (w :: 64 word) < 256 ^ 8"
  using unsigned_less [of w, where ?'a = nat] by simp

lemma unat_word32_byte_bound: "unat (w :: 32 word) < 256 ^ 4"
  using unsigned_less [of w, where ?'a = nat] by simp

lemma unat_word16_byte_bound: "unat (w :: 16 word) < 256 ^ 2"
  using unsigned_less [of w, where ?'a = nat] by simp

lemma unat_word8_byte_bound: "unat (w :: 8 word) < 256 ^ 1"
  using unsigned_less [of w, where ?'a = nat] by simp

lemmas unat_byte_bounds = unat_word64_byte_bound unat_word32_byte_bound unat_word16_byte_bound
  unat_word8_byte_bound

lemma unat_of_nat_64: "v < 256 ^ 8 \<Longrightarrow> unat (of_nat v :: 64 word) = v"
  by (simp add: unat_of_nat)

lemma unat_of_nat_32: "v < 256 ^ 4 \<Longrightarrow> unat (of_nat v :: 32 word) = v"
  by (simp add: unat_of_nat)

lemma unat_of_nat_16: "v < 256 ^ 2 \<Longrightarrow> unat (of_nat v :: 16 word) = v"
  by (simp add: unat_of_nat)

lemmas unat_of_nat_to_be =
  unat_of_nat_64 [OF to_be_bound [OF unat_word64_byte_bound]]
  unat_of_nat_32 [OF to_be_bound [OF unat_word32_byte_bound]]
  unat_of_nat_16 [OF to_be_bound [OF unat_word16_byte_bound]]

lemma unat_hostToNetwork:
  shows "unat (hostToNetwork64 e w64) = to_be e 8 (unat w64)"
    and "unat (hostToNetwork32 e w32) = to_be e 4 (unat w32)"
    and "unat (hostToNetwork16 e w16) = to_be e 2 (unat w16)"
  by (simp_all only: hostToNetwork_defs unat_of_nat_to_be)

lemma unat_networkToHost:
  shows "unat (networkToHost64 e w64) = to_be e 8 (unat w64)"
    and "unat (networkToHost32 e w32) = to_be e 4 (unat w32)"
    and "unat (networkToHost16 e w16) = to_be e 2 (unat w16)"
  by (simp_all only: networkToHost_defs unat_of_nat_to_be)

end
