(* ===== verification/Buffer.thy ===== *)
theory Buffer
  imports Endian
begin

text \<open>
  The byte buffer of include/libfm/fmnet/Buffer.h and net/Buffer.cpp.

  The record has the three members of the class: the vector and the two indices, which are
  \<open>size_t\<close> (so \<open>writableBytes\<close> wraps around when the write index has passed the end). A
  \<open>const char *\<close> into the buffer is its offset from \<open>begin()\<close>; \<open>nullptr\<close> is \<open>None\<close>. Every
  \<open>assert\<close> of the source is a check, every access to the array is range-checked.

  \<open>Buffer_contents\<close> is the abstraction: the readable bytes. The lemmas show that on a well-formed
  buffer each operation returns, keeps well-formedness and acts on the contents as the
  corresponding list operation; the locale \<open>byte_fifo\<close> is that contract for the clients
  (TcpConnection, the HTTP parser and printer).
\<close>

record Buffer =
  buffer_data :: "char list"
  read_index :: nat
  write_index :: nat

definition kCheapPrepend :: nat where "kCheapPrepend = 8"
definition kInitialSize :: nat where "kInitialSize = 1024"

definition kCRLF :: "char list" where "kCRLF = [CHR 0x0D, CHR 0x0A]"

definition readableBytes :: "Buffer \<Rightarrow> nat" where
  "readableBytes b = sz_sub (write_index b) (read_index b)"

definition writableBytes :: "Buffer \<Rightarrow> nat" where
  "writableBytes b = sz_sub (length (buffer_data b)) (write_index b)"

definition prependableBytes :: "Buffer \<Rightarrow> nat" where
  "prependableBytes b = read_index b"

definition Buffer_new :: "nat \<Rightarrow> Buffer result" where
  "Buffer_new initial_size =
     (let n = sz_add kCheapPrepend initial_size;
          b = \<lparr>buffer_data = replicate n (char_of (0::nat)),
               read_index = kCheapPrepend, write_index = kCheapPrepend\<rparr>
      in check LengthError (n \<le> vector_max)
           (assert_c (readableBytes b = 0)
             (assert_c (writableBytes b = initial_size)
               (assert_c (prependableBytes b = kCheapPrepend) (Inr b)))))"

text \<open>\<open>peek()\<close> and \<open>beginWrite()\<close> as offsets, and the bytes between two offsets.\<close>

definition peek :: "Buffer \<Rightarrow> nat" where "peek b = read_index b"
definition beginWrite :: "Buffer \<Rightarrow> nat" where "beginWrite b = write_index b"

definition Buffer_range :: "Buffer \<Rightarrow> nat \<Rightarrow> nat \<Rightarrow> char list result" where
  "Buffer_range b start stop = mem_read (buffer_data b) start stop"

text \<open>\<open>std::search\<close> for CRLF: the position of the first occurrence, \<open>None\<close> when the search
  returns the end of the range.\<close>

fun search_CRLF :: "char list \<Rightarrow> nat option" where
  "search_CRLF (c # d # cs) =
     (if [c, d] = kCRLF then Some 0 else map_option Suc (search_CRLF (d # cs)))"
| "search_CRLF cs = None"

text \<open>\<open>memchr(p, '\n', n)\<close>.\<close>

definition search_EOL :: "char list \<Rightarrow> nat option" where
  "search_EOL cs =
     (let i = find_pos (CHR 0x0A) cs in if i < length cs then Some i else None)"

definition findCRLF :: "Buffer \<Rightarrow> nat option result" where
  "findCRLF b =
     result_bind (Buffer_range b (peek b) (beginWrite b))
       (\<lambda>cs. Inr (map_option (\<lambda>i. peek b + i) (search_CRLF cs)))"

definition findCRLF_from :: "Buffer \<Rightarrow> nat \<Rightarrow> nat option result" where
  "findCRLF_from b start =
     assert_c (peek b \<le> start \<and> start \<le> beginWrite b)
       (result_bind (Buffer_range b start (beginWrite b))
         (\<lambda>cs. Inr (map_option (\<lambda>i. start + i) (search_CRLF cs))))"

definition findEOL :: "Buffer \<Rightarrow> nat option result" where
  "findEOL b =
     result_bind (Buffer_range b (peek b) (peek b + readableBytes b))
       (\<lambda>cs. Inr (map_option (\<lambda>i. peek b + i) (search_EOL cs)))"

definition findEOL_from :: "Buffer \<Rightarrow> nat \<Rightarrow> nat option result" where
  "findEOL_from b start =
     assert_c (peek b \<le> start \<and> start \<le> beginWrite b)
       (result_bind (Buffer_range b start (beginWrite b))
         (\<lambda>cs. Inr (map_option (\<lambda>i. start + i) (search_EOL cs))))"

definition retrieveAll :: "Buffer \<Rightarrow> Buffer" where
  "retrieveAll b = b\<lparr>read_index := kCheapPrepend, write_index := kCheapPrepend\<rparr>"

definition retrieve :: "nat \<Rightarrow> Buffer \<Rightarrow> Buffer result" where
  "retrieve len b =
     assert_c (len \<le> readableBytes b)
       (Inr (if len < readableBytes b then b\<lparr>read_index := sz_add (read_index b) len\<rparr>
             else retrieveAll b))"

definition retrieveUntil :: "nat \<Rightarrow> Buffer \<Rightarrow> Buffer result" where
  "retrieveUntil stop b =
     assert_c (peek b \<le> stop \<and> stop \<le> beginWrite b) (retrieve (stop - peek b) b)"

definition retrieveInt64 :: "Buffer \<Rightarrow> Buffer result" where "retrieveInt64 = retrieve 8"
definition retrieveInt32 :: "Buffer \<Rightarrow> Buffer result" where "retrieveInt32 = retrieve 4"
definition retrieveInt16 :: "Buffer \<Rightarrow> Buffer result" where "retrieveInt16 = retrieve 2"
definition retrieveInt8 :: "Buffer \<Rightarrow> Buffer result" where "retrieveInt8 = retrieve 1"

definition retrieveAsString :: "nat \<Rightarrow> Buffer \<Rightarrow> (char list \<times> Buffer) result" where
  "retrieveAsString len b =
     assert_c (len \<le> readableBytes b)
       (result_bind (Buffer_range b (peek b) (peek b + len))
         (\<lambda>result. result_bind (retrieve len b) (\<lambda>b'. Inr (result, b'))))"

definition retrieveAllAsString :: "Buffer \<Rightarrow> (char list \<times> Buffer) result" where
  "retrieveAllAsString b = retrieveAsString (readableBytes b) b"

definition Buffer_toString :: "Buffer \<Rightarrow> char list result" where
  "Buffer_toString b = Buffer_range b (peek b) (peek b + readableBytes b)"

definition hasWritten :: "nat \<Rightarrow> Buffer \<Rightarrow> Buffer result" where
  "hasWritten len b =
     assert_c (len \<le> writableBytes b) (Inr (b\<lparr>write_index := sz_add (write_index b) len\<rparr>))"

definition unWrite :: "nat \<Rightarrow> Buffer \<Rightarrow> Buffer result" where
  "unWrite len b =
     assert_c (len \<le> readableBytes b) (Inr (b\<lparr>write_index := sz_sub (write_index b) len\<rparr>))"

text \<open>\<open>vector::resize(n)\<close>: truncated, or padded with zero bytes.\<close>

definition vector_resize :: "char list \<Rightarrow> nat \<Rightarrow> char list result" where
  "vector_resize xs n =
     check LengthError (n \<le> vector_max)
       (Inr (take n xs @ replicate (n - length xs) (char_of (0::nat))))"

definition makeSpace :: "nat \<Rightarrow> Buffer \<Rightarrow> Buffer result" where
  "makeSpace len b =
     (if sz_add (writableBytes b) (prependableBytes b) < sz_add len kCheapPrepend
      then result_bind (vector_resize (buffer_data b) (sz_add (write_index b) len))
             (\<lambda>d. Inr (b\<lparr>buffer_data := d\<rparr>))
      else assert_c (kCheapPrepend < read_index b)
        (let readable = readableBytes b
         in result_bind (Buffer_range b (read_index b) (write_index b))
              (\<lambda>cs. result_bind (mem_write (buffer_data b) kCheapPrepend cs)
                (\<lambda>d. let b' = b\<lparr>buffer_data := d, read_index := kCheapPrepend,
                               write_index := sz_add kCheapPrepend readable\<rparr>
                     in assert_c (readable = readableBytes b') (Inr b')))))"

definition ensureWritableBytes :: "nat \<Rightarrow> Buffer \<Rightarrow> Buffer result" where
  "ensureWritableBytes len b =
     result_bind (if writableBytes b < len then makeSpace len b else Inr b)
       (\<lambda>b'. assert_c (writableBytes b' \<ge> len) (Inr b'))"

definition Buffer_append :: "char list \<Rightarrow> Buffer \<Rightarrow> Buffer result" where
  "Buffer_append str b =
     result_bind (ensureWritableBytes (length str) b)
       (\<lambda>b1. result_bind (mem_write (buffer_data b1) (beginWrite b1) str)
         (\<lambda>d. hasWritten (length str) (b1\<lparr>buffer_data := d\<rparr>)))"

definition Buffer_prepend :: "char list \<Rightarrow> Buffer \<Rightarrow> Buffer result" where
  "Buffer_prepend str b =
     assert_c (length str \<le> prependableBytes b)
       (let r = sz_sub (read_index b) (length str)
        in result_bind (mem_write (buffer_data b) r str)
             (\<lambda>d. Inr (b\<lparr>buffer_data := d, read_index := r\<rparr>)))"

text \<open>The typed operations. A value is passed as a word; \<open>memcpy\<close> of its converted image is
  \<open>mem_store\<close>, and \<open>memcpy\<close> from the buffer is a range read followed by \<open>mem_load\<close>.\<close>

definition appendInt64 :: "byte_order \<Rightarrow> 64 word \<Rightarrow> Buffer \<Rightarrow> Buffer result" where
  "appendInt64 e x b = Buffer_append (mem_store e 8 (unat (hostToNetwork64 e x))) b"

definition appendInt32 :: "byte_order \<Rightarrow> 32 word \<Rightarrow> Buffer \<Rightarrow> Buffer result" where
  "appendInt32 e x b = Buffer_append (mem_store e 4 (unat (hostToNetwork32 e x))) b"

definition appendInt16 :: "byte_order \<Rightarrow> 16 word \<Rightarrow> Buffer \<Rightarrow> Buffer result" where
  "appendInt16 e x b = Buffer_append (mem_store e 2 (unat (hostToNetwork16 e x))) b"

definition appendInt8 :: "byte_order \<Rightarrow> 8 word \<Rightarrow> Buffer \<Rightarrow> Buffer result" where
  "appendInt8 e x b = Buffer_append (mem_store e 1 (unat x)) b"

definition prependInt64 :: "byte_order \<Rightarrow> 64 word \<Rightarrow> Buffer \<Rightarrow> Buffer result" where
  "prependInt64 e x b = Buffer_prepend (mem_store e 8 (unat (hostToNetwork64 e x))) b"

definition prependInt32 :: "byte_order \<Rightarrow> 32 word \<Rightarrow> Buffer \<Rightarrow> Buffer result" where
  "prependInt32 e x b = Buffer_prepend (mem_store e 4 (unat (hostToNetwork32 e x))) b"

definition prependInt16 :: "byte_order \<Rightarrow> 16 word \<Rightarrow> Buffer \<Rightarrow> Buffer result" where
  "prependInt16 e x b = Buffer_prepend (mem_store e 2 (unat (hostToNetwork16 e x))) b"

definition prependInt8 :: "byte_order \<Rightarrow> 8 word \<Rightarrow> Buffer \<Rightarrow> Buffer result" where
  "prependInt8 e x b = Buffer_prepend (mem_store e 1 (unat x)) b"

definition peekInt64 :: "byte_order \<Rightarrow> Buffer \<Rightarrow> 64 word result" where
  "peekInt64 e b =
     assert_c (readableBytes b \<ge> 8)
       (result_bind (Buffer_range b (peek b) (peek b + 8))
         (\<lambda>cs. Inr (networkToHost64 e (of_nat (mem_load e cs)))))"

text \<open>\<open>peekInt32\<close> calls \<open>hostToNetwork32\<close> where \<open>peekInt64\<close> calls \<open>networkToHost64\<close>.\<close>

definition peekInt32 :: "byte_order \<Rightarrow> Buffer \<Rightarrow> 32 word result" where
  "peekInt32 e b =
     assert_c (readableBytes b \<ge> 4)
       (result_bind (Buffer_range b (peek b) (peek b + 4))
         (\<lambda>cs. Inr (hostToNetwork32 e (of_nat (mem_load e cs)))))"

text \<open>\<open>peekInt16\<close> asserts two readable bytes but declares its temporary as \<open>int32_t\<close>, so that
  \<open>memcpy\<close> copies four; the argument of \<open>hostToNetwork16\<close> is the value truncated to 16 bits.\<close>

definition peekInt16 :: "byte_order \<Rightarrow> Buffer \<Rightarrow> 16 word result" where
  "peekInt16 e b =
     assert_c (readableBytes b \<ge> 2)
       (result_bind (Buffer_range b (peek b) (peek b + 4))
         (\<lambda>cs. let be16 = (of_nat (mem_load e cs) :: 32 word)
               in Inr (hostToNetwork16 e (ucast be16))))"

definition peekInt8 :: "byte_order \<Rightarrow> Buffer \<Rightarrow> 8 word result" where
  "peekInt8 e b =
     assert_c (readableBytes b \<ge> 1)
       (result_bind (Buffer_range b (peek b) (peek b + 1)) (\<lambda>cs. Inr (of_nat (mem_load e cs))))"

definition readInt64 :: "byte_order \<Rightarrow> Buffer \<Rightarrow> (64 word \<times> Buffer) result" where
  "readInt64 e b =
     result_bind (peekInt64 e b) (\<lambda>r. result_bind (retrieveInt64 b) (\<lambda>b'. Inr (r, b')))"

definition readInt32 :: "byte_order \<Rightarrow> Buffer \<Rightarrow> (32 word \<times> Buffer) result" where
  "readInt32 e b =
     result_bind (peekInt32 e b) (\<lambda>r. result_bind (retrieveInt32 b) (\<lambda>b'. Inr (r, b')))"

definition readInt16 :: "byte_order \<Rightarrow> Buffer \<Rightarrow> (16 word \<times> Buffer) result" where
  "readInt16 e b =
     result_bind (peekInt16 e b) (\<lambda>r. result_bind (retrieveInt16 b) (\<lambda>b'. Inr (r, b')))"

definition readInt8 :: "byte_order \<Rightarrow> Buffer \<Rightarrow> (8 word \<times> Buffer) result" where
  "readInt8 e b =
     result_bind (peekInt8 e b) (\<lambda>r. result_bind (retrieveInt8 b) (\<lambda>b'. Inr (r, b')))"

text \<open>\<open>shrink\<close> fills a fresh buffer and swaps: what it leaves in \<open>this\<close> is the fresh one.\<close>

definition Buffer_swap :: "Buffer \<times> Buffer \<Rightarrow> Buffer \<times> Buffer" where
  "Buffer_swap p = (snd p, fst p)"

definition shrink :: "nat \<Rightarrow> Buffer \<Rightarrow> Buffer result" where
  "shrink reserve b =
     result_bind (Buffer_new kInitialSize)
       (\<lambda>other. result_bind (ensureWritableBytes (sz_add (readableBytes b) reserve) other)
         (\<lambda>other1. result_bind (Buffer_toString b)
           (\<lambda>str. result_bind (Buffer_append str other1)
             (\<lambda>other2. Inr (fst (Buffer_swap (b, other2)))))))"

text \<open>
  \<open>readFd\<close>. The outcome of \<open>readv\<close> is an argument: the \<open>errno\<close> of a failed call or the bytes the
  kernel delivers, which go to the free space of the vector first and then, when the vector has
  less than 64 KiB of it, to \<open>extraBuf\<close>. The condition of the second branch compares \<open>writable\<close>
  with itself, as the source does. The result is the buffer and the value \<open>n\<close> or the saved error.
\<close>

definition extraBuf_size :: nat where "extraBuf_size = 65536"

definition readFd_capacity :: "Buffer \<Rightarrow> nat" where
  "readFd_capacity b =
     (let writable = writableBytes b
      in if writable < extraBuf_size then writable + extraBuf_size else writable)"

definition readFd :: "Buffer \<Rightarrow> int + char list \<Rightarrow> (Buffer \<times> (int + nat)) result" where
  "readFd b outcome =
     (let writable = writableBytes b
      in case outcome of
           Inl saved_errno \<Rightarrow> Inr (b, Inl saved_errno)
         | Inr bytes \<Rightarrow>
             (let n = length bytes; extraBuf = drop writable bytes
              in result_bind (mem_write (buffer_data b) (write_index b) (take writable bytes))
                (\<lambda>d. let b1 = b\<lparr>buffer_data := d\<rparr>
                     in if writable \<le> writable
                        then Inr (b1\<lparr>write_index := sz_add (write_index b1) n\<rparr>, Inr n)
                        else result_bind
                          (Buffer_append (take (n - writable) extraBuf)
                            (b1\<lparr>write_index := length (buffer_data b1)\<rparr>))
                          (\<lambda>b2. Inr (b2, Inr n)))))"


subsection \<open>Well-formedness and contents\<close>

definition Buffer_wf :: "Buffer \<Rightarrow> bool" where
  "Buffer_wf b \<longleftrightarrow>
     read_index b \<le> write_index b \<and> write_index b \<le> length (buffer_data b) \<and>
     kCheapPrepend \<le> length (buffer_data b) \<and> length (buffer_data b) \<le> vector_max"

definition Buffer_contents :: "Buffer \<Rightarrow> char list" where
  "Buffer_contents b = take (write_index b - read_index b) (drop (read_index b) (buffer_data b))"

text \<open>How far the used part of the vector reaches; it bounds the size a reallocation may need.\<close>

definition Buffer_used :: "Buffer \<Rightarrow> nat" where
  "Buffer_used b = max kCheapPrepend (write_index b)"

lemma vector_max_less: "n \<le> vector_max \<Longrightarrow> n < 2 ^ 64"
  by (simp add: vector_max_def)

lemma Buffer_wfD:
  assumes "Buffer_wf b"
  shows "read_index b \<le> write_index b" and "write_index b \<le> length (buffer_data b)"
    and "kCheapPrepend \<le> length (buffer_data b)" and "length (buffer_data b) \<le> vector_max"
  using assms by (simp_all add: Buffer_wf_def)

lemma readableBytes_wf: "Buffer_wf b \<Longrightarrow> readableBytes b = write_index b - read_index b"
  unfolding readableBytes_def by (rule sz_sub_le) (auto simp: Buffer_wf_def vector_max_def)

lemma writableBytes_wf: "Buffer_wf b \<Longrightarrow> writableBytes b = length (buffer_data b) - write_index b"
  unfolding writableBytes_def by (rule sz_sub_le) (auto simp: Buffer_wf_def vector_max_def)

lemma length_Buffer_contents: "Buffer_wf b \<Longrightarrow> length (Buffer_contents b) = readableBytes b"
  by (simp add: readableBytes_wf) (auto simp: Buffer_contents_def Buffer_wf_def)

lemma Buffer_wf_split:
  assumes "Buffer_wf b"
  shows "buffer_data b = take (read_index b) (buffer_data b) @ Buffer_contents b @
           drop (write_index b) (buffer_data b)"
proof -
  have "drop (read_index b) (buffer_data b) =
      Buffer_contents b @ drop (write_index b) (buffer_data b)"
    using assms append_take_drop_id [of "write_index b - read_index b" "drop (read_index b) (buffer_data b)"]
    by (simp add: Buffer_contents_def Buffer_wf_def)
  then show ?thesis by (metis append_take_drop_id)
qed

text \<open>A buffer laid out as prefix, contents and free space has those contents.\<close>

lemma Buffer_contentsI:
  assumes "buffer_data b = pre @ cs @ post" and "read_index b = length pre"
    and "write_index b = length pre + length cs"
  shows "Buffer_contents b = cs"
  using assms by (simp add: Buffer_contents_def)

lemma Buffer_layoutE:
  assumes "Buffer_wf b"
  obtains pre post where "buffer_data b = pre @ Buffer_contents b @ post"
    and "read_index b = length pre"
    and "write_index b = length pre + length (Buffer_contents b)"
proof
  show "buffer_data b = take (read_index b) (buffer_data b) @ Buffer_contents b @
      drop (write_index b) (buffer_data b)"
    by (rule Buffer_wf_split [OF assms])
  show "read_index b = length (take (read_index b) (buffer_data b))"
    using Buffer_wfD(1,2) [OF assms] by simp
  then show "write_index b = length (take (read_index b) (buffer_data b)) + length (Buffer_contents b)"
    using Buffer_wfD(1,2) [OF assms] by (simp add: Buffer_contents_def)
qed

subsection \<open>Construction and queries\<close>

lemma Buffer_new_ok:
  assumes "kCheapPrepend + n \<le> vector_max"
  shows "\<exists>b. Buffer_new n = Inr b \<and> Buffer_wf b \<and> Buffer_contents b = [] \<and>
           writableBytes b = n \<and> read_index b = kCheapPrepend \<and> Buffer_used b = kCheapPrepend"
proof -
  have "sz_add kCheapPrepend n = kCheapPrepend + n"
    using assms by (intro sz_add_small) (simp add: vector_max_def)
  moreover have "sz_sub (kCheapPrepend + n) kCheapPrepend = n"
    using assms by (subst sz_sub_le) (simp_all add: vector_max_def)
  moreover have "sz_sub kCheapPrepend kCheapPrepend = 0"
    by (simp add: kCheapPrepend_def)
  ultimately show ?thesis
    using assms
    by (simp add: Buffer_new_def Let_def readableBytes_def writableBytes_def prependableBytes_def
        Buffer_wf_def Buffer_contents_def Buffer_used_def)
qed

lemma Buffer_range_contents:
  assumes "Buffer_wf b" and "n \<le> length (Buffer_contents b)"
  shows "Buffer_range b (peek b) (peek b + n) = Inr (take n (Buffer_contents b))"
proof -
  from Buffer_layoutE [OF assms(1)] obtain pre post
    where *: "buffer_data b = pre @ Buffer_contents b @ post" "read_index b = length pre"
      "write_index b = length pre + length (Buffer_contents b)" by blast
  with assms(2) show ?thesis
    unfolding Buffer_range_def peek_def by (subst *(1), subst mem_read_ok) simp_all
qed

lemma Buffer_toString_ok: "Buffer_wf b \<Longrightarrow> Buffer_toString b = Inr (Buffer_contents b)"
  using Buffer_range_contents [of b "length (Buffer_contents b)"]
  by (simp add: Buffer_toString_def length_Buffer_contents)

lemma Buffer_range_all:
  "Buffer_wf b \<Longrightarrow> Buffer_range b (read_index b) (write_index b) = Inr (Buffer_contents b)"
  using Buffer_range_contents [of b "length (Buffer_contents b)"] Buffer_wfD(1) [of b]
  by (simp add: length_Buffer_contents readableBytes_wf peek_def)

subsection \<open>Taking bytes out\<close>

lemma retrieveAll_ok:
  assumes "Buffer_wf b"
  shows "Buffer_wf (retrieveAll b)" and "Buffer_contents (retrieveAll b) = []"
    and "Buffer_used (retrieveAll b) \<le> Buffer_used b"
  using assms by (auto simp: retrieveAll_def Buffer_wf_def Buffer_contents_def Buffer_used_def)

lemma retrieve_ok:
  assumes wf: "Buffer_wf b" and len: "len \<le> length (Buffer_contents b)"
  shows "\<exists>b'. retrieve len b = Inr b' \<and> Buffer_wf b' \<and>
           Buffer_contents b' = drop len (Buffer_contents b) \<and> Buffer_used b' \<le> Buffer_used b"
proof (cases "len < readableBytes b")
  case True
  let ?b = "b\<lparr>read_index := read_index b + len\<rparr>"
  have lt: "read_index b + len < write_index b"
    using True wf by (simp add: readableBytes_wf)
  then have "sz_add (read_index b) len = read_index b + len"
    using wf by (intro sz_add_small) (auto simp: Buffer_wf_def vector_max_def)
  with True have "retrieve len b = Inr ?b"
    by (simp add: retrieve_def)
  moreover have "Buffer_wf ?b"
    using wf lt by (simp add: Buffer_wf_def)
  moreover have "Buffer_contents ?b = drop len (Buffer_contents b)"
    using lt by (simp add: Buffer_contents_def drop_take add.commute)
  moreover have "Buffer_used ?b = Buffer_used b"
    by (simp add: Buffer_used_def)
  ultimately show ?thesis by simp
next
  case False
  with len wf have "len = readableBytes b" and "drop len (Buffer_contents b) = []"
    by (simp_all add: length_Buffer_contents)
  with retrieveAll_ok [OF wf] show ?thesis
    by (simp add: retrieve_def)
qed

lemma retrieve_assert: "readableBytes b < len \<Longrightarrow> retrieve len b = Inl AssertFailed"
  by (simp add: retrieve_def)

lemma retrieveUntil_ok:
  assumes "Buffer_wf b" and "i \<le> length (Buffer_contents b)"
  shows "\<exists>b'. retrieveUntil (peek b + i) b = Inr b' \<and> Buffer_wf b' \<and>
           Buffer_contents b' = drop i (Buffer_contents b) \<and> Buffer_used b' \<le> Buffer_used b"
proof -
  have "peek b + i \<le> beginWrite b"
    using assms Buffer_wfD(1) [OF assms(1)]
    by (simp add: length_Buffer_contents readableBytes_wf peek_def beginWrite_def)
  with retrieve_ok [OF assms] show ?thesis
    by (simp add: retrieveUntil_def)
qed

lemma retrieveAsString_ok:
  assumes "Buffer_wf b" and "len \<le> length (Buffer_contents b)"
  shows "\<exists>b'. retrieveAsString len b = Inr (take len (Buffer_contents b), b') \<and> Buffer_wf b' \<and>
           Buffer_contents b' = drop len (Buffer_contents b) \<and> Buffer_used b' \<le> Buffer_used b"
  using assms retrieve_ok [OF assms] Buffer_range_contents [OF assms]
  by (auto simp: retrieveAsString_def length_Buffer_contents)

lemma unWrite_ok:
  assumes wf: "Buffer_wf b" and len: "len \<le> length (Buffer_contents b)"
  shows "\<exists>b'. unWrite len b = Inr b' \<and> Buffer_wf b' \<and>
           Buffer_contents b' = take (length (Buffer_contents b) - len) (Buffer_contents b)"
proof -
  have len': "len \<le> write_index b - read_index b"
    using assms by (simp add: length_Buffer_contents readableBytes_wf)
  then have "sz_sub (write_index b) len = write_index b - len"
    using wf by (intro sz_sub_le) (auto simp: Buffer_wf_def vector_max_def)
  moreover have "len \<le> readableBytes b"
    using len wf by (simp add: length_Buffer_contents)
  ultimately have "unWrite len b = Inr (b\<lparr>write_index := write_index b - len\<rparr>)"
    by (simp add: unWrite_def)
  moreover have "Buffer_wf (b\<lparr>write_index := write_index b - len\<rparr>)"
    using wf len' by (auto simp: Buffer_wf_def)
  moreover have "Buffer_contents (b\<lparr>write_index := write_index b - len\<rparr>) =
      take (length (Buffer_contents b) - len) (Buffer_contents b)"
    using wf by (simp add: length_Buffer_contents readableBytes_wf)
      (simp add: Buffer_contents_def min_def add.commute)
  ultimately show ?thesis by blast
qed

subsection \<open>Making space and appending\<close>

text \<open>The two branches of \<open>makeSpace\<close>: growing the vector, or moving the contents to the front.\<close>

lemma makeSpace_sums:
  assumes wf: "Buffer_wf b" and len: "len \<le> vector_max"
  shows "sz_add (writableBytes b) (prependableBytes b) = writableBytes b + read_index b"
    and "sz_add len kCheapPrepend = len + kCheapPrepend"
    and "sz_add (write_index b) len = write_index b + len"
  using Buffer_wfD [OF wf] len
  by (auto intro!: sz_add_small simp: writableBytes_wf [OF wf] prependableBytes_def vector_max_def kCheapPrepend_def)

lemma makeSpace_move:
  assumes wf: "Buffer_wf b" and small: "writableBytes b < len" and max: "len \<le> vector_max"
    and room: "\<not> writableBytes b + read_index b < len + kCheapPrepend"
  shows "\<exists>b'. makeSpace len b = Inr b' \<and> Buffer_wf b' \<and> Buffer_contents b' = Buffer_contents b \<and>
           len \<le> writableBytes b' \<and> Buffer_used b' \<le> Buffer_used b \<and> read_index b' \<le> read_index b"
proof -
  note D = Buffer_wfD [OF wf]
  let ?cs = "Buffer_contents b"
  have r: "kCheapPrepend < read_index b" using small room by simp
  let ?d = "take kCheapPrepend (buffer_data b) @ ?cs @
      drop (kCheapPrepend + length ?cs) (buffer_data b)"
  let ?b = "b\<lparr>buffer_data := ?d, read_index := kCheapPrepend,
      write_index := kCheapPrepend + length ?cs\<rparr>"
  have len_cs: "length ?cs = readableBytes b"
    by (rule length_Buffer_contents [OF wf])
  have fit: "kCheapPrepend + length ?cs \<le> length (buffer_data b)"
    using D r len_cs readableBytes_wf [OF wf] by simp
  have wf': "Buffer_wf ?b"
    using D fit by (simp add: Buffer_wf_def)
  have cs': "Buffer_contents ?b = ?cs"
    using D(3) by (intro Buffer_contentsI [where pre = "take kCheapPrepend (buffer_data b)"]) auto
  have "sz_add kCheapPrepend (length ?cs) = kCheapPrepend + length ?cs"
    using fit D(4) by (intro sz_add_small) (simp add: vector_max_def)
  moreover have "readableBytes ?b = length ?cs"
    using readableBytes_wf [OF wf'] by simp
  ultimately have "makeSpace len b = Inr ?b"
    using room makeSpace_sums [OF wf max] r fit
    by (simp add: makeSpace_def Buffer_range_all [OF wf] mem_write_ok len_cs [symmetric] Let_def)
  moreover have "writableBytes ?b = length (buffer_data b) - (kCheapPrepend + length ?cs)"
    using writableBytes_wf [OF wf'] fit D(3) by simp
  then have "len \<le> writableBytes ?b"
    using room D r len_cs readableBytes_wf [OF wf] writableBytes_wf [OF wf] by simp
  moreover have "Buffer_used ?b \<le> Buffer_used b"
    using r len_cs readableBytes_wf [OF wf] D by (simp add: Buffer_used_def)
  ultimately show ?thesis using wf' cs' r by auto
qed

lemma makeSpace_ok:
  assumes wf: "Buffer_wf b" and small: "writableBytes b < len"
    and fits: "write_index b + len \<le> vector_max"
  shows "\<exists>b'. makeSpace len b = Inr b' \<and> Buffer_wf b' \<and> Buffer_contents b' = Buffer_contents b \<and>
           len \<le> writableBytes b' \<and> Buffer_used b' \<le> Buffer_used b \<and> read_index b' \<le> read_index b"
proof (cases "writableBytes b + read_index b < len + kCheapPrepend")
  case True
  note D = Buffer_wfD [OF wf]
  let ?b = "b\<lparr>buffer_data := buffer_data b @
      replicate (write_index b + len - length (buffer_data b)) (char_of (0::nat))\<rparr>"
  have grow: "length (buffer_data b) < write_index b + len"
    using small writableBytes_wf [OF wf] D(2) by simp
  with True makeSpace_sums [OF wf, of len] fits have "makeSpace len b = Inr ?b"
    by (simp add: makeSpace_def vector_resize_def check_def)
  moreover have wf': "Buffer_wf ?b"
    using D fits grow by (simp add: Buffer_wf_def)
  moreover have "Buffer_contents ?b = Buffer_contents b"
    using D by (simp add: Buffer_contents_def)
  moreover have "len \<le> writableBytes ?b"
    using grow by (simp add: writableBytes_wf [OF wf'])
  ultimately show ?thesis by (auto simp: Buffer_used_def)
next
  case False
  with makeSpace_move [OF wf small] fits show ?thesis by simp
qed

lemma ensureWritableBytes_ok:
  assumes "Buffer_wf b" and "write_index b + len \<le> vector_max"
  shows "\<exists>b'. ensureWritableBytes len b = Inr b' \<and> Buffer_wf b' \<and>
           Buffer_contents b' = Buffer_contents b \<and> len \<le> writableBytes b' \<and>
           Buffer_used b' \<le> Buffer_used b"
proof (cases "writableBytes b < len")
  case True
  with makeSpace_ok [OF assms(1) True assms(2)] show ?thesis
    by (auto simp: ensureWritableBytes_def)
next
  case False
  with assms show ?thesis by (simp add: ensureWritableBytes_def)
qed

lemma write_back_ok:
  assumes wf: "Buffer_wf b" and room: "length str \<le> writableBytes b"
  shows "\<exists>b'. result_bind (mem_write (buffer_data b) (beginWrite b) str)
             (\<lambda>d. hasWritten (length str) (b\<lparr>buffer_data := d\<rparr>)) = Inr b' \<and> Buffer_wf b' \<and>
           Buffer_contents b' = Buffer_contents b @ str \<and>
           Buffer_used b' \<le> Buffer_used b + length str \<and>
           writableBytes b' = writableBytes b - length str"
proof -
  from Buffer_layoutE [OF wf] obtain pre post
    where lay: "buffer_data b = pre @ Buffer_contents b @ post" "read_index b = length pre"
      "write_index b = length pre + length (Buffer_contents b)" by blast
  note D = Buffer_wfD [OF wf]
  have post: "length str \<le> length post"
    using room writableBytes_wf [OF wf] lay(3) arg_cong [OF lay(1), of length] by simp
  let ?d = "pre @ Buffer_contents b @ str @ drop (length str) post"
  let ?b = "b\<lparr>buffer_data := ?d, write_index := write_index b + length str\<rparr>"
  have len: "length ?d = length (buffer_data b)"
    using post arg_cong [OF lay(1), of length] by simp
  have "mem_write (buffer_data b) (beginWrite b) str = Inr ?d"
    using mem_write_mid [OF post, of "pre @ Buffer_contents b"] lay(1,3)
    by (metis append_assoc beginWrite_def length_append)
  moreover have wf1: "Buffer_wf (b\<lparr>buffer_data := ?d\<rparr>)"
    using D len by (simp add: Buffer_wf_def)
  then have "length str \<le> writableBytes (b\<lparr>buffer_data := ?d\<rparr>)"
    using room writableBytes_wf [OF wf] writableBytes_wf [OF wf1] len by simp
  moreover have "sz_add (write_index b) (length str) = write_index b + length str"
    using room writableBytes_wf [OF wf] D by (intro sz_add_small) (simp add: vector_max_def)
  ultimately have "result_bind (mem_write (buffer_data b) (beginWrite b) str)
      (\<lambda>d. hasWritten (length str) (b\<lparr>buffer_data := d\<rparr>)) = Inr ?b"
    by (simp add: hasWritten_def)
  moreover have wf2: "Buffer_wf ?b"
    using D len room writableBytes_wf [OF wf] by (simp add: Buffer_wf_def)
  moreover have "writableBytes ?b = writableBytes b - length str"
    using writableBytes_wf [OF wf] writableBytes_wf [OF wf2] len by simp
  moreover have "Buffer_contents ?b = Buffer_contents b @ str"
    using lay by (intro Buffer_contentsI [where pre = pre and post = "drop (length str) post"]) simp_all
  ultimately show ?thesis by (simp add: Buffer_used_def)
qed

lemma Buffer_append_ok:
  assumes "Buffer_wf b" and "write_index b + length str \<le> vector_max"
  shows "\<exists>b'. Buffer_append str b = Inr b' \<and> Buffer_wf b' \<and>
           Buffer_contents b' = Buffer_contents b @ str \<and>
           Buffer_used b' \<le> Buffer_used b + length str"
proof -
  from ensureWritableBytes_ok [OF assms] obtain b1
    where b1: "ensureWritableBytes (length str) b = Inr b1" "Buffer_wf b1"
      "Buffer_contents b1 = Buffer_contents b" "length str \<le> writableBytes b1"
      "Buffer_used b1 \<le> Buffer_used b" by blast
  from write_back_ok [OF b1(2,4)] b1 show ?thesis
    unfolding Buffer_append_def by fastforce
qed


lemma Buffer_append_room:
  assumes "Buffer_wf b" and "length str \<le> writableBytes b"
  shows "\<exists>b'. Buffer_append str b = Inr b' \<and> Buffer_wf b' \<and>
           Buffer_contents b' = Buffer_contents b @ str \<and>
           writableBytes b' = writableBytes b - length str"
  using write_back_ok [OF assms] assms(2)
  by (auto simp: Buffer_append_def ensureWritableBytes_def)

lemma Buffer_prepend_ok:
  assumes wf: "Buffer_wf b" and len: "length str \<le> read_index b"
  shows "\<exists>b'. Buffer_prepend str b = Inr b' \<and> Buffer_wf b' \<and>
           Buffer_contents b' = str @ Buffer_contents b \<and> Buffer_used b' = Buffer_used b \<and>
           read_index b' = read_index b - length str"
proof -
  from Buffer_layoutE [OF wf] obtain pre post
    where lay: "buffer_data b = pre @ Buffer_contents b @ post" "read_index b = length pre"
      "write_index b = length pre + length (Buffer_contents b)" by blast
  note D = Buffer_wfD [OF wf]
  define p1 where "p1 = take (length pre - length str) pre"
  define p2 where "p2 = drop (length pre - length str) pre"
  have p: "pre = p1 @ p2" "length p2 = length str" "length p1 = read_index b - length str"
    using len lay(2) by (simp_all add: p1_def p2_def)
  let ?d = "p1 @ str @ Buffer_contents b @ post"
  let ?b = "b\<lparr>buffer_data := ?d, read_index := read_index b - length str\<rparr>"
  have "sz_sub (read_index b) (length str) = read_index b - length str"
    using len D by (intro sz_sub_le) (auto simp: vector_max_def)
  moreover have "mem_write (buffer_data b) (read_index b - length str) str = Inr ?d"
    using mem_write_mid [of str "p2 @ Buffer_contents b @ post" p1] p
    by (subst lay(1)) simp
  ultimately have "Buffer_prepend str b = Inr ?b"
    using len by (simp add: Buffer_prepend_def prependableBytes_def)
  moreover have "Buffer_wf ?b"
    using D p arg_cong [OF lay(1), of length] by (simp add: Buffer_wf_def)
  moreover have "Buffer_contents ?b = str @ Buffer_contents b"
    using p lay(2,3) len
    by (intro Buffer_contentsI [where pre = p1 and post = post]) simp_all
  ultimately show ?thesis by (simp add: Buffer_used_def)
qed

lemma shrink_ok:
  assumes wf: "Buffer_wf b" and len: "length (Buffer_contents b) + reserve + kCheapPrepend \<le> vector_max"
  shows "\<exists>b'. shrink reserve b = Inr b' \<and> Buffer_wf b' \<and> Buffer_contents b' = Buffer_contents b \<and>
           reserve \<le> writableBytes b'"
proof -
  let ?n = "length (Buffer_contents b) + reserve"
  obtain b0 where b0: "Buffer_new kInitialSize = Inr b0" "Buffer_wf b0" "Buffer_contents b0 = []"
    "Buffer_used b0 = kCheapPrepend"
    using Buffer_new_ok [of kInitialSize]
    by (auto simp: kInitialSize_def kCheapPrepend_def vector_max_def)
  have "write_index b0 \<le> kCheapPrepend" using b0(4) by (simp add: Buffer_used_def)
  with len have "write_index b0 + ?n \<le> vector_max" by simp
  from ensureWritableBytes_ok [OF b0(2) this] b0(3) obtain b1
    where b1: "ensureWritableBytes ?n b0 = Inr b1" "Buffer_wf b1" "Buffer_contents b1 = []"
      "?n \<le> writableBytes b1" by auto
  have sz: "sz_add (readableBytes b) reserve = ?n"
    using len by (subst sz_add_small) (simp_all add: length_Buffer_contents [OF wf] vector_max_def)
  from b1(4) have "length (Buffer_contents b) \<le> writableBytes b1" by simp
  from Buffer_append_room [OF b1(2) this] b1(3,4) obtain b2
    where "Buffer_append (Buffer_contents b) b1 = Inr b2" "Buffer_wf b2"
      "Buffer_contents b2 = Buffer_contents b" "reserve \<le> writableBytes b2" by auto
  then show ?thesis
    using b0(1) b1(1) sz
    by (simp add: shrink_def Buffer_toString_ok [OF wf] Buffer_swap_def)
qed

subsection \<open>Searching\<close>

lemma search_CRLF_Some:
  "search_CRLF cs = Some i \<Longrightarrow>
     i + 2 \<le> length cs \<and> take 2 (drop i cs) = kCRLF \<and> (\<forall>j<i. take 2 (drop j cs) \<noteq> kCRLF)"
proof (induction cs arbitrary: i rule: search_CRLF.induct)
  case (1 c d cs)
  show ?case
  proof (cases "[c, d] = kCRLF")
    case True
    with "1.prems" show ?thesis by (simp add: numeral_2_eq_2)
  next
    case False
    with "1.prems" obtain k where k: "search_CRLF (d # cs) = Some k" "i = Suc k" by auto
    from "1.IH" [OF False k(1)] have IH: "k + 2 \<le> length (d # cs)" "take 2 (drop k (d # cs)) = kCRLF"
      "\<forall>j<k. take 2 (drop j (d # cs)) \<noteq> kCRLF" by auto
    have "take 2 (drop j (c # d # cs)) \<noteq> kCRLF" if "j < i" for j
      using that IH(3) False k(2) by (cases j) (simp_all add: numeral_2_eq_2)
    with IH(1,2) k(2) show ?thesis by simp
  qed
qed simp_all

lemma search_CRLF_None: "search_CRLF cs = None \<Longrightarrow> take 2 (drop i cs) \<noteq> kCRLF"
proof (induction cs arbitrary: i rule: search_CRLF.induct)
  case (1 c d cs)
  then have nc: "[c, d] \<noteq> kCRLF" and "search_CRLF (d # cs) = None" by (auto split: if_splits)
  with "1.IH" have "take 2 (drop j (d # cs)) \<noteq> kCRLF" for j by simp
  with nc show ?case by (cases i) (simp_all add: numeral_2_eq_2)
qed (simp_all add: kCRLF_def drop_Cons')

lemma search_CRLF_append:
  assumes "CHR 0x0D \<notin> set line"
  shows "search_CRLF (line @ kCRLF @ rest) = Some (length line)"
  using assms
proof (induction line)
  case Nil
  then show ?case by (simp add: kCRLF_def)
next
  case (Cons c line)
  then obtain d ds where "line @ kCRLF @ rest = d # ds"
    by (cases line) (simp_all add: kCRLF_def)
  with Cons show ?case by (auto simp: kCRLF_def)
qed

lemma findCRLF_ok:
  assumes "Buffer_wf b"
  shows "findCRLF b = Inr (map_option (\<lambda>i. peek b + i) (search_CRLF (Buffer_contents b)))"
  using Buffer_range_all [OF assms] by (simp add: findCRLF_def peek_def beginWrite_def)

lemma findEOL_ok:
  assumes "Buffer_wf b"
  shows "findEOL b = Inr (map_option (\<lambda>i. peek b + i) (search_EOL (Buffer_contents b)))"
  using Buffer_toString_ok [OF assms] by (simp add: findEOL_def Buffer_toString_def)


subsection \<open>Integers in network byte order\<close>

lemma appendInt_be:
  shows "appendInt64 e x64 b = Buffer_append (be_bytes 8 (unat x64)) b"
    and "appendInt32 e x32 b = Buffer_append (be_bytes 4 (unat x32)) b"
    and "appendInt16 e x16 b = Buffer_append (be_bytes 2 (unat x16)) b"
    and "appendInt8 e x8 b = Buffer_append (be_bytes 1 (unat x8)) b"
  by (simp_all add: appendInt64_def appendInt32_def appendInt16_def appendInt8_def
      unat_hostToNetwork mem_store_to_be)
    (cases e; simp add: mem_store_def be_bytes_def)

lemma prependInt_be:
  shows "prependInt64 e x64 b = Buffer_prepend (be_bytes 8 (unat x64)) b"
    and "prependInt32 e x32 b = Buffer_prepend (be_bytes 4 (unat x32)) b"
    and "prependInt16 e x16 b = Buffer_prepend (be_bytes 2 (unat x16)) b"
    and "prependInt8 e x8 b = Buffer_prepend (be_bytes 1 (unat x8)) b"
  by (simp_all add: prependInt64_def prependInt32_def prependInt16_def prependInt8_def
      unat_hostToNetwork mem_store_to_be)
    (cases e; simp add: mem_store_def be_bytes_def)

lemma network_load:
  shows "length cs = 8 \<Longrightarrow> networkToHost64 e (of_nat (mem_load e cs)) = of_nat (be_value cs)"
    and "length cs = 4 \<Longrightarrow> hostToNetwork32 e (of_nat (mem_load e cs)) = of_nat (be_value cs)"
  using mem_load_bound [of e cs] to_be_mem_load [of e cs]
  by (simp_all add: networkToHost64_def hostToNetwork32_def unat_of_nat)

lemma be_value_be_bytes_word:
  shows "(of_nat (be_value (be_bytes 8 (unat x64))) :: 64 word) = x64"
    and "(of_nat (be_value (be_bytes 4 (unat x32))) :: 32 word) = x32"
    and "(of_nat (be_value (be_bytes 2 (unat x16))) :: 16 word) = x16"
    and "(of_nat (be_value (be_bytes 1 (unat x8))) :: 8 word) = x8"
  using unat_word64_byte_bound [of x64] unat_word32_byte_bound [of x32]
    unat_word16_byte_bound [of x16] unat_word8_byte_bound [of x8]
  by (simp_all add: be_value_be_bytes)

lemma peekInt64_ok:
  assumes "Buffer_wf b" and "8 \<le> length (Buffer_contents b)"
  shows "peekInt64 e b = Inr (of_nat (be_value (take 8 (Buffer_contents b))))"
  using assms Buffer_range_contents [OF assms]
  by (simp add: peekInt64_def length_Buffer_contents network_load)

lemma peekInt32_ok:
  assumes "Buffer_wf b" and "4 \<le> length (Buffer_contents b)"
  shows "peekInt32 e b = Inr (of_nat (be_value (take 4 (Buffer_contents b))))"
  using assms Buffer_range_contents [OF assms]
  by (simp add: peekInt32_def length_Buffer_contents network_load)

lemma mem_load_single: "mem_load e [c] = of_char c"
  by (cases e) (simp_all add: mem_load_def be_value_def)

lemma peekInt8_ok:
  assumes "Buffer_wf b" and "1 \<le> length (Buffer_contents b)"
  shows "peekInt8 e b = Inr (of_nat (be_value (take 1 (Buffer_contents b))))"
proof -
  from assms(2) obtain c cs where "Buffer_contents b = c # cs"
    by (cases "Buffer_contents b") auto
  moreover have "1 \<le> readableBytes b"
    using assms by (simp add: length_Buffer_contents)
  ultimately show ?thesis
    using Buffer_range_contents [OF assms] by (simp add: peekInt8_def mem_load_single be_value_def)
qed

lemma le_value_append: "le_value (xs @ ys) = le_value xs + 256 ^ length xs * le_value ys"
  by (induction xs) (simp_all add: algebra_simps)

lemma le_value_low2:
  assumes "length cs = 4"
  shows "(ucast (of_nat (le_value cs) :: 32 word) :: 16 word) = of_nat (le_value (take 2 cs))"
proof -
  have "le_value cs mod 2 ^ 16 = le_value (take 2 cs)"
    using le_value_append [of "take 2 cs" "drop 2 cs"] le_value_bound [of "take 2 cs"] assms
    by simp
  then have "take_bit 16 (le_value cs) = take_bit 16 (le_value (take 2 cs))"
    using le_value_bound [of "take 2 cs"] assms by (simp add: take_bit_eq_mod)
  then show ?thesis
    by (simp add: unsigned_of_nat word_of_nat_eq_iff)
qed


lemma Buffer_append_prefix:
  "Buffer_append str b = Inr b' \<Longrightarrow> kCheapPrepend \<le> read_index b \<Longrightarrow> kCheapPrepend \<le> read_index b'"
  by (auto simp: Buffer_append_def ensureWritableBytes_def makeSpace_def hasWritten_def Let_def result_eqs
      split: if_splits)

text \<open>The reads, on a buffer whose contents start with the big-endian image of a value.\<close>

lemma readInt64_ok:
  assumes "Buffer_wf b" and "Buffer_contents b = be_bytes 8 (unat x) @ rest"
  shows "\<exists>b'. readInt64 e b = Inr (x, b') \<and> Buffer_wf b' \<and> Buffer_contents b' = rest"
  using retrieve_ok [of b 8] peekInt64_ok [of b e] assms
  by (auto simp: readInt64_def retrieveInt64_def be_value_be_bytes_word)

lemma readInt32_ok:
  assumes "Buffer_wf b" and "Buffer_contents b = be_bytes 4 (unat x) @ rest"
  shows "\<exists>b'. readInt32 e b = Inr (x, b') \<and> Buffer_wf b' \<and> Buffer_contents b' = rest"
  using retrieve_ok [of b 4] peekInt32_ok [of b e] assms
  by (auto simp: readInt32_def retrieveInt32_def be_value_be_bytes_word)

lemma readInt8_ok:
  assumes "Buffer_wf b" and "Buffer_contents b = be_bytes 1 (unat x) @ rest"
  shows "\<exists>b'. readInt8 e b = Inr (x, b') \<and> Buffer_wf b' \<and> Buffer_contents b' = rest"
  using retrieve_ok [of b 1] peekInt8_ok [of b e] assms be_value_be_bytes_word(4) [of x]
  by (auto simp: readInt8_def retrieveInt8_def)

subsection \<open>Reading from a descriptor\<close>

lemma readFd_error: "readFd b (Inl e) = Inr (b, Inl e)"
  by (simp add: readFd_def)

lemma readFd_step:
  assumes "Buffer_wf b" and "length bytes \<le> readFd_capacity b"
  shows "readFd b (Inr bytes) =
    Inr (b\<lparr>buffer_data := take (write_index b) (buffer_data b) @ take (writableBytes b) bytes @
             drop (write_index b + min (writableBytes b) (length bytes)) (buffer_data b),
           write_index := write_index b + length bytes\<rparr>, Inr (length bytes))"
proof -
  note D = Buffer_wfD [OF assms(1)]
  have "sz_add (write_index b) (length bytes) = write_index b + length bytes"
    using assms(2) D
    by (intro sz_add_small)
      (auto simp: readFd_capacity_def extraBuf_size_def Let_def writableBytes_wf [OF assms(1)]
        vector_max_def split: if_splits)
  moreover have "write_index b + min (length bytes) (length (buffer_data b) - write_index b)
      \<le> length (buffer_data b)"
    using D by linarith
  ultimately show ?thesis
    by (simp add: readFd_def Let_def mem_write_def writableBytes_wf [OF assms(1)] min.commute)
qed

lemma readFd_fits:
  assumes wf: "Buffer_wf b" and len: "length bytes \<le> writableBytes b"
  shows "\<exists>b'. readFd b (Inr bytes) = Inr (b', Inr (length bytes)) \<and> Buffer_wf b' \<and>
           Buffer_contents b' = Buffer_contents b @ bytes \<and>
           Buffer_used b' \<le> Buffer_used b + length bytes"
proof -
  note D = Buffer_wfD [OF wf]
  let ?d = "take (write_index b) (buffer_data b) @ bytes @
    drop (write_index b + length bytes) (buffer_data b)"
  let ?b = "b\<lparr>buffer_data := ?d, write_index := write_index b + length bytes\<rparr>"
  have "length bytes \<le> readFd_capacity b"
    using len by (simp add: readFd_capacity_def Let_def)
  from readFd_step [OF wf this] len have "readFd b (Inr bytes) = Inr (?b, Inr (length bytes))"
    by (simp add: min_absorb2)
  moreover have "Buffer_wf ?b"
    using D len writableBytes_wf [OF wf] by (simp add: Buffer_wf_def)
  moreover have "Buffer_contents ?b = Buffer_contents b @ bytes"
  proof (rule Buffer_contentsI)
    show "buffer_data ?b = take (read_index b) (buffer_data b) @ (Buffer_contents b @ bytes) @
        drop (write_index b + length bytes) (buffer_data b)"
      using D Buffer_wf_split [OF wf]
      by (simp add: Buffer_contents_def) (metis append_assoc append_take_drop_id le_add_diff_inverse take_add)
    show "read_index ?b = length (take (read_index b) (buffer_data b))"
      using D by simp
    show "write_index ?b = length (take (read_index b) (buffer_data b)) + length (Buffer_contents b @ bytes)"
      using D length_Buffer_contents [OF wf] readableBytes_wf [OF wf] by simp
  qed
  ultimately show ?thesis by (simp add: Buffer_used_def)
qed

text \<open>When the kernel delivers more than the vector's free space, the write index passes the end
  of the vector; the bytes in \<open>extraBuf\<close> are stored nowhere.\<close>

lemma readFd_overflow:
  assumes wf: "Buffer_wf b" and big: "writableBytes b < length bytes"
    and cap: "length bytes \<le> readFd_capacity b"
  shows "\<exists>b'. readFd b (Inr bytes) = Inr (b', Inr (length bytes)) \<and>
           buffer_data b' = take (write_index b) (buffer_data b) @ take (writableBytes b) bytes \<and>
           length (buffer_data b') = length (buffer_data b) \<and>
           write_index b' = length (buffer_data b') + (length bytes - writableBytes b) \<and>
           Buffer_toString b' = Inl OutOfBounds \<and>
           writableBytes b' = 2 ^ 64 - (length bytes - writableBytes b)"
proof -
  note D = Buffer_wfD [OF wf]
  have w: "writableBytes b = length (buffer_data b) - write_index b"
    by (rule writableBytes_wf [OF wf])
  let ?b = "b\<lparr>buffer_data := take (write_index b) (buffer_data b) @ take (writableBytes b) bytes,
      write_index := write_index b + length bytes\<rparr>"
  have r: "readFd b (Inr bytes) = Inr (?b, Inr (length bytes))"
    using readFd_step [OF wf cap] big D w by (simp add: min_absorb1)
  have len: "length (buffer_data ?b) = length (buffer_data b)"
    using big D w by (simp add: min_absorb1 min_absorb2)
  have wi: "write_index ?b = length (buffer_data ?b) + (length bytes - writableBytes b)"
    unfolding len using big D w by simp
  have small: "write_index b + length bytes < 2 ^ 64"
    using cap D w by (auto simp: readFd_capacity_def extraBuf_size_def Let_def vector_max_def split: if_splits)
  have "readableBytes ?b = write_index b + length bytes - read_index b"
    using small D by (simp add: readableBytes_def)
  then have "Buffer_toString ?b = Inl OutOfBounds"
    using wi big len D by (simp add: Buffer_toString_def Buffer_range_def mem_read_def peek_def)
  moreover have "writableBytes ?b = 2 ^ 64 - (length bytes - writableBytes b)"
    using wi big small sz_sub_wrap [of "length (buffer_data ?b)" "write_index ?b"]
    unfolding writableBytes_def by simp
  ultimately show ?thesis using r len wi by auto
qed


subsection \<open>The contract: a FIFO of bytes\<close>

text \<open>What the clients of the buffer rely on: \<open>put\<close> adds at the back, \<open>get\<close> takes from the
  front, both return while the capacity is respected.\<close>

datatype fifo_op = Put "char list" | Get nat

fun fifo_run ::
  "(char list \<Rightarrow> 'b \<Rightarrow> 'b result) \<Rightarrow> (nat \<Rightarrow> 'b \<Rightarrow> (char list \<times> 'b) result) \<Rightarrow>
   fifo_op list \<Rightarrow> 'b \<Rightarrow> (char list \<times> 'b) result" where
  "fifo_run put get [] b = Inr ([], b)"
| "fifo_run put get (Put d # ops) b = result_bind (put d b) (fifo_run put get ops)"
| "fifo_run put get (Get n # ops) b =
     result_bind (get n b) (\<lambda>(out, b1).
       result_bind (fifo_run put get ops b1) (\<lambda>(out', b2). Inr (out @ out', b2)))"

text \<open>The bytes a script puts, and that it never gets more than there is (starting with \<open>k\<close>
  bytes).\<close>

fun fifo_puts :: "fifo_op list \<Rightarrow> char list" where
  "fifo_puts [] = []"
| "fifo_puts (Put d # ops) = d @ fifo_puts ops"
| "fifo_puts (Get n # ops) = fifo_puts ops"

fun fifo_within :: "nat \<Rightarrow> fifo_op list \<Rightarrow> bool" where
  "fifo_within k [] = True"
| "fifo_within k (Put d # ops) = fifo_within (k + length d) ops"
| "fifo_within k (Get n # ops) = (n \<le> k \<and> fifo_within (k - n) ops)"

locale byte_fifo =
  fixes wf :: "'b \<Rightarrow> bool"
    and contents :: "'b \<Rightarrow> char list"
    and used :: "'b \<Rightarrow> nat"
    and capacity :: nat
    and put :: "char list \<Rightarrow> 'b \<Rightarrow> 'b result"
    and get :: "nat \<Rightarrow> 'b \<Rightarrow> (char list \<times> 'b) result"
  assumes put_law: "wf b \<Longrightarrow> used b + length d \<le> capacity \<Longrightarrow>
      \<exists>b'. put d b = Inr b' \<and> wf b' \<and> contents b' = contents b @ d \<and> used b' \<le> used b + length d"
    and get_law: "wf b \<Longrightarrow> n \<le> length (contents b) \<Longrightarrow>
      \<exists>b'. get n b = Inr (take n (contents b), b') \<and> wf b' \<and> contents b' = drop n (contents b) \<and>
        used b' \<le> used b"
begin

lemma run_fifo:
  assumes "wf b" and "fifo_within (length (contents b)) ops"
    and "used b + length (fifo_puts ops) \<le> capacity"
  shows "\<exists>out b'. fifo_run put get ops b = Inr (out, b') \<and> wf b' \<and>
           out @ contents b' = contents b @ fifo_puts ops"
  using assms
proof (induction ops arbitrary: b)
  case Nil
  then show ?case by simp
next
  case (Cons opr ops)
  show ?case
  proof (cases opr)
    case (Put d)
    from Cons.prems Put put_law [of b d] obtain b1
      where b1: "put d b = Inr b1" "wf b1" "contents b1 = contents b @ d"
        "used b1 \<le> used b + length d" by auto
    with Cons.prems Put have "fifo_within (length (contents b1)) ops"
      and "used b1 + length (fifo_puts ops) \<le> capacity" by simp_all
    from Cons.IH [OF b1(2) this] b1 Put show ?thesis by auto
  next
    case (Get n)
    from Cons.prems Get get_law [of b n] obtain b1
      where b1: "get n b = Inr (take n (contents b), b1)" "wf b1" "contents b1 = drop n (contents b)"
        "used b1 \<le> used b" by auto
    with Cons.prems Get have "fifo_within (length (contents b1)) ops"
      and "used b1 + length (fifo_puts ops) \<le> capacity" by simp_all
    from Cons.IH [OF b1(2) this] obtain out b2 where "fifo_run put get ops b1 = Inr (out, b2)"
      "wf b2" "out @ contents b2 = contents b1 @ fifo_puts ops" by blast
    with b1 Get show ?thesis
      by simp
  qed
qed

end

interpretation buf: byte_fifo Buffer_wf Buffer_contents Buffer_used vector_max Buffer_append retrieveAsString
proof
  fix b and d :: "char list"
  assume "Buffer_wf b" and "Buffer_used b + length d \<le> vector_max"
  then show "\<exists>b'. Buffer_append d b = Inr b' \<and> Buffer_wf b' \<and>
      Buffer_contents b' = Buffer_contents b @ d \<and> Buffer_used b' \<le> Buffer_used b + length d"
    by (intro Buffer_append_ok) (simp_all add: Buffer_used_def)
next
  fix b n
  assume "Buffer_wf b" and "n \<le> length (Buffer_contents b)"
  then show "\<exists>b'. retrieveAsString n b = Inr (take n (Buffer_contents b), b') \<and> Buffer_wf b' \<and>
      Buffer_contents b' = drop n (Buffer_contents b) \<and> Buffer_used b' \<le> Buffer_used b"
    by (rule retrieveAsString_ok)
qed

subsection \<open>Properties\<close>

text \<open>A small buffer for the witnesses: four readable bytes, four free ones.\<close>

definition sample_buffer :: Buffer where
  "sample_buffer =
     \<lparr>buffer_data = replicate 8 (CHR 0x00) @ ''abcd'' @ replicate 4 (CHR 0x00),
      read_index = 8, write_index = 12\<rparr>"

lemma sample_buffer_facts:
  shows "Buffer_wf sample_buffer" and "Buffer_contents sample_buffer = ''abcd''"
    and "writableBytes sample_buffer = 4" and "Buffer_used sample_buffer = 12"
    and "write_index sample_buffer = 12" and "read_index sample_buffer = 8"
    and "length (buffer_data sample_buffer) = 16"
  by (simp_all add: sample_buffer_def Buffer_wf_def Buffer_contents_def writableBytes_def
      Buffer_used_def kCheapPrepend_def vector_max_def)

text \<open>C2. The buffer is a FIFO of bytes: any script of appends and \<open>retrieveAsString\<close>s that
  respects the vector's maximal size and never takes more than is readable runs without a failed
  assert or an access out of range, and the bytes taken followed by the bytes left are the bytes
  that were there followed by the bytes appended.\<close>

theorem Buffer_is_fifo:
  assumes "Buffer_wf b" and "fifo_within (length (Buffer_contents b)) ops"
    and "Buffer_used b + length (fifo_puts ops) \<le> vector_max"
  shows "\<exists>out b'. fifo_run Buffer_append retrieveAsString ops b = Inr (out, b') \<and> Buffer_wf b' \<and>
           out @ Buffer_contents b' = Buffer_contents b @ fifo_puts ops"
  using assms by (rule buf.run_fifo)

theorem Buffer_is_fifo_witness:
  "\<exists>out b'. fifo_run Buffer_append retrieveAsString [Put ''efgh'', Get 3, Put ''ijkl'', Get 9]
      sample_buffer = Inr (out, b') \<and> Buffer_wf b' \<and> out @ Buffer_contents b' = ''abcdefghijkl''"
  using Buffer_is_fifo [of sample_buffer "[Put ''efgh'', Get 3, Put ''ijkl'', Get 9]"]
  by (simp add: sample_buffer_facts vector_max_def)

text \<open>Framing with the reserved prefix: on a fresh buffer, appending a message and prepending
  its length with \<open>prependInt32\<close> uses the eight reserved bytes, and the receiver's \<open>readInt32\<close>
  returns that length and leaves exactly the message, on hosts of both byte orders.\<close>

theorem frame_roundtrip:
  assumes "kCheapPrepend + n \<le> vector_max" and "kCheapPrepend + length msg \<le> vector_max"
  shows "\<exists>b0 b1 b2 b3. Buffer_new n = Inr b0 \<and> Buffer_append msg b0 = Inr b1 \<and>
           prependInt32 e x b1 = Inr b2 \<and> readInt32 e b2 = Inr (x, b3) \<and>
           Buffer_wf b3 \<and> Buffer_contents b3 = msg"
proof -
  obtain b0 where b0: "Buffer_new n = Inr b0" "Buffer_wf b0" "Buffer_contents b0 = []"
    "read_index b0 = kCheapPrepend" "Buffer_used b0 = kCheapPrepend"
    using Buffer_new_ok [OF assms(1)] by blast
  obtain b1 where b1: "Buffer_append msg b0 = Inr b1" "Buffer_wf b1" "Buffer_contents b1 = msg"
    using buf.put_law [OF b0(2), of msg] b0(3,5) assms(2) by auto
  have "length (be_bytes 4 (unat x)) \<le> read_index b1"
    using Buffer_append_prefix [OF b1(1)] b0(4) by (simp add: kCheapPrepend_def)
  from Buffer_prepend_ok [OF b1(2) this] b1(3) obtain b2
    where b2: "prependInt32 e x b1 = Inr b2" "Buffer_wf b2"
      "Buffer_contents b2 = be_bytes 4 (unat x) @ msg"
    by (auto simp: prependInt_be)
  from readInt32_ok [OF b2(2,3)] b0(1) b1(1) b2(1) show ?thesis by blast
qed

theorem frame_roundtrip_witness:
  "\<exists>b0 b1 b2 b3. Buffer_new 16 = Inr b0 \<and> Buffer_append ''hello'' b0 = Inr b1 \<and>
     prependInt32 LittleEndian 5 b1 = Inr b2 \<and> readInt32 LittleEndian b2 = Inr (5, b3) \<and>
     Buffer_wf b3 \<and> Buffer_contents b3 = ''hello''"
  using frame_roundtrip [of 16 "''hello''" LittleEndian 5] by (simp add: kCheapPrepend_def vector_max_def)

text \<open>Integers round-trip in network byte order: after \<open>appendInt64\<close>, \<open>appendInt32\<close> and
  \<open>appendInt8\<close> on an empty buffer the contents are the big-endian images, and the reads return
  the three values in order and leave the buffer empty, on hosts of both byte orders.\<close>

theorem appendInt_readInt:
  assumes "Buffer_wf b" and "Buffer_contents b = []" and "Buffer_used b + 13 \<le> vector_max"
  shows "\<exists>b1 b2 b3 b4 b5 b6.
           appendInt64 e x b = Inr b1 \<and> appendInt32 e y b1 = Inr b2 \<and> appendInt8 e z b2 = Inr b3 \<and>
           Buffer_contents b3 = be_bytes 8 (unat x) @ be_bytes 4 (unat y) @ be_bytes 1 (unat z) \<and>
           readInt64 e b3 = Inr (x, b4) \<and> readInt32 e b4 = Inr (y, b5) \<and>
           readInt8 e b5 = Inr (z, b6) \<and> Buffer_contents b6 = []"
proof -
  obtain b1 where b1: "appendInt64 e x b = Inr b1" "Buffer_wf b1"
    "Buffer_contents b1 = be_bytes 8 (unat x)" "Buffer_used b1 \<le> Buffer_used b + 8"
    using buf.put_law [OF assms(1), of "be_bytes 8 (unat x)"] assms(2,3) by (auto simp: appendInt_be)
  obtain b2 where b2: "appendInt32 e y b1 = Inr b2" "Buffer_wf b2"
    "Buffer_contents b2 = be_bytes 8 (unat x) @ be_bytes 4 (unat y)" "Buffer_used b2 \<le> Buffer_used b + 12"
    using buf.put_law [OF b1(2), of "be_bytes 4 (unat y)"] assms(3) b1(3,4)
    by (fastforce simp: appendInt_be)
  obtain b3 where b3: "appendInt8 e z b2 = Inr b3" "Buffer_wf b3"
    "Buffer_contents b3 = be_bytes 8 (unat x) @ be_bytes 4 (unat y) @ be_bytes 1 (unat z) @ []"
    using buf.put_law [OF b2(2), of "be_bytes 1 (unat z)"] assms(3) b2(3,4)
    by (fastforce simp: appendInt_be)
  obtain b4 where b4: "readInt64 e b3 = Inr (x, b4)" "Buffer_wf b4"
    "Buffer_contents b4 = be_bytes 4 (unat y) @ be_bytes 1 (unat z) @ []"
    using readInt64_ok [OF b3(2,3)] by blast
  obtain b5 where b5: "readInt32 e b4 = Inr (y, b5)" "Buffer_wf b5"
    "Buffer_contents b5 = be_bytes 1 (unat z) @ []"
    using readInt32_ok [OF b4(2,3)] by blast
  obtain b6 where "readInt8 e b5 = Inr (z, b6)" "Buffer_contents b6 = []"
    using readInt8_ok [OF b5(2,3)] by blast
  with b1(1) b2(1) b3(1,3) b4(1) b5(1) show ?thesis by (metis append_Nil2)
qed

theorem appendInt_readInt_witness:
  "\<exists>b1 b2 b3 b4 b5 b6.
     appendInt64 LittleEndian 1 (retrieveAll sample_buffer) = Inr b1 \<and>
     appendInt32 LittleEndian 2 b1 = Inr b2 \<and> appendInt8 LittleEndian 3 b2 = Inr b3 \<and>
     Buffer_contents b3 = be_bytes 8 (unat (1 :: 64 word)) @ be_bytes 4 (unat (2 :: 32 word)) @
       be_bytes 1 (unat (3 :: 8 word)) \<and>
     readInt64 LittleEndian b3 = Inr (1, b4) \<and> readInt32 LittleEndian b4 = Inr (2, b5) \<and>
     readInt8 LittleEndian b5 = Inr (3, b6) \<and> Buffer_contents b6 = []"
proof (rule appendInt_readInt)
  show "Buffer_wf (retrieveAll sample_buffer)" and "Buffer_contents (retrieveAll sample_buffer) = []"
    by (simp_all add: retrieveAll_ok sample_buffer_facts)
  show "Buffer_used (retrieveAll sample_buffer) + 13 \<le> vector_max"
    by (simp add: retrieveAll_def Buffer_used_def vector_max_def kCheapPrepend_def)
qed



text \<open>\<open>readFd\<close> on its good path: when the kernel delivers no more than the free space of the
  vector, the bytes are appended to the contents and the buffer stays well-formed; a failed
  \<open>readv\<close> changes nothing and returns its errno.\<close>

theorem readFd_appends:
  assumes "Buffer_wf b" and "length bytes \<le> writableBytes b"
  shows "(\<exists>b'. readFd b (Inr bytes) = Inr (b', Inr (length bytes)) \<and> Buffer_wf b' \<and>
            Buffer_contents b' = Buffer_contents b @ bytes) \<and>
         readFd b (Inl err) = Inr (b, Inl err)"
  using readFd_fits [OF assms] readFd_error by auto

theorem readFd_appends_witness:
  "(\<exists>b'. readFd sample_buffer (Inr ''xyz'') = Inr (b', Inr 3) \<and> Buffer_wf b' \<and>
      Buffer_contents b' = ''abcdxyz'') \<and> readFd sample_buffer (Inl 11) = Inr (sample_buffer, Inl 11)"
  using readFd_appends [of sample_buffer "''xyz''" 11] by (simp add: sample_buffer_facts eval_nat_numeral)

text \<open>C33. \<open>readFd\<close> when the kernel delivers more than the free space (which the second \<open>iovec\<close>
  allows, up to 64 KiB): the guard compares \<open>writable\<close> with itself, so the branch that would append
  \<open>extraBuf\<close> never runs. The call reports all \<open>n\<close> bytes as read, but those beyond the free space
  are lost, the write index lies past the end of the vector, reading the contents is out of bounds
  and \<open>writableBytes\<close> has wrapped around.\<close>

theorem readFd_loses_extra:
  assumes "Buffer_wf b" and "writableBytes b < length bytes" and "length bytes \<le> readFd_capacity b"
  shows "\<exists>b'. readFd b (Inr bytes) = Inr (b', Inr (length bytes)) \<and>
           buffer_data b' = take (write_index b) (buffer_data b) @ take (writableBytes b) bytes \<and>
           length (buffer_data b') = length (buffer_data b) \<and>
           write_index b' = length (buffer_data b') + (length bytes - writableBytes b) \<and>
           Buffer_toString b' = Inl OutOfBounds \<and>
           writableBytes b' = 2 ^ 64 - (length bytes - writableBytes b)"
  using assms by (rule readFd_overflow)

theorem readFd_loses_extra_witness:
  "\<exists>b'. readFd sample_buffer (Inr ''uvwxyz'') = Inr (b', Inr 6) \<and>
     write_index b' = length (buffer_data b') + 2 \<and> Buffer_toString b' = Inl OutOfBounds \<and>
     writableBytes b' = 2 ^ 64 - 2"
  using readFd_loses_extra [of sample_buffer "''uvwxyz''"]
  by (auto simp: sample_buffer_facts readFd_capacity_def extraBuf_size_def)

text \<open>\<open>shrink\<close> keeps the contents and leaves at least the requested reserve writable.\<close>

theorem shrink_keeps_contents:
  assumes "Buffer_wf b" and "length (Buffer_contents b) + reserve + kCheapPrepend \<le> vector_max"
  shows "\<exists>b'. shrink reserve b = Inr b' \<and> Buffer_wf b' \<and> Buffer_contents b' = Buffer_contents b \<and>
           reserve \<le> writableBytes b'"
  using assms by (rule shrink_ok)

theorem shrink_keeps_contents_witness:
  "\<exists>b'. shrink 2000 sample_buffer = Inr b' \<and> Buffer_wf b' \<and> Buffer_contents b' = ''abcd'' \<and>
     2000 \<le> writableBytes b'"
  using shrink_keeps_contents [of sample_buffer 2000]
  by (simp add: sample_buffer_facts kCheapPrepend_def vector_max_def)

end
