(* ===== verification/TimeStamp.thy ===== *)
theory TimeStamp
  imports Prelude
begin

text \<open>
  The time library: include/libfm/fmutil/TimeStamp.h, include/libfm/fmutil/SystemClock.h and
  util/TimeStamp.cpp.

  A \<open>TimeStamp\<close> wraps a \<open>std::chrono::microseconds\<close> count since the epoch; it and a duration are
  \<open>int\<close> here (the count of microseconds). \<open>duration_cast\<close> to seconds and the operator \<open>%\<close>
  truncate towards zero, so they are \<open>sdiv\<close> and \<open>smod\<close>. The calendar formatting of \<open>localtime_r\<close>
  and \<open>strftime\<close>, which depends on the host's time zone, is the parameter \<open>strf\<close> of the printing
  functions. The clock itself is never read: an operation that calls \<open>SystemClock::now()\<close> takes
  the reading as an argument.
\<close>

type_synonym TimeStamp = int
type_synonym duration = int

record timeval =
  tv_sec :: int
  tv_usec :: int

record timespec =
  ts_sec :: int
  ts_nsec :: int

definition kSecondToMicroseconds :: int where "kSecondToMicroseconds = 1000 * 1000"

definition TimeStamp_isZero :: "TimeStamp \<Rightarrow> bool" where "TimeStamp_isZero t \<longleftrightarrow> t = 0"
definition TimeStamp_plus :: "TimeStamp \<Rightarrow> duration \<Rightarrow> TimeStamp" where "TimeStamp_plus t d = t + d"
definition TimeStamp_minus :: "TimeStamp \<Rightarrow> duration \<Rightarrow> TimeStamp" where "TimeStamp_minus t d = t - d"
definition TimeStamp_diff :: "TimeStamp \<Rightarrow> TimeStamp \<Rightarrow> duration" where "TimeStamp_diff s t = s - t"
definition TimeStamp_less :: "TimeStamp \<Rightarrow> TimeStamp \<Rightarrow> bool" where "TimeStamp_less s t \<longleftrightarrow> s < t"

lemmas TimeStamp_ops = TimeStamp_isZero_def TimeStamp_plus_def TimeStamp_minus_def TimeStamp_diff_def
  TimeStamp_less_def

definition SystemClock_zero :: TimeStamp where "SystemClock_zero = 0"

definition to_time_t :: "TimeStamp \<Rightarrow> int" where
  "to_time_t time = time sdiv 1000000"

definition from_time_t :: "int \<Rightarrow> TimeStamp" where
  "from_time_t t = t * 1000000"

definition to_timeval :: "TimeStamp \<Rightarrow> timeval" where
  "to_timeval time = \<lparr>tv_sec = time sdiv 1000000, tv_usec = time smod kSecondToMicroseconds\<rparr>"

definition from_timeval :: "timeval \<Rightarrow> TimeStamp" where
  "from_timeval tv = tv_sec tv * kSecondToMicroseconds + tv_usec tv"

definition to_timespec :: "TimeStamp \<Rightarrow> timespec" where
  "to_timespec time =
     \<lparr>ts_sec = time sdiv 1000000, ts_nsec = time smod kSecondToMicroseconds * 1000\<rparr>"

definition from_timespec :: "timespec \<Rightarrow> TimeStamp" where
  "from_timespec ts = ts_sec ts * kSecondToMicroseconds + ts_nsec ts sdiv 1000"

text \<open>\<open>toFormattedString(fmt)\<close>: \<open>strf fmt sec\<close> is what \<open>localtime_r\<close> and \<open>strftime\<close> make of it, cut to
  the 64-byte buffer.\<close>

definition toFormattedString :: "(string \<Rightarrow> int \<Rightarrow> string) \<Rightarrow> string \<Rightarrow> TimeStamp \<Rightarrow> string" where
  "toFormattedString strf fmt time = take 63 (strf fmt (time sdiv 1000000))"

text \<open>The microsecond part of \<open>toString(true)\<close>: the count is cast to \<open>uint32_t\<close> before the
  remainder is taken.\<close>

definition toString_rest :: "TimeStamp \<Rightarrow> nat" where
  "toString_rest time = nat ((time mod 2 ^ 32) mod 1000000)"

definition TimeStamp_toString :: "(string \<Rightarrow> int \<Rightarrow> string) \<Rightarrow> bool \<Rightarrow> TimeStamp \<Rightarrow> string" where
  "TimeStamp_toString strf microsecond time =
     (if microsecond
      then toFormattedString strf ''%F %T'' time @ snprintf 12 (CHR ''.'' # show_padded 6 (toString_rest time))
      else toFormattedString strf ''%F %T'' time)"

subsection \<open>Truncating division\<close>

lemma sdiv_smod_million: "(t sdiv 1000000) * 1000000 + t smod 1000000 = t" for t :: int
  by (rule sdiv_mult_smod_eq)

lemma smod_million_bounds:
  fixes t :: int
  shows "\<bar>t smod 1000000\<bar> < 1000000" and "0 \<le> t \<Longrightarrow> 0 \<le> t smod 1000000"
    and "t \<le> 0 \<Longrightarrow> t smod 1000000 \<le> 0"
  by (auto simp: smod_int_alt_def sgn_if abs_if)

lemma sdiv_million_sign:
  fixes t :: int
  shows "0 \<le> t \<Longrightarrow> 0 \<le> t sdiv 1000000" and "t \<le> 0 \<Longrightarrow> t sdiv 1000000 \<le> 0"
  by (auto simp: signed_divide_int_def sgn_if)

lemma mult_sdiv_thousand: "(k * 1000) sdiv 1000 = k" for k :: int
  by (simp add: signed_divide_int_def sgn_mult abs_mult mult.commute abs_mult_sgn)

lemma mod_shift_iff: "r mod m = (x + r) mod m \<longleftrightarrow> x mod m = 0" for r m x :: int
  by (simp add: mod_eq_dvd_iff mod_eq_0_iff_dvd)

lemma million_dvd_word: "(q * 4294967296) mod 1000000 = 0 \<longleftrightarrow> 15625 dvd q" for q :: int
proof -
  have "coprime ((5::int) ^ 6) (2 ^ 26)"
    by (simp only: coprime_power_left_iff coprime_power_right_iff) simp
  then have "coprime (15625::int) 67108864" by simp
  then have "15625 dvd q * 67108864 \<longleftrightarrow> 15625 dvd q"
    by (rule coprime_dvd_mult_left_iff)
  moreover have "1000000 dvd q * 4294967296 \<longleftrightarrow> 64 * 15625 dvd 64 * (q * 67108864)"
    by (simp add: mult.commute)
  ultimately show ?thesis
    unfolding mod_eq_0_iff_dvd by (simp only: dvd_times_left_cancel_iff)
qed

subsection \<open>Properties\<close>

text \<open>The conversions to \<open>timeval\<close> and \<open>timespec\<close> are exact: converting back gives the time
  stamp, the fractional part is below one second in absolute value and has the sign of the time
  stamp (so both fields are nonnegative from the epoch on).\<close>

theorem clock_conversions_roundtrip:
  "from_timeval (to_timeval t) = t \<and> from_timespec (to_timespec t) = t \<and>
   \<bar>tv_usec (to_timeval t)\<bar> < 1000000 \<and> \<bar>ts_nsec (to_timespec t)\<bar> < 1000000000 \<and>
   ts_sec (to_timespec t) = to_time_t t \<and> to_time_t (from_time_t s) = s \<and>
   (if 0 \<le> t then 0 \<le> ts_sec (to_timespec t) \<and> 0 \<le> ts_nsec (to_timespec t)
    else ts_sec (to_timespec t) \<le> 0 \<and> ts_nsec (to_timespec t) \<le> 0)"
proof -
  have "(s * 1000000) sdiv 1000000 = s"
    by (simp add: signed_divide_int_def sgn_mult abs_mult mult.commute abs_mult_sgn)
  moreover have "\<bar>t smod 1000000 * 1000\<bar> < 1000000000"
    using smod_million_bounds(1) [of t] by simp
  ultimately show ?thesis
    using sdiv_smod_million [of t] smod_million_bounds [of t] sdiv_million_sign [of t]
    by (simp add: from_timeval_def to_timeval_def from_timespec_def to_timespec_def to_time_t_def
        from_time_t_def kSecondToMicroseconds_def mult_sdiv_thousand)
qed

text \<open>The microseconds printed by \<open>toString(true)\<close> and by every log line: because the count is
  truncated to 32 bits before the remainder is taken, the six digits are the microseconds of the
  time stamp exactly when the bits above the 32nd, read as a number, are a multiple of 15625.\<close>

theorem toString_microseconds:
  "int (toString_rest t) = t mod 1000000 \<longleftrightarrow> 15625 dvd t div 2 ^ 32"
proof -
  define q r where "q = t div 2 ^ 32" and "r = t mod 2 ^ 32"
  have t: "t = q * 4294967296 + r"
    by (simp add: q_def r_def)
  have "int (toString_rest t) = r mod 1000000"
    by (simp add: toString_rest_def r_def)
  moreover have "r mod 1000000 = t mod 1000000 \<longleftrightarrow> (q * 4294967296) mod 1000000 = 0"
    unfolding t by (rule mod_shift_iff)
  moreover have "(q * 4294967296) mod 1000000 = 0 \<longleftrightarrow> 15625 dvd q"
    by (rule million_dvd_word)
  ultimately show ?thesis by (simp add: q_def)
qed

end
