(* ===== verification/HttpContext.thy ===== *)
theory HttpContext
  imports Buffer TimeStamp
begin

text \<open>
  HTTP requests and their parser: include/libfm/fmnet/http/HttpBase.h, HttpRequest.h,
  net/http/HttpRequest.cpp, net/http/HttpContext.h and net/http/HttpContext.cpp.

  \<^item> Pointers into the buffer are index ranges; a line is the list of its characters. \<open>std::find\<close> is
    \<open>find_pos\<close>. A header map is a partial function.
  \<^item> The loop of \<open>parseRequest\<close> need not end, so it is a \<open>partial_function\<close>: the value \<open>None\<close> means that
    the call never returns.
  \<^item> \<open>parse_chars\<close> is the same step on the contents of the buffer; \<open>parse_step_refines\<close> shows that the
    buffer step implements it.
\<close>

datatype Version = kUnknownVersion | kHttp10 | kHttp11 | kHttp20

datatype Method = kInvalidMethod | kGet | kPost | kHead | kPut | kDelete

record HttpRequest =
  req_method :: Method
  req_version :: Version
  req_path :: string
  req_query :: string
  receivedTime :: TimeStamp
  req_headers :: "string \<rightharpoonup> string"

definition HttpRequest_new :: HttpRequest where
  "HttpRequest_new =
     \<lparr>req_method = kInvalidMethod, req_version = kUnknownVersion, req_path = [], req_query = [],
      receivedTime = 0, req_headers = Map.empty\<rparr>"

definition setMethod :: "string \<Rightarrow> HttpRequest \<Rightarrow> bool \<times> HttpRequest" where
  "setMethod s r =
     (let mt = (if s = ''GET'' then kGet else if s = ''POST'' then kPost else if s = ''HEAD'' then kHead
                else if s = ''PUT'' then kPut else if s = ''DELETE'' then kDelete else kInvalidMethod)
      in (mt \<noteq> kInvalidMethod, r\<lparr>req_method := mt\<rparr>))"

definition methodToString :: "HttpRequest \<Rightarrow> string" where
  "methodToString r =
     (case req_method r of kGet \<Rightarrow> ''GET'' | kPost \<Rightarrow> ''POST'' | kPut \<Rightarrow> ''PUT'' | kDelete \<Rightarrow> ''DELETE''
      | kHead \<Rightarrow> ''HEAD'' | kInvalidMethod \<Rightarrow> ''UNKNOWN'')"

text \<open>\<open>isspace\<close> in the C locale.\<close>

definition isspace :: "char \<Rightarrow> bool" where
  "isspace c \<longleftrightarrow> c = CHR '' '' \<or> (9 \<le> (of_char c :: nat) \<and> (of_char c :: nat) \<le> 13)"

text \<open>\<open>addHeader\<close> on a line that has its colon at position \<open>colon\<close>: white space around the value goes.\<close>

definition HttpRequest_addHeader :: "string \<Rightarrow> nat \<Rightarrow> HttpRequest \<Rightarrow> HttpRequest" where
  "HttpRequest_addHeader line colon r =
     (let field = take colon line;
          rest = dropWhile isspace (drop (colon + 1) line);
          val = rev (dropWhile isspace (rev rest))
      in r\<lparr>req_headers := (req_headers r)(field \<mapsto> val)\<rparr>)"

definition getHeader :: "string \<Rightarrow> HttpRequest \<Rightarrow> string" where
  "getHeader field r = (case req_headers r field of None \<Rightarrow> [] | Some v \<Rightarrow> v)"

definition HttpRequest_swap :: "HttpRequest \<times> HttpRequest \<Rightarrow> HttpRequest \<times> HttpRequest" where
  "HttpRequest_swap p = (snd p, fst p)"

text \<open>\<open>clear()\<close> leaves \<open>receivedTime_\<close> as it is.\<close>

definition HttpRequest_clear :: "HttpRequest \<Rightarrow> HttpRequest" where
  "HttpRequest_clear r =
     r\<lparr>req_method := kInvalidMethod, req_version := kUnknownVersion, req_path := [], req_query := [],
       req_headers := Map.empty\<rparr>"

text \<open>Moving a request: the new object and what is left of the old one. A moved-from string or map of
  libstdc++ is empty. \<open>self\<close> says that both sides of the assignment are one object.\<close>

definition HttpRequest_move :: "HttpRequest \<Rightarrow> HttpRequest \<times> HttpRequest" where
  "HttpRequest_move rhs =
     (rhs, rhs\<lparr>req_method := kInvalidMethod, req_version := kUnknownVersion, req_path := [], req_query := [],
               req_headers := Map.empty\<rparr>)"

definition HttpRequest_move_assign :: "bool \<Rightarrow> HttpRequest \<Rightarrow> HttpRequest \<Rightarrow> HttpRequest \<times> HttpRequest" where
  "HttpRequest_move_assign self lhs rhs = (if self then (lhs, rhs) else HttpRequest_move rhs)"

subsection \<open>The parser\<close>

datatype HttpRequestParseState = kParseRequestLine | kParseHeaders | kParseBody | kAllDone

record HttpContext =
  parse_state :: HttpRequestParseState
  ctx_request :: HttpRequest

definition HttpContext_new :: HttpContext where
  "HttpContext_new = \<lparr>parse_state = kParseRequestLine, ctx_request = HttpRequest_new\<rparr>"

definition isAllDone :: "HttpContext \<Rightarrow> bool" where "isAllDone c \<longleftrightarrow> parse_state c = kAllDone"

definition HttpContext_reset :: "HttpContext \<Rightarrow> HttpContext" where
  "HttpContext_reset c = c\<lparr>parse_state := kParseRequestLine, ctx_request := HttpRequest_clear (ctx_request c)\<rparr>"

text \<open>The protocol field of a request line.\<close>

definition parse_version :: "string \<Rightarrow> HttpRequest \<Rightarrow> bool \<times> HttpRequest" where
  "parse_version ver r =
     (if length ver = 8 \<and> take 5 ver = ''HTTP/'' \<and> ver ! 6 = CHR ''.''
      then if ver ! 5 = CHR ''1'' \<and> ver ! 7 = CHR ''1'' then (True, r\<lparr>req_version := kHttp11\<rparr>)
           else if ver ! 5 = CHR ''1'' \<and> ver ! 7 = CHR ''0'' then (True, r\<lparr>req_version := kHttp10\<rparr>)
           else if ver ! 5 = CHR ''2'' \<and> ver ! 7 = CHR ''0'' then (True, r\<lparr>req_version := kHttp20\<rparr>)
           else (False, r)
      else (False, r))"

definition set_target :: "string \<Rightarrow> HttpRequest \<Rightarrow> HttpRequest" where
  "set_target target r =
     (let question = find_pos (CHR ''?'') target
      in if question \<noteq> length target
         then r\<lparr>req_path := take question target, req_query := drop question target\<rparr>
         else r\<lparr>req_path := target\<rparr>)"

definition processRequestLine :: "string \<Rightarrow> HttpRequest \<Rightarrow> bool \<times> HttpRequest" where
  "processRequestLine line r =
     (let space = find_pos (CHR '' '') line
      in if space = length line then (False, r)
         else case setMethod (take space line) r of (ok, r1) \<Rightarrow>
           if \<not> ok then (False, r1)
           else let rest = drop (space + 1) line; space2 = find_pos (CHR '' '') rest
                in if space2 = length rest then (False, r1)
                   else parse_version (drop (space2 + 1) rest) (set_target (take space2 rest) r1))"

type_synonym parse_conf = "bool \<times> HttpContext \<times> Buffer"

text \<open>One turn of the loop: the new value of \<open>hasMore\<close> and the new \<open>ok\<close>, context and buffer.\<close>

definition parse_step :: "TimeStamp \<Rightarrow> parse_conf \<Rightarrow> (bool \<times> parse_conf) result" where
  "parse_step now conf =
     (case conf of (ok, c, b) \<Rightarrow>
       (case parse_state c of
          kParseRequestLine \<Rightarrow>
            result_bind (findCRLF b) (\<lambda>crlf.
              case crlf of
                None \<Rightarrow> Inr (False, ok, c, b)
              | Some p \<Rightarrow>
                  result_bind (Buffer_range b (peek b) p) (\<lambda>line.
                    case processRequestLine line (ctx_request c) of (good, r) \<Rightarrow>
                      if good
                      then result_bind (retrieveUntil (p + 2) b) (\<lambda>b'.
                             Inr (True, True, c\<lparr>parse_state := kParseHeaders,
                                               ctx_request := r\<lparr>receivedTime := now\<rparr>\<rparr>, b'))
                      else Inr (True, False, c\<lparr>ctx_request := r\<rparr>, b)))
        | kParseHeaders \<Rightarrow>
            result_bind (findCRLF b) (\<lambda>crlf.
              case crlf of
                None \<Rightarrow> Inr (False, ok, c, b)
              | Some p \<Rightarrow>
                  result_bind (Buffer_range b (peek b) p) (\<lambda>line.
                    let colon = find_pos (CHR '':'') line in
                    result_bind (retrieveUntil (p + 2) b) (\<lambda>b'.
                      if colon \<noteq> length line
                      then Inr (True, ok, c\<lparr>ctx_request := HttpRequest_addHeader line colon (ctx_request c)\<rparr>, b')
                      else Inr (False, ok, c\<lparr>parse_state := kAllDone\<rparr>, b'))))
        | _ \<Rightarrow> Inr (True, ok, c, b)))"

partial_function (option) parse_loop :: "TimeStamp \<Rightarrow> parse_conf \<Rightarrow> parse_conf result option" where
  "parse_loop now conf =
     (case parse_step now conf of
        Inl e \<Rightarrow> Some (Inl e)
      | Inr (hasMore, conf') \<Rightarrow> if hasMore then parse_loop now conf' else Some (Inr conf'))"

definition parseRequest :: "TimeStamp \<Rightarrow> HttpContext \<Rightarrow> Buffer \<Rightarrow> (bool \<times> HttpContext \<times> Buffer) result option" where
  "parseRequest now c b = parse_loop now (True, c, b)"

subsection \<open>The step on the contents of the buffer\<close>

type_synonym char_conf = "bool \<times> HttpContext \<times> char list"

definition parse_chars :: "TimeStamp \<Rightarrow> char_conf \<Rightarrow> bool \<times> char_conf" where
  "parse_chars now conf =
     (case conf of (ok, c, cs) \<Rightarrow>
       (case parse_state c of
          kParseRequestLine \<Rightarrow>
            (case search_CRLF cs of
               None \<Rightarrow> (False, ok, c, cs)
             | Some i \<Rightarrow>
                 (case processRequestLine (take i cs) (ctx_request c) of (good, r) \<Rightarrow>
                    if good
                    then (True, True, c\<lparr>parse_state := kParseHeaders, ctx_request := r\<lparr>receivedTime := now\<rparr>\<rparr>,
                          drop (i + 2) cs)
                    else (True, False, c\<lparr>ctx_request := r\<rparr>, cs)))
        | kParseHeaders \<Rightarrow>
            (case search_CRLF cs of
               None \<Rightarrow> (False, ok, c, cs)
             | Some i \<Rightarrow>
                 (let line = take i cs; colon = find_pos (CHR '':'') line
                  in if colon \<noteq> length line
                     then (True, ok, c\<lparr>ctx_request := HttpRequest_addHeader line colon (ctx_request c)\<rparr>,
                           drop (i + 2) cs)
                     else (False, ok, c\<lparr>parse_state := kAllDone\<rparr>, drop (i + 2) cs)))
        | _ \<Rightarrow> (True, ok, c, cs)))"

lemma parse_step_refines:
  assumes wf: "Buffer_wf b"
  shows "\<exists>more ok' c' b'. parse_step now (ok, c, b) = Inr (more, ok', c', b') \<and> Buffer_wf b' \<and>
     parse_chars now (ok, c, Buffer_contents b) = (more, ok', c', Buffer_contents b')"
proof (cases "search_CRLF (Buffer_contents b)")
  case None
  then show ?thesis
    using wf by (cases "parse_state c") (auto simp: parse_step_def parse_chars_def findCRLF_ok)
next
  case (Some i)
  then have i: "i + 2 \<le> length (Buffer_contents b)" using search_CRLF_Some by blast
  have rng: "Buffer_range b (peek b) (peek b + i) = Inr (take i (Buffer_contents b))"
    using i by (intro Buffer_range_contents [OF wf]) simp
  from retrieveUntil_ok [OF wf i] obtain b' where
    b': "retrieveUntil (peek b + i + 2) b = Inr b'" "Buffer_wf b'"
      "Buffer_contents b' = drop (i + 2) (Buffer_contents b)" by (auto simp: add.assoc)
  obtain good r where pr: "processRequestLine (take i (Buffer_contents b)) (ctx_request c) = (good, r)" by force
  show ?thesis
    using wf Some rng b' pr
    by (cases "parse_state c") (auto simp: parse_step_def parse_chars_def findCRLF_ok Let_def)
qed

subsection \<open>Runs of the loop\<close>

lemma parse_loop_unfold:
  "parse_step now conf = Inr (True, conf') \<Longrightarrow> parse_loop now conf = parse_loop now conf'"
  "parse_step now conf = Inr (False, conf') \<Longrightarrow> parse_loop now conf = Some (Inr conf')"
  by (simp_all add: parse_loop.simps [of now conf])

text \<open>A set of configurations that the step never leaves and never stops in.\<close>

definition never_stops :: "TimeStamp \<Rightarrow> parse_conf set \<Rightarrow> bool" where
  "never_stops now S \<longleftrightarrow> (\<forall>s\<in>S. \<exists>s'\<in>S. parse_step now s = Inr (True, s'))"

lemma parse_loop_returns: "parse_loop now conf = Some y \<Longrightarrow> never_stops now S \<longrightarrow> conf \<notin> S"
proof (rule parse_loop.raw_induct [where P = "\<lambda>n s y. never_stops n S \<longrightarrow> s \<notin> S"])
  fix loop n s y
  assume IH: "\<And>n s y. loop n s = Some y \<Longrightarrow> never_stops n S \<longrightarrow> s \<notin> S"
    and eq: "(case parse_step n s of Inl e \<Rightarrow> Some (Inl e)
      | Inr (hasMore, conf') \<Rightarrow> if hasMore then loop n conf' else Some (Inr conf')) = Some y"
  show "never_stops n S \<longrightarrow> s \<notin> S"
  proof (intro impI notI)
    assume c: "never_stops n S" and "s \<in> S"
    then obtain s' where "s' \<in> S" "parse_step n s = Inr (True, s')" unfolding never_stops_def by blast
    with eq IH [of n s' y] c show False by simp
  qed
qed

lemma parse_loop_diverges:
  assumes "never_stops now S" and "conf \<in> S"
  shows "parse_loop now conf = None"
  using parse_loop_returns [of now conf _ S] assms by (cases "parse_loop now conf") auto

lemma headers_terminate:
  assumes "Buffer_wf b" and "parse_state c = kParseHeaders"
  shows "\<exists>ok' c' b'. parse_loop now (ok, c, b) = Some (Inr (ok', c', b')) \<and> Buffer_wf b' \<and> ok' = ok \<and>
    (parse_state c' = kParseHeaders \<or> parse_state c' = kAllDone)"
  using assms
proof (induction "length (Buffer_contents b)" arbitrary: ok c b rule: less_induct)
  case less
  from parse_step_refines [OF less.prems(1), of now ok c] obtain more ok' c' b' where
    st: "parse_step now (ok, c, b) = Inr (more, ok', c', b')" "Buffer_wf b'"
      "parse_chars now (ok, c, Buffer_contents b) = (more, ok', c', Buffer_contents b')" by blast
  show ?case
  proof (cases more)
    case False
    with st less.prems(2) show ?thesis
      by (auto simp: parse_loop_unfold(2) parse_chars_def Let_def split: option.splits if_splits)
  next
    case True
    with st(3) less.prems(2) obtain i where i: "search_CRLF (Buffer_contents b) = Some i"
      "Buffer_contents b' = drop (i + 2) (Buffer_contents b)" "ok' = ok" "parse_state c' = kParseHeaders"
      by (auto simp: parse_chars_def Let_def split: option.splits if_splits)
    have "length (Buffer_contents b') < length (Buffer_contents b)"
      using search_CRLF_Some [OF i(1)] i(2) by auto
    from less.hyps [OF this st(2) i(4), of ok'] i(3) st(1) True show ?thesis
      by (simp add: parse_loop_unfold(1))
  qed
qed

text \<open>Whether a request line is well-formed does not depend on the request it is parsed into.\<close>

definition good_version :: "string \<Rightarrow> bool" where
  "good_version ver \<longleftrightarrow> length ver = 8 \<and> take 5 ver = ''HTTP/'' \<and> ver ! 6 = CHR ''.'' \<and>
     (ver ! 5, ver ! 7) \<in> {(CHR ''1'', CHR ''1''), (CHR ''1'', CHR ''0''), (CHR ''2'', CHR ''0'')}"

definition good_line :: "string \<Rightarrow> bool" where
  "good_line line \<longleftrightarrow>
     (let space = find_pos (CHR '' '') line; rest = drop (space + 1) line; space2 = find_pos (CHR '' '') rest
      in space \<noteq> length line \<and> take space line \<in> {''GET'', ''POST'', ''HEAD'', ''PUT'', ''DELETE''} \<and>
         space2 \<noteq> length rest \<and> good_version (drop (space2 + 1) rest))"

lemma fst_parse_version: "fst (parse_version ver r) = good_version ver"
  by (auto simp: parse_version_def good_version_def)

lemma fst_setMethod: "fst (setMethod s r) \<longleftrightarrow> s \<in> {''GET'', ''POST'', ''HEAD'', ''PUT'', ''DELETE''}"
  by (simp add: setMethod_def Let_def)

lemma fst_processRequestLine: "fst (processRequestLine line r) = good_line line"
proof -
  let ?sp = "find_pos (CHR '' '') line"
  obtain ok r1 where m: "setMethod (take ?sp line) r = (ok, r1)" by force
  then have "ok \<longleftrightarrow> take ?sp line \<in> {''GET'', ''POST'', ''HEAD'', ''PUT'', ''DELETE''}"
    using fst_setMethod [of "take ?sp line" r] by simp
  with m show ?thesis
    unfolding processRequestLine_def good_line_def by (simp add: Let_def fst_parse_version)
qed

definition bad_request_line :: "char list \<Rightarrow> bool" where
  "bad_request_line cs = (case search_CRLF cs of None \<Rightarrow> False | Some i \<Rightarrow> \<not> good_line (take i cs))"

lemma bad_line_diverges:
  assumes "Buffer_wf b" and "parse_state c = kParseRequestLine" and "bad_request_line (Buffer_contents b)"
  shows "parse_loop now (ok, c, b) = None"
proof -
  let ?S = "{(ok, c, b') | ok c b'. b' = b \<and> parse_state c = kParseRequestLine} :: parse_conf set"
  have "never_stops now ?S"
    unfolding never_stops_def
  proof
    fix s assume "s \<in> ?S"
    then obtain ok c where s: "s = (ok, c, b)" "parse_state c = kParseRequestLine" by blast
    from assms(3) obtain i where i: "search_CRLF (Buffer_contents b) = Some i"
      "\<not> good_line (take i (Buffer_contents b))" by (auto simp: bad_request_line_def split: option.splits)
    obtain r where pr: "processRequestLine (take i (Buffer_contents b)) (ctx_request c) = (False, r)"
      using fst_processRequestLine [of "take i (Buffer_contents b)" "ctx_request c"] i(2)
      by (cases "processRequestLine (take i (Buffer_contents b)) (ctx_request c)") auto
    have "Buffer_range b (peek b) (peek b + i) = Inr (take i (Buffer_contents b))"
      using search_CRLF_Some [OF i(1)] by (intro Buffer_range_contents [OF assms(1)]) simp
    with pr i(1) s have "parse_step now s = Inr (True, False, c\<lparr>ctx_request := r\<rparr>, b)"
      by (simp add: parse_step_def findCRLF_ok [OF assms(1)])
    moreover have "(False, c\<lparr>ctx_request := r\<rparr>, b) \<in> ?S" using s(2) by auto
    ultimately show "\<exists>s'\<in>?S. parse_step now s = Inr (True, s')" by blast
  qed
  then show ?thesis by (rule parse_loop_diverges) (use assms(2) in simp)
qed

lemma good_line_terminates:
  assumes wf: "Buffer_wf b" and st: "parse_state c = kParseRequestLine"
    and good: "\<not> bad_request_line (Buffer_contents b)"
  shows "\<exists>c' b'. parse_loop now (True, c, b) = Some (Inr (True, c', b')) \<and> Buffer_wf b' \<and>
    parse_state c' \<noteq> kParseBody"
proof -
  from parse_step_refines [OF wf, of now True c] obtain more ok' c' b' where
    s: "parse_step now (True, c, b) = Inr (more, ok', c', b')" "Buffer_wf b'"
      "parse_chars now (True, c, Buffer_contents b) = (more, ok', c', Buffer_contents b')" by blast
  show ?thesis
  proof (cases "search_CRLF (Buffer_contents b)")
    case None
    with s st show ?thesis by (auto simp: parse_chars_def parse_loop_unfold(2))
  next
    case (Some i)
    with good have "fst (processRequestLine (take i (Buffer_contents b)) (ctx_request c))"
      by (simp add: bad_request_line_def fst_processRequestLine)
    with Some s(3) st have "more" "ok'" "parse_state c' = kParseHeaders"
      by (auto simp: parse_chars_def split: prod.splits)
    with headers_terminate [OF s(2), of c' now ok'] s(1) show ?thesis
      by (auto simp: parse_loop_unfold(1))
  qed
qed

subsection \<open>Terminating runs on the contents\<close>

inductive parses :: "TimeStamp \<Rightarrow> char_conf \<Rightarrow> char_conf \<Rightarrow> bool" for now where
  stop: "parse_chars now conf = (False, conf') \<Longrightarrow> parses now conf conf'"
| go: "parse_chars now conf = (True, conf1) \<Longrightarrow> parses now conf1 conf2 \<Longrightarrow> parses now conf conf2"

lemma parses_parse_loop:
  assumes "parses now conf conf'"
  shows "conf = (ok, c, Buffer_contents b) \<Longrightarrow> Buffer_wf b \<Longrightarrow>
    \<exists>b'. parse_loop now (ok, c, b) = Some (Inr (fst conf', fst (snd conf'), b')) \<and> Buffer_wf b' \<and>
      Buffer_contents b' = snd (snd conf')"
  using assms
proof (induction arbitrary: ok c b rule: parses.induct)
  case (stop conf conf')
  from parse_step_refines [OF stop.prems(2), of now ok c] stop show ?case
    by (auto simp: parse_loop_unfold(2))
next
  case (go conf conf1 conf2)
  from parse_step_refines [OF go.prems(2), of now ok c] go.hyps(1) go.prems(1)
  obtain ok1 c1 b1 where s: "parse_step now (ok, c, b) = Inr (True, ok1, c1, b1)" "Buffer_wf b1"
    "conf1 = (ok1, c1, Buffer_contents b1)" by auto
  from go.IH [OF s(3,2)] s(1) show ?case by (simp add: parse_loop_unfold(1))
qed

lemma parse_loop_parses: "parse_loop now conf = Some y \<Longrightarrow>
  \<forall>ok c b ok' c' b'. conf = (ok, c, b) \<longrightarrow> Buffer_wf b \<longrightarrow> y = Inr (ok', c', b') \<longrightarrow>
    parses now (ok, c, Buffer_contents b) (ok', c', Buffer_contents b')"
proof (rule parse_loop.raw_induct [where P = "\<lambda>now conf y. \<forall>ok c b ok' c' b'. conf = (ok, c, b) \<longrightarrow>
    Buffer_wf b \<longrightarrow> y = Inr (ok', c', b') \<longrightarrow> parses now (ok, c, Buffer_contents b) (ok', c', Buffer_contents b')"])
  fix loop now conf y
  assume IH: "\<And>now conf y. loop now conf = Some y \<Longrightarrow> \<forall>ok c b ok' c' b'. conf = (ok, c, b) \<longrightarrow>
      Buffer_wf b \<longrightarrow> y = Inr (ok', c', b') \<longrightarrow> parses now (ok, c, Buffer_contents b) (ok', c', Buffer_contents b')"
    and eq: "(case parse_step now conf of Inl e \<Rightarrow> Some (Inl e)
      | Inr (hasMore, conf') \<Rightarrow> if hasMore then loop now conf' else Some (Inr conf')) = Some y"
  show "\<forall>ok c b ok' c' b'. conf = (ok, c, b) \<longrightarrow> Buffer_wf b \<longrightarrow> y = Inr (ok', c', b') \<longrightarrow>
      parses now (ok, c, Buffer_contents b) (ok', c', Buffer_contents b')"
  proof (intro allI impI)
    fix ok c b ok' c' b'
    assume c: "conf = (ok, c, b)" and wf: "Buffer_wf b" and y: "y = Inr (ok', c', b')"
    from parse_step_refines [OF wf, of now ok c] obtain more ok1 c1 b1 where
      s: "parse_step now (ok, c, b) = Inr (more, ok1, c1, b1)" "Buffer_wf b1"
        "parse_chars now (ok, c, Buffer_contents b) = (more, ok1, c1, Buffer_contents b1)" by blast
    show "parses now (ok, c, Buffer_contents b) (ok', c', Buffer_contents b')"
    proof (cases more)
      case True
      with eq c s(1) have "loop now (ok1, c1, b1) = Some y" by simp
      from IH [OF this] s(2) y have "parses now (ok1, c1, Buffer_contents b1) (ok', c', Buffer_contents b')" by blast
      with s(3) True show ?thesis by (auto intro: parses.go)
    next
      case False
      with eq c s y show ?thesis by (auto intro: parses.stop)
    qed
  qed
qed

text \<open>A complete line stays the first line when more input arrives.\<close>

lemma search_CRLF_more: "search_CRLF a = Some i \<Longrightarrow> search_CRLF (a @ d) = Some i"
proof (induction a arbitrary: i rule: search_CRLF.induct)
  case (1 c e cs)
  then show ?case by (cases "[c, e] = kCRLF") auto
qed simp_all

lemma parse_chars_more:
  assumes "parse_chars now (ok, c, a) = (True, ok1, c1, a1)" and "parse_state c \<noteq> kParseBody" "parse_state c \<noteq> kAllDone"
  shows "parse_chars now (ok, c, a @ d) = (True, ok1, c1, a1 @ d)"
proof -
  from assms obtain i where i: "search_CRLF a = Some i"
    by (cases "parse_state c"; cases "search_CRLF a") (auto simp: parse_chars_def)
  have len: "i + 2 \<le> length a" using search_CRLF_Some [OF i] by blast
  then have "take i (a @ d) = take i a" "drop (i + 2) (a @ d) = drop (i + 2) a @ d" by simp_all
  with assms i search_CRLF_more [OF i, of d] show ?thesis
    by (cases "parse_state c") (auto simp: parse_chars_def Let_def split: prod.splits if_splits)
qed

lemma parse_chars_state:
  assumes "parse_chars now (ok, c, a) = (go_on, ok1, c1, a1)" and "parse_state c \<noteq> kParseBody" "parse_state c \<noteq> kAllDone"
  shows "parse_state c1 \<noteq> kParseBody" "go_on \<Longrightarrow> parse_state c1 \<noteq> kAllDone"
    "\<not> go_on \<Longrightarrow> parse_state c1 \<noteq> kAllDone \<Longrightarrow> ok1 = ok \<and> c1 = c \<and> a1 = a"
  using assms by (cases "parse_state c"; auto simp: parse_chars_def Let_def split: option.splits prod.splits if_splits)+

lemma parses_incremental:
  assumes "parses now conf conf'"
  shows "conf = (ok, c, a) \<Longrightarrow> conf' = (ok', c', a') \<Longrightarrow> parse_state c \<noteq> kParseBody \<Longrightarrow> parse_state c \<noteq> kAllDone \<Longrightarrow>
    parse_state c' \<noteq> kAllDone \<Longrightarrow> parses now (ok', c', a' @ d) res \<Longrightarrow> parses now (ok, c, a @ d) res"
  using assms
proof (induction arbitrary: ok c a rule: parses.induct)
  case (stop conf conf')
  with parse_chars_state(3) [of now ok c a False ok' c' a'] show ?case by simp
next
  case (go conf conf1 conf2)
  obtain ok1 c1 a1 where c1: "conf1 = (ok1, c1, a1)" by (cases conf1) auto
  with go have s: "parse_chars now (ok, c, a) = (True, ok1, c1, a1)" by simp
  note st = parse_chars_state [OF s go.prems(3,4)]
  from go.IH [OF c1 go.prems(2) st(1) st(2) [OF TrueI] go.prems(5,6)]
  have "parses now (ok1, c1, a1 @ d) res" .
  with parse_chars_more [OF s go.prems(3,4), of d] show ?case by (rule parses.go)
qed

subsection \<open>Printing requests\<close>

text \<open>The text of a request, the reference the parser is compared with.\<close>

fun method_text :: "Method \<Rightarrow> string" where
  "method_text kGet = ''GET''"
| "method_text kPost = ''POST''"
| "method_text kHead = ''HEAD''"
| "method_text kPut = ''PUT''"
| "method_text kDelete = ''DELETE''"
| "method_text kInvalidMethod = []"

fun version_text :: "Version \<Rightarrow> string" where
  "version_text kHttp10 = ''HTTP/1.0''"
| "version_text kHttp11 = ''HTTP/1.1''"
| "version_text kHttp20 = ''HTTP/2.0''"
| "version_text kUnknownVersion = []"

definition request_line :: "Method \<Rightarrow> string \<Rightarrow> string \<Rightarrow> Version \<Rightarrow> string" where
  "request_line mt path query v = method_text mt @ '' '' @ path @ query @ '' '' @ version_text v"

definition header_line :: "string \<times> string \<Rightarrow> string" where
  "header_line h = fst h @ '': '' @ snd h"

definition headers_text :: "(string \<times> string) list \<Rightarrow> string" where
  "headers_text hs = concat (map (\<lambda>h. header_line h @ kCRLF) hs) @ kCRLF"

definition request_text :: "Method \<Rightarrow> string \<Rightarrow> string \<Rightarrow> Version \<Rightarrow> (string \<times> string) list \<Rightarrow> string" where
  "request_text mt path query v hs = request_line mt path query v @ kCRLF @ headers_text hs"

definition CR :: char where "CR = CHR 0x0D"

text \<open>A target: no blank and no carriage return, no question mark in the path, and a query that is
  empty or starts with one. A header: no colon in the name, no blanks at the ends of the value.\<close>

definition good_target :: "string \<Rightarrow> string \<Rightarrow> bool" where
  "good_target path query \<longleftrightarrow>
     CHR '' '' \<notin> set (path @ query) \<and> CR \<notin> set (path @ query) \<and> CHR ''?'' \<notin> set path \<and>
     (query = [] \<or> hd query = CHR ''?'')"

definition good_header :: "string \<times> string \<Rightarrow> bool" where
  "good_header h \<longleftrightarrow>
     CHR '':'' \<notin> set (fst h) \<and> CR \<notin> set (fst h) \<and> CR \<notin> set (snd h) \<and>
     (snd h = [] \<or> \<not> isspace (hd (snd h)) \<and> \<not> isspace (last (snd h)))"

lemma setMethod_text:
  "mt \<noteq> kInvalidMethod \<Longrightarrow> setMethod (method_text mt) r = (True, r\<lparr>req_method := mt\<rparr>)"
  by (cases mt) (simp_all add: setMethod_def)

lemma parse_version_text:
  "v \<noteq> kUnknownVersion \<Longrightarrow> parse_version (version_text v) r = (True, r\<lparr>req_version := v\<rparr>)"
  by (cases v) (simp_all add: parse_version_def)

lemma set_target_text:
  assumes "good_target path query"
  shows "set_target (path @ query) r =
    (if query = [] then r\<lparr>req_path := path\<rparr> else r\<lparr>req_path := path, req_query := query\<rparr>)"
proof (cases query)
  case Nil
  with assms find_pos_notin [of "CHR ''?''" path] show ?thesis by (simp add: set_target_def good_target_def)
next
  case (Cons c q)
  with assms have "c = CHR ''?''" "CHR ''?'' \<notin> set path" by (simp_all add: good_target_def)
  with Cons find_pos_append [of "CHR ''?''" path q] show ?thesis by (simp add: set_target_def)
qed

lemma method_text_chars: "CHR '' '' \<notin> set (method_text mt)" "CR \<notin> set (method_text mt)"
  by (cases mt; simp add: CR_def)+

lemma processRequestLine_text:
  assumes "mt \<noteq> kInvalidMethod" and "v \<noteq> kUnknownVersion" and "good_target path query"
  shows "processRequestLine (request_line mt path query v) r =
    (True, r\<lparr>req_method := mt, req_version := v, req_path := path,
             req_query := (if query = [] then req_query r else query)\<rparr>)"
proof -
  let ?line = "request_line mt path query v"
  let ?rest = "(path @ query) @ CHR '' '' # version_text v"
  have l: "?line = method_text mt @ CHR '' '' # ?rest" by (simp add: request_line_def)
  have sp: "find_pos (CHR '' '') ?line = length (method_text mt)"
    unfolding l by (rule find_pos_append [OF method_text_chars(1)])
  have sp2: "find_pos (CHR '' '') ?rest = length (path @ query)"
    by (rule find_pos_append) (use assms(3) in \<open>simp add: good_target_def\<close>)
  have "processRequestLine ?line r =
      parse_version (version_text v) (set_target (path @ query) (r\<lparr>req_method := mt\<rparr>))"
    using sp sp2 unfolding processRequestLine_def
    by (simp add: l setMethod_text [OF assms(1)] Let_def)
  then show ?thesis
    by (simp add: parse_version_text [OF assms(2)] set_target_text [OF assms(3)])
qed

lemma trim_id:
  assumes "val = [] \<or> \<not> isspace (hd val) \<and> \<not> isspace (last val)"
  shows "rev (dropWhile isspace (rev (dropWhile isspace (CHR '' '' # val)))) = val"
proof -
  have "dropWhile isspace (CHR '' '' # val) = val" using assms by (cases val) (auto simp: isspace_def)
  moreover have "dropWhile isspace (rev val) = rev val"
    using assms by (cases val rule: rev_cases) auto
  ultimately show ?thesis by simp
qed

lemma addHeader_text:
  assumes "good_header h"
  shows "find_pos (CHR '':'') (header_line h) = length (fst h)"
    and "HttpRequest_addHeader (header_line h) (length (fst h)) r =
      r\<lparr>req_headers := (req_headers r)(fst h \<mapsto> snd h)\<rparr>"
proof -
  have l: "header_line h = fst h @ CHR '':'' # CHR '' '' # snd h" by (simp add: header_line_def)
  show "find_pos (CHR '':'') (header_line h) = length (fst h)"
    unfolding l by (rule find_pos_append) (use assms in \<open>simp add: good_header_def\<close>)
  show "HttpRequest_addHeader (header_line h) (length (fst h)) r =
      r\<lparr>req_headers := (req_headers r)(fst h \<mapsto> snd h)\<rparr>"
    using trim_id [of "snd h"] assms by (simp add: HttpRequest_addHeader_def l good_header_def)
qed

lemma header_line_CR: "good_header h \<Longrightarrow> CHR 0x0D \<notin> set (header_line h)"
  by (auto simp: good_header_def header_line_def CR_def)

lemma request_line_CR:
  "good_target path query \<Longrightarrow> CHR 0x0D \<notin> set (request_line mt path query v)"
  using method_text_chars(2) [of mt]
  by (cases v) (auto simp: good_target_def request_line_def CR_def)

lemma parses_headers:
  assumes "parse_state c = kParseHeaders" and "\<forall>h\<in>set hs. good_header h"
  shows "parses now (ok, c, headers_text hs @ rest)
    (ok, c\<lparr>parse_state := kAllDone,
           ctx_request := (ctx_request c)\<lparr>req_headers := req_headers (ctx_request c) ++ map_of (rev hs)\<rparr>\<rparr>, rest)"
  using assms
proof (induction hs arbitrary: c)
  case Nil
  have "search_CRLF (kCRLF @ rest) = Some 0" using search_CRLF_append [of "[]" rest] by simp
  then have "parse_chars now (ok, c, headers_text [] @ rest) =
      (False, ok, c\<lparr>parse_state := kAllDone\<rparr>, rest)"
    using Nil.prems(1) by (simp add: parse_chars_def headers_text_def find_pos_def Let_def kCRLF_def)
  then show ?case by (auto intro: parses.stop)
next
  case (Cons h hs)
  let ?r = "ctx_request c"
  let ?c = "c\<lparr>ctx_request := ?r\<lparr>req_headers := (req_headers ?r)(fst h \<mapsto> snd h)\<rparr>\<rparr>"
  have h: "good_header h" using Cons.prems(2) by simp
  have tx: "headers_text (h # hs) @ rest = header_line h @ kCRLF @ headers_text hs @ rest"
    by (simp add: headers_text_def)
  have step: "parse_chars now (ok, c, headers_text (h # hs) @ rest) = (True, ok, ?c, headers_text hs @ rest)"
    using Cons.prems(1) addHeader_text [OF h] search_CRLF_append [OF header_line_CR [OF h]]
    unfolding tx by (simp add: parse_chars_def Let_def kCRLF_def) (simp add: header_line_def)
  have "parses now (ok, ?c, headers_text hs @ rest)
      (ok, ?c\<lparr>parse_state := kAllDone, ctx_request := (ctx_request ?c)\<lparr>req_headers :=
         req_headers (ctx_request ?c) ++ map_of (rev hs)\<rparr>\<rparr>, rest)"
    by (rule Cons.IH) (use Cons.prems in simp_all)
  from parses.go [OF step this] show ?case by simp
qed

lemma parses_request:
  assumes "parse_state c = kParseRequestLine" and "mt \<noteq> kInvalidMethod" and "v \<noteq> kUnknownVersion"
    and "good_target path query" and "\<forall>h\<in>set hs. good_header h"
  shows "parses now (ok, c, request_text mt path query v hs @ rest)
    (True, c\<lparr>parse_state := kAllDone,
       ctx_request := (ctx_request c)\<lparr>req_method := mt, req_version := v, req_path := path,
         req_query := (if query = [] then req_query (ctx_request c) else query), receivedTime := now,
         req_headers := req_headers (ctx_request c) ++ map_of (rev hs)\<rparr>\<rparr>, rest)"
proof -
  let ?r = "(ctx_request c)\<lparr>req_method := mt, req_version := v, req_path := path,
      req_query := (if query = [] then req_query (ctx_request c) else query)\<rparr>"
  let ?c = "c\<lparr>parse_state := kParseHeaders, ctx_request := ?r\<lparr>receivedTime := now\<rparr>\<rparr>"
  have tx: "request_text mt path query v hs @ rest =
      request_line mt path query v @ kCRLF @ headers_text hs @ rest" by (simp add: request_text_def)
  have step: "parse_chars now (ok, c, request_text mt path query v hs @ rest) =
      (True, True, ?c, headers_text hs @ rest)"
    using assms(1) search_CRLF_append [OF request_line_CR [OF assms(4)]] processRequestLine_text [OF assms(2-4)]
    unfolding tx by (simp add: parse_chars_def kCRLF_def)
  have "parse_state ?c = kParseHeaders" by simp
  from parses.go [OF step parses_headers [OF this assms(5), of now True rest]] show ?thesis by simp
qed

subsection \<open>Properties\<close>

lemma parse_request_text:
  assumes "Buffer_wf b" and "Buffer_contents b = request_text mt path query v hs @ rest"
    and "mt \<noteq> kInvalidMethod" and "v \<noteq> kUnknownVersion" and "good_target path query"
    and "\<forall>h\<in>set hs. good_header h"
  shows "\<exists>c' b'. parseRequest now HttpContext_new b = Some (Inr (True, c', b')) \<and> isAllDone c' \<and>
     ctx_request c' = \<lparr>req_method = mt, req_version = v, req_path = path, req_query = query,
       receivedTime = now, req_headers = map_of (rev hs)\<rparr> \<and>
     Buffer_wf b' \<and> Buffer_contents b' = rest"
proof -
  let ?c = HttpContext_new
  have st: "parse_state ?c = kParseRequestLine" by (simp add: HttpContext_new_def)
  let ?c' = "?c\<lparr>parse_state := kAllDone,
      ctx_request := (ctx_request ?c)\<lparr>req_method := mt, req_version := v, req_path := path,
        req_query := (if query = [] then req_query (ctx_request ?c) else query), receivedTime := now,
        req_headers := req_headers (ctx_request ?c) ++ map_of (rev hs)\<rparr>\<rparr>"
  have c': "isAllDone ?c'" "ctx_request ?c' = \<lparr>req_method = mt, req_version = v, req_path = path,
      req_query = query, receivedTime = now, req_headers = map_of (rev hs)\<rparr>"
    by (simp_all add: isAllDone_def HttpContext_new_def HttpRequest_new_def)
  obtain b' where "parse_loop now (True, ?c, b) = Some (Inr (True, ?c', b'))" "Buffer_wf b'"
    "Buffer_contents b' = rest"
    using parses_parse_loop [OF parses_request [OF st assms(3-6), of now True rest] _ assms(1)] assms(2) by auto
  with c' show ?thesis unfolding parseRequest_def by blast
qed

text \<open>C5. Parsing inverts printing. When the buffer starts with the text of a request (any of the five
  methods, a path and query, any of the three versions, any list of headers) and any further bytes,
  \<open>parseRequest\<close> on a fresh context returns true with the state \<open>kAllDone\<close>, a request that has exactly
  these parts (of two headers with one name the later counts), and leaves the further bytes in the
  buffer.\<close>

theorem parse_request_roundtrip:
  assumes "Buffer_wf b" and "Buffer_contents b = request_text mt path query v hs @ rest"
    and "mt \<noteq> kInvalidMethod" and "v \<noteq> kUnknownVersion" and "good_target path query"
    and "\<forall>h\<in>set hs. good_header h"
  shows "\<exists>c' b'. parseRequest now HttpContext_new b = Some (Inr (True, c', b')) \<and> isAllDone c' \<and>
     ctx_request c' = \<lparr>req_method = mt, req_version = v, req_path = path, req_query = query,
       receivedTime = now, req_headers = map_of (rev hs)\<rparr> \<and>
     Buffer_wf b' \<and> Buffer_contents b' = rest"
  using assms by (rule parse_request_text)

definition demo_request :: Buffer where
  "demo_request =
     \<lparr>buffer_data = replicate 8 (CHR 0x00) @ request_text kGet ''/a'' ''?x'' kHttp11 [(''Host'', ''h'')] @ ''zz'',
      read_index = 8, write_index = 8 + length (request_text kGet ''/a'' ''?x'' kHttp11 [(''Host'', ''h'')] @ ''zz'')\<rparr>"

lemma demo_request_facts:
  "Buffer_wf demo_request"
  "Buffer_contents demo_request = request_text kGet ''/a'' ''?x'' kHttp11 [(''Host'', ''h'')] @ ''zz''"
  "good_target ''/a'' ''?x''" "good_header (''Host'', ''h'')"
  by (simp_all add: Buffer_wf_def demo_request_def Buffer_contents_def kCheapPrepend_def vector_max_def
      request_text_def request_line_def headers_text_def header_line_def kCRLF_def good_target_def
      good_header_def CR_def isspace_def of_char_def)

theorem parse_request_roundtrip_witness:
  "\<exists>c' b'. parseRequest 7 HttpContext_new demo_request = Some (Inr (True, c', b')) \<and> isAllDone c' \<and>
     req_path (ctx_request c') = ''/a'' \<and> req_headers (ctx_request c') ''Host'' = Some ''h'' \<and>
     Buffer_contents b' = ''zz''"
  using parse_request_roundtrip [OF demo_request_facts(1,2), of 7] demo_request_facts(3,4) by auto

text \<open>C20. Requests may arrive in pieces. If parsing a first piece returned without finishing the
  request, then parsing what it left over together with a second piece gives the same context and
  the same remaining bytes as parsing both pieces at once.\<close>

theorem parse_incremental:
  assumes "Buffer_wf b1" and "parse_state c = kParseRequestLine \<or> parse_state c = kParseHeaders"
    and "parseRequest now c b1 = Some (Inr (True, c1, b1'))" and "\<not> isAllDone c1"
    and "Buffer_wf b2" and "Buffer_contents b2 = Buffer_contents b1' @ d"
    and "Buffer_wf b" and "Buffer_contents b = Buffer_contents b1 @ d"
    and "parseRequest now c1 b2 = Some (Inr (True, c2, b2'))"
  shows "\<exists>b'. parseRequest now c b = Some (Inr (True, c2, b')) \<and> Buffer_contents b' = Buffer_contents b2'"
proof -
  have p1: "parses now (True, c, Buffer_contents b1) (True, c1, Buffer_contents b1')"
    using parse_loop_parses assms(1,3) unfolding parseRequest_def by blast
  have p2: "parses now (True, c1, Buffer_contents b1' @ d) (True, c2, Buffer_contents b2')"
    using parse_loop_parses assms(5,6,9) unfolding parseRequest_def by metis
  have "parses now (True, c, Buffer_contents b1 @ d) (True, c2, Buffer_contents b2')"
    by (rule parses_incremental [OF p1 refl refl _ _ _ p2]) (use assms(2,4) in \<open>auto simp: isAllDone_def\<close>)
  from parses_parse_loop [OF this _ assms(7)] assms(8) show ?thesis by (auto simp: parseRequest_def)
qed

text \<open>The request of the example above, cut after the fifth byte.\<close>

definition demo_piece :: "string \<Rightarrow> Buffer" where
  "demo_piece cs = \<lparr>buffer_data = replicate 8 (CHR 0x00) @ cs, read_index = 8, write_index = 8 + length cs\<rparr>"

lemma demo_piece_facts: "length cs \<le> 1000 \<Longrightarrow> Buffer_wf (demo_piece cs)" "Buffer_contents (demo_piece cs) = cs"
  by (simp_all add: demo_piece_def Buffer_wf_def Buffer_contents_def kCheapPrepend_def vector_max_def)

theorem parse_incremental_witness:
  "\<exists>c2 b2' b'. parseRequest 7 HttpContext_new (demo_piece ''GET /'') =
       Some (Inr (True, HttpContext_new, demo_piece ''GET /'')) \<and>
     parseRequest 7 HttpContext_new (demo_piece (request_text kGet ''/'' [] kHttp11 [])) = Some (Inr (True, c2, b')) \<and>
     isAllDone c2 \<and> Buffer_contents b' = Buffer_contents b2'"
proof -
  let ?t = "request_text kGet ''/'' [] kHttp11 []"
  have t: "?t = ''GET /'' @ drop 5 ?t" "length ?t \<le> 1000" "good_target ''/'' []"
    by (simp_all add: request_text_def request_line_def headers_text_def kCRLF_def good_target_def CR_def)
  have wf: "Buffer_wf (demo_piece ''GET /'')" "Buffer_wf (demo_piece ?t)"
    using t(2) by (simp_all add: demo_piece_facts)
  have first: "parseRequest 7 HttpContext_new (demo_piece ''GET /'') =
      Some (Inr (True, HttpContext_new, demo_piece ''GET /''))"
    unfolding parseRequest_def
    by (rule parse_loop_unfold(2))
       (simp add: parse_step_def HttpContext_new_def findCRLF_ok [OF wf(1)] demo_piece_facts(2) kCRLF_def)
  obtain c2 b2' where p: "parseRequest 7 HttpContext_new (demo_piece ?t) = Some (Inr (True, c2, b2'))" "isAllDone c2"
    using parse_request_text [OF wf(2), of kGet "''/''" "[]" kHttp11 "[]" "[]" 7] t(3)
    by (auto simp: demo_piece_facts)
  have "\<exists>b'. parseRequest 7 HttpContext_new (demo_piece ?t) = Some (Inr (True, c2, b')) \<and>
      Buffer_contents b' = Buffer_contents b2'"
    by (rule parse_incremental [OF wf(1) _ first _ wf(2) _ wf(2) _ p(1)])
       (use t(1) in \<open>simp_all add: demo_piece_facts HttpContext_new_def isAllDone_def\<close>)
  with first p(2) show ?thesis by blast
qed

text \<open>C21. When \<open>parseRequest\<close> returns. In the state that expects a request line, the call returns if and
  only if the buffer does not start with a complete malformed request line; when it returns, it
  returns true. So a malformed line is never reported: the loop repeats the same step for ever
  (\<open>hasMore\<close> stays set and nothing is consumed), and the caller's reply 400 is unreachable.\<close>

theorem parse_returns_iff:
  assumes "Buffer_wf b" and "parse_state c = kParseRequestLine"
  shows "(parseRequest now c b = None \<longleftrightarrow>
      (\<exists>i. search_CRLF (Buffer_contents b) = Some i \<and>
         \<not> fst (processRequestLine (take i (Buffer_contents b)) (ctx_request c)))) \<and>
    (parseRequest now c b \<noteq> None \<longrightarrow> (\<exists>c' b'. parseRequest now c b = Some (Inr (True, c', b'))))"
proof -
  have bad: "(\<exists>i. search_CRLF (Buffer_contents b) = Some i \<and>
      \<not> fst (processRequestLine (take i (Buffer_contents b)) (ctx_request c))) = bad_request_line (Buffer_contents b)"
    by (auto simp: bad_request_line_def fst_processRequestLine split: option.splits)
  show ?thesis
  proof (cases "bad_request_line (Buffer_contents b)")
    case True
    with bad_line_diverges [OF assms True, of now True] show ?thesis unfolding bad by (simp add: parseRequest_def)
  next
    case False
    with good_line_terminates [OF assms False, of now] show ?thesis
      unfolding bad by (auto simp: parseRequest_def)
  qed
qed

theorem parse_returns_iff_witness:
  "parseRequest 7 HttpContext_new (demo_piece (''BAD'' @ kCRLF)) = None"
proof -
  let ?b = "demo_piece (''BAD'' @ kCRLF)"
  have wf: "Buffer_wf ?b" by (rule demo_piece_facts) (simp add: kCRLF_def)
  have st: "parse_state HttpContext_new = kParseRequestLine" by (simp add: HttpContext_new_def)
  have "search_CRLF (Buffer_contents ?b) = Some 3"
    unfolding demo_piece_facts by (simp add: kCRLF_def)
  moreover have "\<not> fst (processRequestLine (take 3 (Buffer_contents ?b)) (ctx_request HttpContext_new))"
    by (simp add: demo_piece_facts processRequestLine_def find_pos_def)
  ultimately show ?thesis using parse_returns_iff [OF wf st, of 7] by blast
qed

end
