(* ===== verification/Channel.thy ===== *)
theory Channel
  imports TimeStamp
begin

unbundle bit_operations_syntax

text \<open>
  Channels: include/libfm/fmnet/Channel.h and net/Channel.cpp. A \<open>Channel\<close> is a descriptor, the
  event mask it wants, the mask it last received and the callbacks of its owner.

  \<^item> The masks are \<open>int\<close>s used bitwise, so they are 32-bit words; the \<open>POLL*\<close> constants are those of
    Linux.
  \<^item> A callback is present or absent here (\<open>std::function\<close> tested as a boolean); what it does is a
    parameter of \<open>handleEvent\<close>, which lives in the theory \<open>Epoller\<close> with the other operations that
    touch the loop.
\<close>

type_synonym mask = "32 word"


definition POLLIN :: mask where "POLLIN = 0x001"
definition POLLPRI :: mask where "POLLPRI = 0x002"
definition POLLOUT :: mask where "POLLOUT = 0x004"
definition POLLERR :: mask where "POLLERR = 0x008"
definition POLLHUP :: mask where "POLLHUP = 0x010"
definition POLLNVAL :: mask where "POLLNVAL = 0x020"
definition POLLRDHUP :: mask where "POLLRDHUP = 0x2000"

lemmas poll_bits = POLLIN_def POLLPRI_def POLLOUT_def POLLERR_def POLLHUP_def POLLNVAL_def POLLRDHUP_def

definition kNoneEvent :: mask where "kNoneEvent = 0"
definition kReadEvent :: mask where "kReadEvent = POLLIN OR POLLPRI"
definition kWriteEvent :: mask where "kWriteEvent = POLLOUT"

record Channel =
  ch_fd :: int
  ch_events :: mask
  revents :: mask
  index :: int
  log_hup :: bool
  tie :: "nat option"
  tied :: bool
  event_handling :: bool
  added_to_loop :: bool
  read_callback :: bool
  write_callback :: bool
  close_callback :: bool
  error_callback :: bool

definition Channel_new :: "int \<Rightarrow> Channel" where
  "Channel_new fd =
     \<lparr>ch_fd = fd, ch_events = 0, revents = 0, index = -1, log_hup = False, tie = None, tied = False,
      event_handling = False, added_to_loop = False, read_callback = False, write_callback = False,
      close_callback = False, error_callback = False\<rparr>"

text \<open>\<open>tie(obj)\<close>: the weak reference is the identity of the object.\<close>

definition Channel_tie :: "nat \<Rightarrow> Channel \<Rightarrow> Channel" where
  "Channel_tie obj ch = ch\<lparr>tie := Some obj, tied := True\<rparr>"

definition isReading :: "Channel \<Rightarrow> bool" where "isReading ch \<longleftrightarrow> ch_events ch AND kReadEvent \<noteq> 0"
definition isWriting :: "Channel \<Rightarrow> bool" where "isWriting ch \<longleftrightarrow> ch_events ch AND kWriteEvent \<noteq> 0"
definition isNoneEvent :: "Channel \<Rightarrow> bool" where "isNoneEvent ch \<longleftrightarrow> ch_events ch = kNoneEvent"

text \<open>The effect of \<open>enableReading\<close> and its siblings on \<open>events_\<close>.\<close>

datatype interest_change = EnableReading | EnableWriting | DisableReading | DisableWriting | DisableAll

fun change_mask :: "interest_change \<Rightarrow> mask \<Rightarrow> mask" where
  "change_mask EnableReading ev = ev OR kReadEvent"
| "change_mask EnableWriting ev = ev OR kWriteEvent"
| "change_mask DisableReading ev = ev AND NOT kReadEvent"
| "change_mask DisableWriting ev = ev AND NOT kWriteEvent"
| "change_mask DisableAll ev = kNoneEvent"

text \<open>\<open>eventsToString(fd, ev)\<close>: every flag is printed to the same position \<open>buf + pr\<close>, so the last one
  that is set remains. \<open>buf\<close> has 32 bytes and \<open>pr\<close> is the length of the prefix.\<close>

definition print_flag :: "mask \<Rightarrow> mask \<times> string \<Rightarrow> string \<Rightarrow> string" where
  "print_flag ev flag rest = (if ev AND fst flag \<noteq> 0 then snd flag else rest)"

definition eventsToString :: "int \<Rightarrow> mask \<Rightarrow> string" where
  "eventsToString fd ev =
     (let prefix = snprintf 32 (show_int fd @ '': '')
      in prefix @ snprintf (32 - length prefix)
           (fold (print_flag ev)
             [(POLLIN, ''IN ''), (POLLPRI, ''PRI ''), (POLLOUT, ''OUT ''), (POLLHUP, ''HUP ''),
              (POLLRDHUP, ''RDHUP ''), (POLLERR, ''ERR ''), (POLLNVAL, ''NVAL '')] []))"

subsection \<open>Event masks\<close>

text \<open>The masks a channel can hold are the four combinations of reading and writing.\<close>

definition mask_of :: "bool \<Rightarrow> bool \<Rightarrow> mask" where
  "mask_of r w = (if r then kReadEvent else 0) OR (if w then kWriteEvent else 0)"

fun change_flags :: "interest_change \<Rightarrow> bool \<times> bool \<Rightarrow> bool \<times> bool" where
  "change_flags EnableReading (r, w) = (True, w)"
| "change_flags EnableWriting (r, w) = (r, True)"
| "change_flags DisableReading (r, w) = (False, w)"
| "change_flags DisableWriting (r, w) = (r, False)"
| "change_flags DisableAll (r, w) = (False, False)"

lemmas event_masks = kNoneEvent_def kReadEvent_def kWriteEvent_def poll_bits

lemma change_mask_of: "change_mask c (mask_of r w) = case_prod mask_of (change_flags c (r, w))"
  by (cases c; cases r; cases w) (simp_all add: mask_of_def event_masks)

lemma mask_of_tests [simp]:
  "mask_of r w AND kReadEvent = 0 \<longleftrightarrow> \<not> r" "mask_of r w AND kWriteEvent = 0 \<longleftrightarrow> \<not> w"
  "mask_of r w = kNoneEvent \<longleftrightarrow> \<not> r \<and> \<not> w" "mask_of r w = 0 \<longleftrightarrow> \<not> r \<and> \<not> w"
  by (cases r; cases w; simp add: mask_of_def event_masks)+

subsection \<open>Properties\<close>

text \<open>The interest flags of a channel behave as two independent booleans: starting from a new
  channel, after any sequence of \<open>enableReading\<close>, \<open>enableWriting\<close>, \<open>disableReading\<close>, \<open>disableWriting\<close> and
  \<open>disableAll\<close>, \<open>isReading\<close>, \<open>isWriting\<close> and \<open>isNoneEvent\<close> answer as those booleans do.\<close>

theorem channel_interest_flags:
  "let (r, w) = fold change_flags cs (False, False);
       ch = Channel_new fd\<lparr>ch_events := fold change_mask cs (ch_events (Channel_new fd))\<rparr>
   in isReading ch = r \<and> isWriting ch = w \<and> isNoneEvent ch = (\<not> r \<and> \<not> w)"
proof -
  have "fold change_mask cs (mask_of r w) = case_prod mask_of (fold change_flags cs (r, w))" for r w
  proof (induction cs arbitrary: r w)
    case Nil
    then show ?case by simp
  next
    case (Cons c cs)
    obtain r' w' where c: "change_flags c (r, w) = (r', w')" by force
    with Cons show ?case by (simp add: change_mask_of)
  qed
  from this [of False False] have m: "fold change_mask cs 0 = case_prod mask_of (fold change_flags cs (False, False))"
    by (simp add: mask_of_def)
  obtain r w where rw: "fold change_flags cs (False, False) = (r, w)" by force
  show ?thesis
    using m by (simp add: rw Channel_new_def isReading_def isWriting_def isNoneEvent_def)
qed

text \<open>The printed form of an event mask loses flags: whatever else is set, a mask with \<open>POLLNVAL\<close>
  prints as \<open>NVAL\<close> alone, because every flag is written to the same position of the buffer.\<close>

theorem eventsToString_last_only:
  assumes "0 \<le> fd" and "fd < 1000000"
  shows "eventsToString fd (ev OR POLLNVAL) = show_int fd @ '': NVAL ''"
proof -
  have "length (show_nat (nat fd)) \<le> 6"
    using assms by (intro length_show_nat) simp_all
  moreover have "(ev OR POLLNVAL) AND POLLNVAL \<noteq> 0"
  proof -
    have "bit ((ev OR POLLNVAL) AND POLLNVAL) 5"
      by (simp add: bit_and_iff bit_or_iff POLLNVAL_def bit_numeral_rec)
    then show ?thesis by auto
  qed
  ultimately show ?thesis
    using assms(1) by (simp add: eventsToString_def print_flag_def show_int_def snprintf_def Let_def)
qed

theorem eventsToString_last_only_witness:
  "eventsToString 9 (POLLIN OR POLLERR OR POLLNVAL) = show_int 9 @ '': NVAL ''"
  using eventsToString_last_only [of 9 "POLLIN OR POLLERR"] by (simp add: or.assoc)

end
