(* ===== verification/Epoller.thy ===== *)
theory Epoller
  imports Channel
begin

unbundle bit_operations_syntax

text \<open>
  The poller: net/Epoller.h, net/Epoller.cpp, the forwarding operations of net/EventLoop.cpp, and the
  operations of Channel.cpp that go through the loop to it (\<open>update\<close>, \<open>remove\<close>, \<open>handleEvent\<close>, the
  destructor).

  \<^item> \<open>chans\<close> is the heap of \<open>Channel\<close> objects, \<open>channels\<close> the map \<open>channels_\<close> from descriptors to them.
  \<^item> \<open>epoll_ctl\<close> is a call into the kernel: the poller records the calls it makes in \<open>ctl_log\<close>. What
    the manual page says of a sequence of calls is \<open>interest\<close> (the interest list it leaves) and
    \<open>ctl_valid\<close> (no call fails with \<open>EEXIST\<close> or \<open>ENOENT\<close>).
  \<^item> The result of \<open>epoll_wait\<close> is an argument of \<open>Epoller_poll\<close>.
  \<^item> The fields of the owning loop that these operations read (its thread and the channels it is
    dispatching) are part of the record. Every channel belongs to this loop, so the asserts
    \<open>ownerLoop() == this\<close> hold by construction.
  \<^item> The record is extensible: the loop adds its own state, and a callback is a transformer of the
    extended state.
\<close>

definition kNew :: int where "kNew = -1"
definition kAdded :: int where "kAdded = 1"
definition kDeleted :: int where "kDeleted = 2"

datatype ctl_op = CTL_ADD | CTL_MOD | CTL_DEL

record Epoller =
  chans :: "addr \<rightharpoonup> Channel"
  channels :: "int \<rightharpoonup> addr"
  events_size :: nat
  ctl_log :: "(ctl_op \<times> int \<times> mask \<times> addr) list"
  loop_thread :: nat       \<comment> \<open>the thread that owns the loop\<close>
  current_thread :: nat    \<comment> \<open>the thread that executes the operation\<close>
  loop_handling :: bool    \<comment> \<open>\<open>EventLoop::event_handling_\<close>\<close>
  active_channels :: "addr list"
  current_active_channel :: "addr option"

definition kInitEventListSize :: nat where "kInitEventListSize = 16"

definition Epoller_new :: "nat \<Rightarrow> Epoller" where
  "Epoller_new tid =
     \<lparr>chans = Map.empty, channels = Map.empty, events_size = kInitEventListSize, ctl_log = [],
      loop_thread = tid, current_thread = tid, loop_handling = False, active_channels = [],
      current_active_channel = None\<rparr>"

definition assertInLoopThread :: "'w Epoller_scheme \<Rightarrow> 'a result \<Rightarrow> 'a result" where
  "assertInLoopThread ep = check FatalLog (loop_thread ep = current_thread ep)"

definition chan :: "addr \<Rightarrow> 'w Epoller_scheme \<Rightarrow> Channel result" where
  "chan c ep = (case chans ep c of None \<Rightarrow> Inl UseAfterFree | Some ch \<Rightarrow> Inr ch)"

definition set_chan :: "addr \<Rightarrow> Channel \<Rightarrow> 'w Epoller_scheme \<Rightarrow> 'w Epoller_scheme" where
  "set_chan c ch ep = ep\<lparr>chans := (chans ep)(c \<mapsto> ch)\<rparr>"

subsection \<open>The operations of the poller\<close>

text \<open>\<open>update(channel, operation)\<close>: a failure of the call is only logged.\<close>

definition Epoller_update :: "addr \<Rightarrow> ctl_op \<Rightarrow> 'w Epoller_scheme \<Rightarrow> 'w Epoller_scheme result" where
  "Epoller_update c operation ep =
     result_bind (chan c ep) (\<lambda>ch.
       Inr (ep\<lparr>ctl_log := ctl_log ep @ [(operation, ch_fd ch, ch_events ch, c)]\<rparr>))"

definition updateChannel :: "addr \<Rightarrow> 'w Epoller_scheme \<Rightarrow> 'w Epoller_scheme result" where
  "updateChannel c ep =
     assertInLoopThread ep (result_bind (chan c ep) (\<lambda>ch.
       let status = index ch; fd = ch_fd ch in
       if status = kNew \<or> status = kDeleted then
         result_bind
           (if status = kNew
            then assert_c (channels ep fd = None) (Inr (ep\<lparr>channels := (channels ep)(fd \<mapsto> c)\<rparr>))
            else assert_c (channels ep fd \<noteq> None) (assert_c (channels ep fd = Some c) (Inr ep)))
           (\<lambda>ep1. Epoller_update c CTL_ADD (set_chan c (ch\<lparr>index := kAdded\<rparr>) ep1))
       else
         assert_c (channels ep fd \<noteq> None) (assert_c (channels ep fd = Some c)
           (if isNoneEvent ch
            then result_bind (Epoller_update c CTL_DEL ep)
                   (\<lambda>ep1. Inr (set_chan c (ch\<lparr>index := kDeleted\<rparr>) ep1))
            else Epoller_update c CTL_MOD ep))))"

definition removeChannel :: "addr \<Rightarrow> 'w Epoller_scheme \<Rightarrow> 'w Epoller_scheme result" where
  "removeChannel c ep =
     assertInLoopThread ep (result_bind (chan c ep) (\<lambda>ch.
       let fd = ch_fd ch; status = index ch in
       assert_c (channels ep fd \<noteq> None) (assert_c (channels ep fd = Some c)
         (assert_c (isNoneEvent ch) (assert_c (status = kAdded \<or> status = kDeleted)
           (let ep1 = ep\<lparr>channels := (channels ep)(fd := None)\<rparr> in
            result_bind (if status = kAdded then Epoller_update c CTL_DEL ep1 else Inr ep1)
              (\<lambda>ep2. Inr (set_chan c (ch\<lparr>index := kNew\<rparr>) ep2))))))))"

definition hasChannel :: "addr \<Rightarrow> 'w Epoller_scheme \<Rightarrow> bool result" where
  "hasChannel c ep =
     assertInLoopThread ep (result_bind (chan c ep) (\<lambda>ch.
       Inr (case channels ep (ch_fd ch) of None \<Rightarrow> False | Some c' \<Rightarrow> c' = c)))"

text \<open>\<open>fillActiveChannels\<close>: \<open>evs\<close> is the filled part of \<open>events_\<close>, pairs of a mask and a channel pointer;
  the result is what is appended to the active list.\<close>

definition fillActiveChannels ::
  "(mask \<times> addr) list \<Rightarrow> 'w Epoller_scheme \<Rightarrow> (addr list \<times> 'w Epoller_scheme) result" where
  "fillActiveChannels evs ep =
     assert_c (length evs \<le> events_size ep)
       (foldM (\<lambda>(m, c) (act, ep1). result_bind (chan c ep1) (\<lambda>ch.
           Inr (act @ [c], set_chan c (ch\<lparr>revents := m\<rparr>) ep1))) evs ([], ep))"

text \<open>\<open>poll\<close>: \<open>epoll_wait\<close> returns the events \<open>evs\<close>, or fails (\<open>None\<close>), \<open>eintr\<close> telling whether with
  \<open>EINTR\<close>.\<close>

definition Epoller_poll ::
  "(mask \<times> addr) list option \<Rightarrow> bool \<Rightarrow> 'w Epoller_scheme \<Rightarrow> (addr list \<times> 'w Epoller_scheme) result" where
  "Epoller_poll evs eintr ep =
     (case evs of
        None \<Rightarrow> if eintr then Inr ([], ep) else Inl FatalLog
      | Some es \<Rightarrow>
          if es = [] then Inr ([], ep)
          else result_bind (fillActiveChannels es ep) (\<lambda>(act, ep1).
                 Inr (act, if length es = events_size ep1
                           then ep1\<lparr>events_size := 2 * events_size ep1\<rparr> else ep1)))"

definition operationToString :: "ctl_op \<Rightarrow> string" where
  "operationToString op = (case op of CTL_ADD \<Rightarrow> ''ADD'' | CTL_MOD \<Rightarrow> ''MOD'' | CTL_DEL \<Rightarrow> ''DEL'')"

subsection \<open>The loop in between\<close>

definition EventLoop_updateChannel :: "addr \<Rightarrow> 'w Epoller_scheme \<Rightarrow> 'w Epoller_scheme result" where
  "EventLoop_updateChannel c ep = assertInLoopThread ep (updateChannel c ep)"

text \<open>While events are dispatched, a channel may be removed only by its own handler or when it is not
  among the active ones.\<close>

definition may_remove :: "addr \<Rightarrow> 'w Epoller_scheme \<Rightarrow> bool" where
  "may_remove c ep \<longleftrightarrow>
     (loop_handling ep \<longrightarrow> current_active_channel ep = Some c \<or> c \<notin> set (active_channels ep))"

definition EventLoop_removeChannel :: "addr \<Rightarrow> 'w Epoller_scheme \<Rightarrow> 'w Epoller_scheme result" where
  "EventLoop_removeChannel c ep =
     assertInLoopThread ep (assert_c (may_remove c ep) (removeChannel c ep))"

definition EventLoop_hasChannel :: "addr \<Rightarrow> 'w Epoller_scheme \<Rightarrow> bool result" where
  "EventLoop_hasChannel c ep = assertInLoopThread ep (hasChannel c ep)"

subsection \<open>The operations of a channel that reach the poller\<close>

definition Channel_update :: "addr \<Rightarrow> 'w Epoller_scheme \<Rightarrow> 'w Epoller_scheme result" where
  "Channel_update c ep =
     result_bind (chan c ep) (\<lambda>ch. EventLoop_updateChannel c (set_chan c (ch\<lparr>added_to_loop := True\<rparr>) ep))"

definition Channel_change :: "interest_change \<Rightarrow> addr \<Rightarrow> 'w Epoller_scheme \<Rightarrow> 'w Epoller_scheme result" where
  "Channel_change change c ep =
     result_bind (chan c ep) (\<lambda>ch.
       Channel_update c (set_chan c (ch\<lparr>ch_events := change_mask change (ch_events ch)\<rparr>) ep))"

definition Channel_remove :: "addr \<Rightarrow> 'w Epoller_scheme \<Rightarrow> 'w Epoller_scheme result" where
  "Channel_remove c ep =
     result_bind (chan c ep) (\<lambda>ch.
       assert_c (isNoneEvent ch)
         (EventLoop_removeChannel c (set_chan c (ch\<lparr>added_to_loop := False\<rparr>) ep)))"

text \<open>The constructor at a fresh address, and the destructor.\<close>

definition Channel_create :: "addr \<Rightarrow> int \<Rightarrow> 'w Epoller_scheme \<Rightarrow> 'w Epoller_scheme" where
  "Channel_create c fd = set_chan c (Channel_new fd)"

definition Channel_destroy :: "addr \<Rightarrow> 'w Epoller_scheme \<Rightarrow> 'w Epoller_scheme result" where
  "Channel_destroy c ep =
     result_bind (chan c ep) (\<lambda>ch.
       assert_c (\<not> event_handling ch) (assert_c (\<not> added_to_loop ch)
         (result_bind
           (if loop_thread ep = current_thread ep
            then result_bind (EventLoop_hasChannel c ep) (\<lambda>has. assert_c (\<not> has) (Inr ()))
            else Inr ())
           (\<lambda>_. Inr (ep\<lparr>chans := (chans ep)(c := None)\<rparr>)))))"

text \<open>Event dispatch. \<open>cb\<close> says what the owner's callbacks do to the state of the loop.\<close>

datatype handler = OnClose | OnError | OnRead TimeStamp | OnWrite

definition callback_when ::
  "(handler \<Rightarrow> 'w Epoller_scheme \<Rightarrow> 'w Epoller_scheme result) \<Rightarrow> (Channel \<Rightarrow> bool) \<Rightarrow> handler \<Rightarrow>
    addr \<Rightarrow> 'w Epoller_scheme \<Rightarrow> 'w Epoller_scheme result" where
  "callback_when cb cond h c ep =
     result_bind (chan c ep) (\<lambda>ch. if cond ch then cb h ep else Inr ep)"

definition handleEventWithGurad ::
  "(handler \<Rightarrow> 'w Epoller_scheme \<Rightarrow> 'w Epoller_scheme result) \<Rightarrow> TimeStamp \<Rightarrow> addr \<Rightarrow>
    'w Epoller_scheme \<Rightarrow> 'w Epoller_scheme result" where
  "handleEventWithGurad cb receiveTime c ep =
     result_bind (chan c ep) (\<lambda>ch0.
     result_bind (callback_when cb
         (\<lambda>ch. revents ch AND POLLHUP \<noteq> 0 \<and> revents ch AND POLLIN = 0 \<and> close_callback ch)
         OnClose c (set_chan c (ch0\<lparr>event_handling := True\<rparr>) ep)) (\<lambda>ep1.
     result_bind (callback_when cb
         (\<lambda>ch. revents ch AND (POLLERR OR POLLNVAL) \<noteq> 0 \<and> error_callback ch) OnError c ep1) (\<lambda>ep2.
     result_bind (callback_when cb
         (\<lambda>ch. revents ch AND (POLLIN OR POLLPRI OR POLLRDHUP) \<noteq> 0 \<and> read_callback ch)
         (OnRead receiveTime) c ep2) (\<lambda>ep3.
     result_bind (callback_when cb
         (\<lambda>ch. revents ch AND POLLOUT \<noteq> 0 \<and> write_callback ch) OnWrite c ep3) (\<lambda>ep4.
     result_bind (chan c ep4) (\<lambda>ch. Inr (set_chan c (ch\<lparr>event_handling := False\<rparr>) ep4)))))))"

text \<open>\<open>alive\<close> tells whether \<open>tie_.lock()\<close> succeeds for the tied object.\<close>

definition handleEvent ::
  "(handler \<Rightarrow> 'w Epoller_scheme \<Rightarrow> 'w Epoller_scheme result) \<Rightarrow> (nat \<Rightarrow> bool) \<Rightarrow> TimeStamp \<Rightarrow> addr \<Rightarrow>
    'w Epoller_scheme \<Rightarrow> 'w Epoller_scheme result" where
  "handleEvent cb alive receiveTime c ep =
     result_bind (chan c ep) (\<lambda>ch.
       if tied ch
       then (if (case tie ch of None \<Rightarrow> False | Some obj \<Rightarrow> alive obj)
             then handleEventWithGurad cb receiveTime c ep else Inr ep)
       else handleEventWithGurad cb receiveTime c ep)"

subsection \<open>The contract of epoll_ctl\<close>

fun apply_ctl :: "ctl_op \<times> int \<times> mask \<times> addr \<Rightarrow> (int \<rightharpoonup> mask \<times> addr) \<Rightarrow> (int \<rightharpoonup> mask \<times> addr)" where
  "apply_ctl (CTL_ADD, fd, ev, p) m = m(fd \<mapsto> (ev, p))"
| "apply_ctl (CTL_MOD, fd, ev, p) m = m(fd \<mapsto> (ev, p))"
| "apply_ctl (CTL_DEL, fd, ev, p) m = m(fd := None)"

fun ctl_ok :: "ctl_op \<times> int \<times> mask \<times> addr \<Rightarrow> (int \<rightharpoonup> mask \<times> addr) \<Rightarrow> bool" where
  "ctl_ok (op, fd, ev, p) m \<longleftrightarrow> (op = CTL_ADD \<longleftrightarrow> m fd = None)"

definition interest :: "(ctl_op \<times> int \<times> mask \<times> addr) list \<Rightarrow> (int \<rightharpoonup> mask \<times> addr)" where
  "interest log = fold apply_ctl log Map.empty"

fun ctl_valid_from :: "(int \<rightharpoonup> mask \<times> addr) \<Rightarrow> (ctl_op \<times> int \<times> mask \<times> addr) list \<Rightarrow> bool" where
  "ctl_valid_from m [] = True"
| "ctl_valid_from m (x # xs) = (ctl_ok x m \<and> ctl_valid_from (apply_ctl x m) xs)"

abbreviation ctl_valid :: "(ctl_op \<times> int \<times> mask \<times> addr) list \<Rightarrow> bool" where
  "ctl_valid \<equiv> ctl_valid_from Map.empty"

lemma ctl_valid_from_snoc: "ctl_valid_from m (xs @ [x]) \<longleftrightarrow> ctl_valid_from m xs \<and> ctl_ok x (fold apply_ctl xs m)"
  by (induction xs arbitrary: m) auto

lemma interest_snoc: "interest (xs @ [x]) = apply_ctl x (interest xs)"
  by (simp add: interest_def)

lemma ctl_valid_snoc: "ctl_valid (xs @ [x]) \<longleftrightarrow> ctl_valid xs \<and> ctl_ok x (interest xs)"
  by (simp add: ctl_valid_from_snoc interest_def)

subsection \<open>The invariant\<close>

text \<open>What the kernel should watch: the channels with index \<open>kAdded\<close>, with their current mask.\<close>

definition wanted :: "'w Epoller_scheme \<Rightarrow> int \<Rightarrow> (mask \<times> addr) option" where
  "wanted ep fd =
     (case channels ep fd of None \<Rightarrow> None
      | Some c \<Rightarrow> (case chans ep c of None \<Rightarrow> None
                  | Some ch \<Rightarrow> if index ch = kAdded then Some (ch_events ch, c) else None))"

definition chan_ok :: "(int \<rightharpoonup> addr) \<Rightarrow> addr \<Rightarrow> Channel \<Rightarrow> bool" where
  "chan_ok cs c ch \<longleftrightarrow>
     index ch \<in> {kNew, kAdded, kDeleted} \<and> (cs (ch_fd ch) = Some c \<longleftrightarrow> index ch \<noteq> kNew) \<and>
     (index ch \<noteq> kAdded \<longrightarrow> ch_events ch = kNoneEvent) \<and> (added_to_loop ch \<longleftrightarrow> index ch \<noteq> kNew)"

definition EP_inv :: "'w Epoller_scheme \<Rightarrow> bool" where
  "EP_inv ep \<longleftrightarrow>
     ctl_valid (ctl_log ep) \<and> interest (ctl_log ep) = wanted ep \<and>
     (\<forall>fd c. channels ep fd = Some c \<longrightarrow> (\<exists>ch. chans ep c = Some ch \<and> ch_fd ch = fd)) \<and>
     (\<forall>c ch. chans ep c = Some ch \<longrightarrow> chan_ok (channels ep) c ch) \<and>
     0 < events_size ep \<and> loop_thread ep = current_thread ep"

text \<open>The invariant reads only the poller's own fields, whatever extends the record.\<close>

lemma EP_inv_cong:
  assumes "chans a = chans b" "channels a = channels b" "ctl_log a = ctl_log b"
    "events_size a = events_size b" "loop_thread a = loop_thread b" "current_thread a = current_thread b"
  shows "EP_inv a \<longleftrightarrow> EP_inv b"
proof -
  have "wanted a = wanted b" using assms by (simp add: wanted_def fun_eq_iff split: option.split)
  with assms show ?thesis by (simp add: EP_inv_def)
qed

lemmas index_consts = kNew_def kAdded_def kDeleted_def

lemma EP_invD:
  assumes "EP_inv ep"
  shows "ctl_valid (ctl_log ep)" "interest (ctl_log ep) = wanted ep"
    "channels ep fd = Some c \<Longrightarrow> \<exists>ch. chans ep c = Some ch \<and> ch_fd ch = fd"
    "chans ep c = Some ch \<Longrightarrow> chan_ok (channels ep) c ch"
    "loop_thread ep = current_thread ep" "0 < events_size ep"
  using assms by (simp_all add: EP_inv_def)

lemma EP_inv_new: "EP_inv (Epoller_new tid)"
  by (simp add: EP_inv_def Epoller_new_def interest_def wanted_def fun_eq_iff kInitEventListSize_def)

lemma chan_Some: "chans ep c = Some ch \<Longrightarrow> chan c ep = Inr ch"
  by (simp add: chan_def)

lemma set_chan_simps [simp]:
  "chans (set_chan c ch ep) = (chans ep)(c \<mapsto> ch)" "channels (set_chan c ch ep) = channels ep"
  "ctl_log (set_chan c ch ep) = ctl_log ep" "loop_thread (set_chan c ch ep) = loop_thread ep"
  "current_thread (set_chan c ch ep) = current_thread ep" "may_remove d (set_chan c ch ep) = may_remove d ep"
  "events_size (set_chan c ch ep) = events_size ep"
  "chan c (set_chan c ch ep) = Inr ch" "set_chan c ch' (set_chan c ch ep) = set_chan c ch' ep"
  by (simp_all add: set_chan_def chan_def may_remove_def)

text \<open>Changing anything but the descriptor, the mask and the registration of a channel.\<close>

lemma EP_inv_set_chan:
  assumes "EP_inv ep" and "chans ep c = Some ch"
    and "ch_fd ch' = ch_fd ch" "ch_events ch' = ch_events ch" "index ch' = index ch"
      "added_to_loop ch' = added_to_loop ch"
  shows "EP_inv (set_chan c ch' ep)"
proof -
  have "wanted (set_chan c ch' ep) = wanted ep"
    using assms(2-) by (auto simp: wanted_def fun_eq_iff split: option.splits)
  moreover have "chan_ok (channels ep) c ch'"
    using EP_invD(4) [OF assms(1,2)] assms(3-) by (simp add: chan_ok_def)
  moreover have "ch_fd ch = fd" if "channels ep fd = Some c" for fd
    using EP_invD(3) [OF assms(1) that] assms(2) by simp
  ultimately show ?thesis
    using assms(1-3) unfolding EP_inv_def by auto
qed

subsection \<open>Changing the interest of a channel\<close>

text \<open>The state after \<open>enableReading\<close> and its siblings.\<close>

definition changed :: "interest_change \<Rightarrow> addr \<Rightarrow> Channel \<Rightarrow> 'w Epoller_scheme \<Rightarrow> 'w Epoller_scheme" where
  "changed change c ch ep =
     (let ev = change_mask change (ch_events ch);
          op = (if index ch \<noteq> kAdded then CTL_ADD else if ev = kNoneEvent then CTL_DEL else CTL_MOD)
      in ep\<lparr>chans := (chans ep)(c \<mapsto> ch\<lparr>ch_events := ev, added_to_loop := True,
                                    index := (if op = CTL_DEL then kDeleted else kAdded)\<rparr>),
            channels := (channels ep)(ch_fd ch \<mapsto> c),
            ctl_log := ctl_log ep @ [(op, ch_fd ch, ev, c)]\<rparr>)"

lemma index_idem:
  "index ch = i \<Longrightarrow> ch\<lparr>ch_events := x, added_to_loop := y, index := i\<rparr> = ch\<lparr>ch_events := x, added_to_loop := y\<rparr>"
  by (cases ch) simp

lemma Channel_change_eq:
  assumes inv: "EP_inv ep" and ch: "chans ep c = Some ch"
    and free: "channels ep (ch_fd ch) = None \<or> channels ep (ch_fd ch) = Some c"
  shows "Channel_change change c ep = Inr (changed change c ch ep)"
proof -
  from EP_invD(4) [OF inv ch] have ok: "chan_ok (channels ep) c ch" .
  consider (new) "index ch = kNew" "channels ep (ch_fd ch) = None"
    | (added) "index ch = kAdded" "channels ep (ch_fd ch) = Some c"
    | (deleted) "index ch = kDeleted" "channels ep (ch_fd ch) = Some c"
    using ok free by (auto simp: chan_ok_def)
  then show ?thesis
    using EP_invD(5) [OF inv] ch
    by cases (simp_all add: Channel_change_def Channel_update_def EventLoop_updateChannel_def updateChannel_def
      assertInLoopThread_def Epoller_update_def changed_def index_consts Let_def isNoneEvent_def
      set_chan_def chan_def fun_upd_idem index_idem)
qed

lemma changed_interest:
  assumes inv: "EP_inv ep" and ch: "chans ep c = Some ch"
    and free: "channels ep (ch_fd ch) = None \<or> channels ep (ch_fd ch) = Some c"
  shows "ctl_valid (ctl_log (changed change c ch ep))"
    and "interest (ctl_log (changed change c ch ep)) = wanted (changed change c ch ep)"
proof -
  from EP_invD(4) [OF inv ch] have ok: "chan_ok (channels ep) c ch" .
  have w: "wanted ep (ch_fd ch) = (if index ch = kAdded then Some (ch_events ch, c) else None)"
    using ok free ch by (auto simp: wanted_def chan_ok_def index_consts)
  have other: "wanted (changed change c ch ep) fd = wanted ep fd" if "fd \<noteq> ch_fd ch" for fd
    using that EP_invD(3) [OF inv, of fd c] ch
    by (auto simp: wanted_def changed_def Let_def split: option.splits)
  show "ctl_valid (ctl_log (changed change c ch ep))"
    using EP_invD(1,2) [OF inv] w by (auto simp: changed_def Let_def ctl_valid_snoc)
  show "interest (ctl_log (changed change c ch ep)) = wanted (changed change c ch ep)"
  proof
    fix fd
    show "interest (ctl_log (changed change c ch ep)) fd = wanted (changed change c ch ep) fd"
    proof (cases "fd = ch_fd ch")
      case True
      then show ?thesis
        by (simp add: changed_def Let_def interest_snoc wanted_def index_consts)
    next
      case False
      then show ?thesis
        using other [OF False] EP_invD(2) [OF inv] by (simp add: changed_def Let_def interest_snoc)
    qed
  qed
qed

lemma EP_inv_changed:
  assumes inv: "EP_inv ep" and ch: "chans ep c = Some ch"
    and free: "channels ep (ch_fd ch) = None \<or> channels ep (ch_fd ch) = Some c"
  shows "EP_inv (changed change c ch ep)"
proof -
  have ok': "chan_ok (channels (changed change c ch ep)) c' ch'"
    if "chans (changed change c ch ep) c' = Some ch'" for c' ch'
  proof (cases "c' = c")
    case True
    with that show ?thesis
      by (auto simp: changed_def Let_def chan_ok_def index_consts split: if_splits)
  next
    case False
    with that have c': "chans ep c' = Some ch'" by (simp add: changed_def Let_def)
    with EP_invD(4) [OF inv c'] False free show ?thesis
      by (auto simp: changed_def Let_def chan_ok_def index_consts)
  qed
  have fd: "ch_fd ch = fd" if "channels ep fd = Some c" for fd
    using EP_invD(3) [OF inv that] ch by simp
  have "\<exists>ch'. chans (changed change c ch ep) c' = Some ch' \<and> ch_fd ch' = fd'"
    if "channels (changed change c ch ep) fd' = Some c'" for fd' c'
    using that fd [of fd'] EP_invD(3) [OF inv, of fd' c']
    by (auto simp: changed_def Let_def split: if_splits)
  with changed_interest [OF assms] ok' EP_invD(5,6) [OF inv] show ?thesis
    unfolding EP_inv_def by (simp add: changed_def Let_def)
qed

subsection \<open>Unregistering, creating and destroying channels\<close>

definition unregistered :: "addr \<Rightarrow> Channel \<Rightarrow> 'w Epoller_scheme \<Rightarrow> 'w Epoller_scheme" where
  "unregistered c ch ep =
     ep\<lparr>chans := (chans ep)(c \<mapsto> ch\<lparr>added_to_loop := False, index := kNew\<rparr>),
        channels := (channels ep)(ch_fd ch := None),
        ctl_log := ctl_log ep @ (if index ch = kAdded then [(CTL_DEL, ch_fd ch, ch_events ch, c)] else [])\<rparr>"

lemma Channel_remove_eq:
  assumes inv: "EP_inv ep" and ch: "chans ep c = Some ch" and reg: "index ch \<noteq> kNew" and none: "isNoneEvent ch"
    and may: "may_remove c ep"
  shows "Channel_remove c ep = Inr (unregistered c ch ep)"
proof -
  from EP_invD(4) [OF inv ch] reg have ok: "index ch = kAdded \<or> index ch = kDeleted"
    "channels ep (ch_fd ch) = Some c" by (auto simp: chan_ok_def)
  then show ?thesis
    using EP_invD(5) [OF inv] ch none may
    by (auto simp: Channel_remove_def EventLoop_removeChannel_def removeChannel_def may_remove_def assertInLoopThread_def Epoller_update_def
      unregistered_def isNoneEvent_def index_consts Let_def set_chan_def chan_def)
qed

lemma Channel_remove_Inr:
  assumes inv: "EP_inv ep" and r: "Channel_remove c ep = Inr ep'"
  obtains ch where "chans ep c = Some ch" "index ch \<noteq> kNew" "isNoneEvent ch" "ep' = unregistered c ch ep"
proof -
  from r obtain ch where ch: "chans ep c = Some ch" "isNoneEvent ch" and may: "may_remove c ep"
    by (auto simp: Channel_remove_def EventLoop_removeChannel_def assertInLoopThread_def chan_def
        result_eqs split: option.splits)
  moreover have "index ch \<noteq> kNew"
    using r ch by (auto simp: Channel_remove_def EventLoop_removeChannel_def removeChannel_def chan_def result_eqs Let_def
        assertInLoopThread_def index_consts)
  ultimately show ?thesis
    using that Channel_remove_eq [OF inv ch(1) _ ch(2) may] r by simp
qed

lemma EP_inv_unregistered:
  assumes inv: "EP_inv ep" and ch: "chans ep c = Some ch" and reg: "index ch \<noteq> kNew" and none: "isNoneEvent ch"
  shows "EP_inv (unregistered c ch ep)"
proof -
  let ?ep = "unregistered c ch ep"
  from EP_invD(4) [OF inv ch] reg have ok: "index ch = kAdded \<or> index ch = kDeleted"
    "channels ep (ch_fd ch) = Some c" by (auto simp: chan_ok_def)
  then have w: "wanted ep (ch_fd ch) = (if index ch = kAdded then Some (ch_events ch, c) else None)"
    using ch by (simp add: wanted_def)
  have fd: "ch_fd ch = fd" if "channels ep fd = Some c" for fd
    using EP_invD(3) [OF inv that] ch by simp
  have w': "wanted ?ep = (wanted ep)(ch_fd ch := None)"
    using fd by (auto simp: fun_eq_iff wanted_def unregistered_def split: option.splits)
  have "ctl_valid (ctl_log ?ep)" and "interest (ctl_log ?ep) = wanted ?ep"
    using EP_invD(1,2) [OF inv] w ok unfolding w'
    by (auto simp: unregistered_def ctl_valid_snoc interest_snoc fun_upd_idem)
  moreover have "chan_ok (channels ?ep) c' ch'" if "chans ?ep c' = Some ch'" for c' ch'
    using that EP_invD(4) [OF inv, of c' ch'] ok none
    by (auto simp: unregistered_def chan_ok_def index_consts isNoneEvent_def split: if_splits)
  moreover have "\<exists>ch'. chans ?ep c' = Some ch' \<and> ch_fd ch' = fd'" if "channels ?ep fd' = Some c'" for fd' c'
    using that EP_invD(3) [OF inv, of fd' c'] ch by (auto simp: unregistered_def split: if_splits)
  ultimately show ?thesis
    using EP_invD(5,6) [OF inv] by (auto simp: EP_inv_def unregistered_def)
qed

lemma EP_inv_create:
  assumes inv: "EP_inv ep" and fresh: "chans ep c = None"
  shows "EP_inv (Channel_create c fd ep)"
proof -
  have nc: "channels ep fd' \<noteq> Some c" for fd'
    using EP_invD(3) [OF inv, of fd' c] fresh by auto
  then have "wanted (Channel_create c fd ep) = wanted ep"
    by (auto simp: wanted_def Channel_create_def fun_eq_iff split: option.splits)
  moreover have "chan_ok (channels ep) c (Channel_new fd)"
    using nc by (simp add: chan_ok_def Channel_new_def index_consts kNoneEvent_def)
  ultimately show ?thesis
    using inv fresh nc unfolding EP_inv_def Channel_create_def by auto
qed

lemma EP_inv_destroy:
  assumes inv: "EP_inv ep" and d: "Channel_destroy c ep = Inr ep'"
  shows "EP_inv ep'"
proof -
  from d obtain ch where ch: "chans ep c = Some ch" "\<not> added_to_loop ch"
    and ep': "ep' = ep\<lparr>chans := (chans ep)(c := None)\<rparr>"
    by (auto simp: Channel_destroy_def chan_def result_eqs split: option.splits if_splits)
  have nc: "channels ep fd \<noteq> Some c" for fd
    using EP_invD(3) [OF inv, of fd c] EP_invD(4) [OF inv ch(1)] ch by (auto simp: chan_ok_def)
  then have "wanted ep' = wanted ep"
    by (auto simp: wanted_def ep' fun_eq_iff split: option.splits)
  then show ?thesis
    using inv nc unfolding EP_inv_def ep' by auto
qed

lemma Channel_change_Inr:
  assumes inv: "EP_inv ep" and r: "Channel_change change c ep = Inr ep'"
  obtains ch where "chans ep c = Some ch"
    "channels ep (ch_fd ch) = None \<or> channels ep (ch_fd ch) = Some c" "ep' = changed change c ch ep"
proof -
  from r obtain ch where ch: "chans ep c = Some ch"
    by (auto simp: Channel_change_def chan_def split: option.splits)
  moreover have free: "channels ep (ch_fd ch) = None \<or> channels ep (ch_fd ch) = Some c"
    using r ch by (auto simp: Channel_change_def Channel_update_def EventLoop_updateChannel_def updateChannel_def chan_def
        result_eqs Let_def assertInLoopThread_def split: if_splits)
  ultimately show ?thesis
    using that Channel_change_eq [OF inv ch free] r by simp
qed

lemma EP_inv_change:
  assumes "EP_inv ep" and "Channel_change change c ep = Inr ep'"
  shows "EP_inv ep'"
  using Channel_change_Inr [OF assms] EP_inv_changed [OF assms(1)] by metis

lemma EP_inv_remove:
  assumes "EP_inv ep" and "Channel_remove c ep = Inr ep'"
  shows "EP_inv ep'"
  using Channel_remove_Inr [OF assms] EP_inv_unregistered [OF assms(1)] by metis

lemma EP_inv_events_size: "EP_inv ep \<Longrightarrow> 0 < n \<Longrightarrow> EP_inv (ep\<lparr>events_size := n\<rparr>)"
proof -
  assume "EP_inv ep" and n: "0 < n"
  moreover have "wanted (ep\<lparr>events_size := n\<rparr>) = wanted ep"
    by (simp add: wanted_def fun_eq_iff split: option.split)
  ultimately show ?thesis by (simp add: EP_inv_def)
qed

subsection \<open>Polling\<close>

text \<open>The manual page of \<open>epoll_wait\<close>: at most \<open>maxevents\<close> events, at most one per descriptor, each with
  the user data of a registered descriptor.\<close>

definition epoll_wait_spec :: "'w Epoller_scheme \<Rightarrow> (mask \<times> addr) list \<Rightarrow> bool" where
  "epoll_wait_spec ep es \<longleftrightarrow>
     length es \<le> events_size ep \<and> distinct (map snd es) \<and>
     (\<forall>e \<in> set es. \<exists>fd ev. interest (ctl_log ep) fd = Some (ev, snd e))"

lemma wanted_alive: "wanted ep fd = Some (ev, c) \<Longrightarrow> \<exists>ch. chans ep c = Some ch"
  by (auto simp: wanted_def split: option.splits if_splits)

text \<open>Registered channels with their received mask overwritten.\<close>

definition received :: "(mask \<times> addr) list \<Rightarrow> 'w Epoller_scheme \<Rightarrow> 'w Epoller_scheme" where
  "received es ep = fold (\<lambda>(m, c) ep1. set_chan c ((the (chans ep1 c))\<lparr>revents := m\<rparr>) ep1) es ep"

lemma fill_loop:
  assumes "EP_inv ep" and "\<forall>e\<in>set es. chans ep (snd e) \<noteq> None" and "distinct (map snd es)"
  shows "foldM (\<lambda>(m, c) (act, ep1). result_bind (chan c ep1) (\<lambda>ch.
           Inr (act @ [c], set_chan c (ch\<lparr>revents := m\<rparr>) ep1))) es (act, ep) =
         Inr (act @ map snd es, received es ep)"
    and "EP_inv (received es ep)"
    and "chans (received es ep) c =
      map_option (\<lambda>ch. case map_of (map prod.swap es) c of None \<Rightarrow> ch | Some m \<Rightarrow> ch\<lparr>revents := m\<rparr>) (chans ep c)"
    and "events_size (received es ep) = events_size ep" and "ctl_log (received es ep) = ctl_log ep"
    and "channels (received es ep) = channels ep"
  using assms
proof (induction es arbitrary: act ep)
  case Nil
  { case 1 then show ?case by (simp add: received_def)
  next case 2 then show ?case by (simp add: received_def)
  next case 3 then show ?case by (simp add: received_def option.map_ident)
  next case 4 then show ?case by (simp add: received_def)
  next case 5 then show ?case by (simp add: received_def)
  next case 6 then show ?case by (simp add: received_def) }
next
  case (Cons e es)
  obtain m d where e: "e = (m, d)" by force
  {
    fix ep :: "'a Epoller_scheme" and act :: "addr list"
    assume A: "EP_inv ep" "\<forall>e\<in>set (e # es). chans ep (snd e) \<noteq> None" "distinct (map snd (e # es))"
    then obtain ch where ch: "chans ep d = Some ch" using e by auto
    let ?ep = "set_chan d (ch\<lparr>revents := m\<rparr>) ep"
    have "EP_inv ?ep" by (rule EP_inv_set_chan [OF A(1) ch]) simp_all
    moreover have "\<forall>e\<in>set es. chans ?ep (snd e) \<noteq> None" "distinct (map snd es)"
      "map_of (map prod.swap es) d = None"
      using A(2,3) e by (force simp: map_of_eq_None_iff)+
    moreover have "received (e # es) ep = received es ?ep" by (simp add: received_def e ch)
    ultimately have "\<exists>ch ep1. chans ep d = Some ch \<and> ep1 = set_chan d (ch\<lparr>revents := m\<rparr>) ep \<and> EP_inv ep1 \<and>
       (\<forall>e\<in>set es. chans ep1 (snd e) \<noteq> None) \<and> distinct (map snd es) \<and>
       map_of (map prod.swap es) d = None \<and> received (e # es) ep = received es ep1"
      using ch by blast
  } note step = this
  {
    case 1
    from step [OF this] obtain ch ep1 where s: "chans ep d = Some ch" "ep1 = set_chan d (ch\<lparr>revents := m\<rparr>) ep"
      "EP_inv ep1" "\<forall>e\<in>set es. chans ep1 (snd e) \<noteq> None" "distinct (map snd es)"
      "received (e # es) ep = received es ep1" by blast
    from Cons.IH(1) [OF s(3-5)] s(1,2,6) show ?case by (simp add: e chan_Some)
  next
    case 2
    from step [OF this] Cons.IH(2) show ?case by metis
  next
    case 3
    from step [OF this] obtain ch ep1 where s: "chans ep d = Some ch" "ep1 = set_chan d (ch\<lparr>revents := m\<rparr>) ep"
      "EP_inv ep1" "\<forall>e\<in>set es. chans ep1 (snd e) \<noteq> None" "distinct (map snd es)"
      "map_of (map prod.swap es) d = None" "received (e # es) ep = received es ep1" by blast
    from Cons.IH(3) [OF s(3-5)] s(1,2,6,7) show ?case by (auto simp: e)
  next
    case 4
    from step [OF this] Cons.IH(4) show ?case by (metis set_chan_simps(7))
  next
    case 5
    from step [OF this] Cons.IH(5) show ?case by (metis set_chan_simps(3))
  next
    case 6
    from step [OF this] Cons.IH(6) show ?case by (metis set_chan_simps(2))
  }
qed

lemma Epoller_poll_ok:
  assumes inv: "EP_inv ep" and es: "epoll_wait_spec ep es"
  shows "\<exists>ep'. Epoller_poll (Some es) eintr ep = Inr (map snd es, ep') \<and> EP_inv ep' \<and>
    channels ep' = channels ep \<and> ctl_log ep' = ctl_log ep \<and> length es < events_size ep' \<and>
    (\<forall>c. chans ep' c =
       map_option (\<lambda>ch. case map_of (map prod.swap es) c of None \<Rightarrow> ch | Some m \<Rightarrow> ch\<lparr>revents := m\<rparr>) (chans ep c))"
proof (cases "es = []")
  case True
  with inv show ?thesis by (simp add: Epoller_poll_def option.map_ident EP_invD(6))
next
  case False
  have alive: "\<forall>e\<in>set es. chans ep (snd e) \<noteq> None"
    using es wanted_alive unfolding epoll_wait_spec_def EP_invD(2) [OF inv] by fastforce
  have len: "length es \<le> events_size ep" "distinct (map snd es)"
    using es by (simp_all add: epoll_wait_spec_def)
  note fl = fill_loop [OF inv alive len(2)]
  have "EP_inv (received es ep\<lparr>events_size := 2 * events_size ep\<rparr>)"
    using EP_inv_events_size [OF fl(2)] EP_invD(6) [OF inv] by simp
  with False len fl EP_invD(6) [OF inv] show ?thesis
    by (auto simp: Epoller_poll_def fillActiveChannels_def)
qed

subsection \<open>Reachable pollers\<close>

text \<open>The states a poller can be in: channels are created at fresh addresses, change their interest,
  are removed and destroyed, in any order, inside and outside the dispatch of events, and polls happen
  in between.\<close>

inductive ep_reach :: "nat \<Rightarrow> Epoller \<Rightarrow> bool" for tid where
  start: "ep_reach tid (Epoller_new tid)"
| create: "ep_reach tid ep \<Longrightarrow> chans ep c = None \<Longrightarrow> ep_reach tid (Channel_create c fd ep)"
| change: "ep_reach tid ep \<Longrightarrow> Channel_change change c ep = Inr ep' \<Longrightarrow> ep_reach tid ep'"
| remove: "ep_reach tid ep \<Longrightarrow> Channel_remove c ep = Inr ep' \<Longrightarrow> ep_reach tid ep'"
| destroy: "ep_reach tid ep \<Longrightarrow> Channel_destroy c ep = Inr ep' \<Longrightarrow> ep_reach tid ep'"
| dispatching: "ep_reach tid ep \<Longrightarrow>
    ep_reach tid (ep\<lparr>loop_handling := h, active_channels := act, current_active_channel := cur\<rparr>)"
| poll: "ep_reach tid ep \<Longrightarrow> epoll_wait_spec ep es \<Longrightarrow> Epoller_poll (Some es) eintr ep = Inr (act, ep') \<Longrightarrow>
    ep_reach tid ep'"

lemma ep_reach_inv: "ep_reach tid ep \<Longrightarrow> EP_inv ep"
proof (induction rule: ep_reach.induct)
  case start
  show ?case by (rule EP_inv_new)
next
  case (create ep c fd)
  from EP_inv_create [OF create.IH create.hyps(2)] show ?case .
next
  case (change ep ch c ep')
  from EP_inv_change [OF change.IH change.hyps(2)] show ?case .
next
  case (remove ep c ep')
  from EP_inv_remove [OF remove.IH remove.hyps(2)] show ?case .
next
  case (destroy ep c ep')
  from EP_inv_destroy [OF destroy.IH destroy.hyps(2)] show ?case .
next
  case (dispatching ep cur act h)
  have "wanted (ep\<lparr>loop_handling := h, active_channels := act, current_active_channel := cur\<rparr>) = wanted ep"
    by (simp add: wanted_def fun_eq_iff split: option.split)
  with dispatching.IH show ?case by (simp add: EP_inv_def)
next
  case (poll ep es eintr act ep')
  from Epoller_poll_ok [OF poll.IH poll.hyps(2), of eintr] poll.hyps(3) show ?case by auto
qed

subsection \<open>Dispatch\<close>

text \<open>The callbacks an event asks for, in the order of \<open>handleEventWithGurad\<close>.\<close>

definition dispatch :: "TimeStamp \<Rightarrow> Channel \<Rightarrow> handler list" where
  "dispatch receiveTime ch =
     (if revents ch AND POLLHUP \<noteq> 0 \<and> revents ch AND POLLIN = 0 \<and> close_callback ch then [OnClose] else []) @
     (if revents ch AND (POLLERR OR POLLNVAL) \<noteq> 0 \<and> error_callback ch then [OnError] else []) @
     (if revents ch AND (POLLIN OR POLLPRI OR POLLRDHUP) \<noteq> 0 \<and> read_callback ch then [OnRead receiveTime] else []) @
     (if revents ch AND POLLOUT \<noteq> 0 \<and> write_callback ch then [OnWrite] else [])"

text \<open>A callback that neither destroys the channel nor changes what it received.\<close>

definition same_events :: "Channel \<Rightarrow> Channel \<Rightarrow> bool" where
  "same_events a b \<longleftrightarrow> revents a = revents b \<and> close_callback a = close_callback b \<and>
     error_callback a = error_callback b \<and> read_callback a = read_callback b \<and> write_callback a = write_callback b"

definition keeps_channel ::
  "addr \<Rightarrow> (handler \<Rightarrow> 'w Epoller_scheme \<Rightarrow> 'w Epoller_scheme result) \<Rightarrow> bool" where
  "keeps_channel c cb \<longleftrightarrow> (\<forall>h ep ep' ch. chans ep c = Some ch \<longrightarrow> cb h ep = Inr ep' \<longrightarrow>
     (\<exists>ch'. chans ep' c = Some ch' \<and> same_events ch ch'))"

lemma callback_when_bind:
  assumes keep: "keeps_channel c cb" and ch: "chans ep c = Some ch" "same_events ch0 ch"
    and cond: "\<And>ch'. same_events ch0 ch' \<Longrightarrow> cond ch' = cond ch0"
    and k: "\<And>ep' ch'. chans ep' c = Some ch' \<Longrightarrow> same_events ch0 ch' \<Longrightarrow> k ep' = result_bind (foldM cb hs ep') r"
  shows "result_bind (callback_when cb cond h c ep) k =
     result_bind (foldM cb ((if cond ch0 then [h] else []) @ hs) ep) r"
proof (cases "cond ch0")
  case True
  then have c: "callback_when cb cond h c ep = cb h ep"
    using ch cond by (simp add: callback_when_def chan_Some)
  show ?thesis
  proof (cases "cb h ep")
    case (Inl e)
    with True c show ?thesis by simp
  next
    case (Inr ep')
    with keep ch obtain ch' where ch': "chans ep' c = Some ch'" "same_events ch ch'"
      unfolding keeps_channel_def by blast
    with ch(2) have "same_events ch0 ch'" by (simp add: same_events_def)
    from k [OF ch'(1) this] True c Inr show ?thesis by simp
  qed
next
  case False
  with ch cond k [OF ch] show ?thesis by (simp add: callback_when_def chan_Some)
qed

lemma handleEventWithGurad_dispatch:
  assumes keep: "keeps_channel c cb" and ch: "chans ep c = Some ch"
  shows "handleEventWithGurad cb t c ep =
    result_bind (foldM cb (dispatch t ch) (set_chan c (ch\<lparr>event_handling := True\<rparr>) ep))
      (\<lambda>ep1. result_bind (chan c ep1) (\<lambda>ch1. Inr (set_chan c (ch1\<lparr>event_handling := False\<rparr>) ep1)))"
  (is "_ = result_bind (foldM cb _ ?ep) ?r")
proof -
  let ?C1 = "\<lambda>ch. revents ch AND POLLHUP \<noteq> 0 \<and> revents ch AND POLLIN = 0 \<and> close_callback ch"
  let ?C2 = "\<lambda>ch. revents ch AND (POLLERR OR POLLNVAL) \<noteq> 0 \<and> error_callback ch"
  let ?C3 = "\<lambda>ch. revents ch AND (POLLIN OR POLLPRI OR POLLRDHUP) \<noteq> 0 \<and> read_callback ch"
  let ?C4 = "\<lambda>ch. revents ch AND POLLOUT \<noteq> 0 \<and> write_callback ch"
  let ?h = "\<lambda>C h. if C ch then [h] else ([] :: handler list)"
  note bind = callback_when_bind [OF keep, where ?ch0.0 = ch]
  have k4: "result_bind (callback_when cb ?C4 OnWrite c ep3) ?r =
      result_bind (foldM cb (?h ?C4 OnWrite @ []) ep3) ?r"
    if "chans ep3 c = Some ch'" "same_events ch ch'" for ep3 ch'
    by (rule bind [OF that]) (simp_all add: same_events_def)
  let ?k3 = "\<lambda>ep2. result_bind (callback_when cb ?C3 (OnRead t) c ep2) (\<lambda>ep3.
      result_bind (callback_when cb ?C4 OnWrite c ep3) ?r)"
  have k3: "?k3 ep2 = result_bind (foldM cb (?h ?C3 (OnRead t) @ ?h ?C4 OnWrite @ []) ep2) ?r"
    if "chans ep2 c = Some ch'" "same_events ch ch'" for ep2 ch'
    by (rule bind [OF that _ k4]) (simp_all add: same_events_def)
  let ?k2 = "\<lambda>ep1. result_bind (callback_when cb ?C2 OnError c ep1) ?k3"
  have k2: "?k2 ep1 = result_bind (foldM cb (?h ?C2 OnError @ ?h ?C3 (OnRead t) @ ?h ?C4 OnWrite @ []) ep1) ?r"
    if "chans ep1 c = Some ch'" "same_events ch ch'" for ep1 ch'
    by (rule bind [OF that _ k3]) (simp_all add: same_events_def)
  have "result_bind (callback_when cb ?C1 OnClose c ?ep) ?k2 =
      result_bind (foldM cb (?h ?C1 OnClose @ ?h ?C2 OnError @ ?h ?C3 (OnRead t) @ ?h ?C4 OnWrite @ []) ?ep) ?r"
    by (rule bind [where ch = "ch\<lparr>event_handling := True\<rparr>", OF _ _ _ k2]) (simp_all add: same_events_def)
  then show ?thesis
    unfolding handleEventWithGurad_def chan_Some [OF ch] dispatch_def append_Nil2 result_bind_Inr .
qed

subsection \<open>Properties\<close>

text \<open>C4. The kernel's interest list never goes out of step. However channels are created, change
  interest, are removed and destroyed, and polls happen, every \<open>epoll_ctl\<close> call is valid (\<open>ADD\<close> only
  of an unregistered descriptor, \<open>MOD\<close> and \<open>DEL\<close> only of a registered one), and the interest list it
  leaves holds exactly the channels with index \<open>kAdded\<close>, each under its descriptor with its present
  mask and its own address, so that no event can carry a dangling pointer.\<close>

theorem epoll_ctl_consistent:
  assumes "ep_reach tid ep"
  shows "ctl_valid (ctl_log ep) \<and>
    (interest (ctl_log ep) fd = Some (ev, c) \<longleftrightarrow>
      channels ep fd = Some c \<and>
      (\<exists>ch. chans ep c = Some ch \<and> ch_fd ch = fd \<and> index ch = kAdded \<and> ch_events ch = ev))"
proof -
  note inv = ep_reach_inv [OF assms]
  have "wanted ep fd = Some (ev, c) \<longleftrightarrow> channels ep fd = Some c \<and>
      (\<exists>ch. chans ep c = Some ch \<and> ch_fd ch = fd \<and> index ch = kAdded \<and> ch_events ch = ev)"
  proof (cases "channels ep fd = Some c")
    case True
    then obtain ch where "chans ep c = Some ch" "ch_fd ch = fd" using EP_invD(3) [OF inv] by blast
    with True show ?thesis by (simp add: wanted_def)
  next
    case False
    then show ?thesis by (auto simp: wanted_def split: option.splits if_splits)
  qed
  with EP_invD(1,2) [OF inv] show ?thesis by simp
qed

text \<open>A poller with one channel for descriptor 5, reading.\<close>

definition demo_poller :: Epoller where
  "demo_poller = changed EnableReading 1 (Channel_new 5) (Channel_create 1 5 (Epoller_new 0))"

lemma demo_poller_reach: "ep_reach 0 demo_poller"
proof -
  have r: "ep_reach 0 (Channel_create 1 5 (Epoller_new 0))"
    by (rule ep_reach.create [OF ep_reach.start]) (simp add: Epoller_new_def)
  have "Channel_change EnableReading 1 (Channel_create 1 5 (Epoller_new 0)) = Inr demo_poller"
    unfolding demo_poller_def
    by (rule Channel_change_eq [OF ep_reach_inv [OF r]])
       (simp_all add: Channel_create_def Channel_new_def Epoller_new_def)
  with r show ?thesis by (rule ep_reach.change)
qed

theorem epoll_ctl_consistent_witness:
  "ep_reach 0 demo_poller \<and> ctl_valid (ctl_log demo_poller) \<and>
   interest (ctl_log demo_poller) 5 = Some (kReadEvent, 1)"
  using demo_poller_reach epoll_ctl_consistent [OF demo_poller_reach, of 5 kReadEvent 1]
  by (simp add: demo_poller_def changed_def Channel_create_def Channel_new_def Epoller_new_def
      index_consts Let_def)

text \<open>Changing interest and unregistering never fail: in every reachable state, for a live
  channel whose descriptor is not registered for another channel and which is not waiting in the batch
  being dispatched, any change of interest runs
  through without a failed assert, and so does \<open>disableAll\<close> followed by \<open>remove\<close>; after that the
  descriptor is free, the kernel does not watch it, and the destructor's asserts hold unless an
  event of the channel is being handled.\<close>

theorem channel_unregister_succeeds:
  assumes "ep_reach tid ep" and "chans ep c = Some ch"
    and "channels ep (ch_fd ch) = None \<or> channels ep (ch_fd ch) = Some c" and "may_remove c ep"
  shows "\<exists>ep1 ep2. Channel_change change c ep = Inr ep1 \<and>
    result_bind (Channel_change DisableAll c ep) (Channel_remove c) = Inr ep2 \<and>
    channels ep2 (ch_fd ch) = None \<and> interest (ctl_log ep2) (ch_fd ch) = None \<and>
    (\<not> event_handling ch \<longrightarrow> is_ok (Channel_destroy c ep2))"
proof -
  note inv = ep_reach_inv [OF assms(1)]
  let ?ep1 = "changed DisableAll c ch ep"
  obtain ch1 where ch1: "chans ?ep1 c = Some ch1" "ch_fd ch1 = ch_fd ch" "isNoneEvent ch1"
    "index ch1 \<noteq> kNew" "event_handling ch1 = event_handling ch"
    by (simp add: changed_def Let_def isNoneEvent_def index_consts)
  note inv1 = EP_inv_changed [OF inv assms(2,3), of DisableAll]
  have may: "may_remove c ?ep1" using assms(4) by (simp add: may_remove_def changed_def Let_def)
  note rm = Channel_remove_eq [OF inv1 ch1(1,4,3) may] EP_inv_unregistered [OF inv1 ch1(1,4,3)]
  let ?ep2 = "unregistered c ch1 ?ep1"
  have fields: "channels ?ep2 (ch_fd ch) = None"
    "chans ?ep2 c = Some (ch1\<lparr>added_to_loop := False, index := kNew\<rparr>)"
    by (simp_all add: unregistered_def ch1(2))
  then have "interest (ctl_log ?ep2) (ch_fd ch) = None"
    using EP_invD(2) [OF rm(2)] by (simp add: wanted_def)
  moreover have "is_ok (Channel_destroy c ?ep2)" if "\<not> event_handling ch"
    using that fields ch1(2,5) EP_invD(5) [OF rm(2)]
    by (simp add: Channel_destroy_def EventLoop_hasChannel_def hasChannel_def assertInLoopThread_def chan_def)
  ultimately show ?thesis
    using Channel_change_eq [OF inv assms(2,3)] rm(1) fields(1) by auto
qed

theorem channel_unregister_succeeds_witness:
  "\<exists>ep2. result_bind (Channel_change DisableAll 1 demo_poller) (Channel_remove 1) = Inr ep2 \<and>
     channels ep2 5 = None"
proof -
  obtain ch where "chans demo_poller 1 = Some ch" "ch_fd ch = 5" "channels demo_poller 5 = Some 1"
    "may_remove 1 demo_poller"
    by (simp add: demo_poller_def changed_def Let_def Channel_new_def may_remove_def Epoller_new_def
        Channel_create_def set_chan_def)
  then show ?thesis
    using channel_unregister_succeeds [OF demo_poller_reach, of 1 ch EnableReading] by auto
qed

text \<open>Polling: when \<open>epoll_wait\<close> keeps its contract, \<open>poll\<close> returns exactly the reported channels in
  order, each with its received mask, leaves every other channel and the registrations alone, and
  makes the event array larger than the batch, so that a full batch doubles it.\<close>

theorem poll_delivers:
  assumes "ep_reach tid ep" and "epoll_wait_spec ep es"
  shows "\<exists>ep'. Epoller_poll (Some es) eintr ep = Inr (map snd es, ep') \<and>
    channels ep' = channels ep \<and> ctl_log ep' = ctl_log ep \<and> length es < events_size ep' \<and>
    (\<forall>c. chans ep' c =
       map_option (\<lambda>ch. case map_of (map prod.swap es) c of None \<Rightarrow> ch | Some m \<Rightarrow> ch\<lparr>revents := m\<rparr>) (chans ep c))"
  using Epoller_poll_ok [OF ep_reach_inv [OF assms(1)] assms(2), of eintr] by blast

theorem poll_delivers_witness:
  "\<exists>ep'. Epoller_poll (Some [(POLLIN, 1)]) False demo_poller = Inr ([1], ep') \<and>
     map_option revents (chans ep' 1) = Some POLLIN"
proof -
  have "epoll_wait_spec demo_poller [(POLLIN, 1)]"
    unfolding epoll_wait_spec_def
    by (auto simp: demo_poller_def changed_def Channel_create_def Channel_new_def Epoller_new_def
        index_consts Let_def interest_def kInitEventListSize_def intro: exI [of _ 5])
  from poll_delivers [OF demo_poller_reach this, of False] show ?thesis
    by (auto simp: demo_poller_def changed_def Let_def)
qed



end
