(* ===== verification/TimerQueue.thy ===== *)
theory TimerQueue
  imports TimeStamp "HOL-Library.Product_Lexorder"
begin

text \<open>
  Timers: net/Timer.h, net/Timer.cpp, include/libfm/fmnet/TimerId.h, net/TimerQueue.h and
  net/TimerQueue.cpp.

  \<^item> A \<open>Timer *\<close> is an address into an explicit heap, because the queue frees timers and the
    order of freeing matters: an access to an address that is not allocated is the fault
    \<open>UseAfterFree\<close>. \<open>new\<close> is the parameter \<open>alloc\<close>, of which only \<open>alloc_spec\<close> is known.
  \<^item> \<open>timer_tree_\<close> (a \<open>std::set\<close> of pairs) is a strictly sorted list, \<open>active_timers_\<close> and
    \<open>deleted_timers_\<close> (hash sets) are sets.
  \<^item> The timer descriptor is the last value given to \<open>timerfd_settime\<close> with the clock reading it
    was computed from. Clock readings are
    arguments.
  \<^item> A user callback is the list of timer operations it performs (it runs in the loop thread, so
    \<open>runInLoop\<close> executes them at once); \<open>script\<close> gives the list for each callback.
\<close>



record Timer =
  callback :: nat
  expiration :: TimeStamp
  interval :: duration
  repeated :: bool
  sequence :: int

definition Timer_new :: "nat \<Rightarrow> TimeStamp \<Rightarrow> duration \<Rightarrow> int \<Rightarrow> Timer" where
  "Timer_new cb when iv seq =
     \<lparr>callback = cb, expiration = when, interval = iv, repeated = (iv > 0), sequence = seq\<rparr>"

definition Timer_restart :: "TimeStamp \<Rightarrow> Timer \<Rightarrow> Timer" where
  "Timer_restart when t =
     (if repeated t then t\<lparr>expiration := TimeStamp_plus when (interval t)\<rparr>
      else t\<lparr>expiration := SystemClock_zero\<rparr>)"

type_synonym TimerId = "addr \<times> int"
type_synonym TimerEntry = "TimeStamp \<times> addr"

record TimerQueue =
  heap :: "addr \<rightharpoonup> Timer"
  numsTimerCreated :: int
  timer_tree :: "TimerEntry list"
  active_timers :: "TimerId set"
  deleted_timers :: "TimerId set"
  calling_expired_timers :: bool
  timerfd :: "(timespec \<times> TimeStamp) option"

definition TimerQueue_new :: TimerQueue where
  "TimerQueue_new =
     \<lparr>heap = Map.empty, numsTimerCreated = 0, timer_tree = [], active_timers = {},
      deleted_timers = {}, calling_expired_timers = False, timerfd = None\<rparr>"

text \<open>The guard address of \<open>getExpired\<close>, above every object.\<close>

definition UINTPTR_MAX :: nat where "UINTPTR_MAX = 2 ^ 64 - 1"

type_synonym allocator = "(addr \<rightharpoonup> Timer) \<Rightarrow> addr option"

text \<open>\<open>new\<close> returns the address of an object that did not exist, or throws \<open>bad_alloc\<close>.\<close>

definition alloc_spec :: "allocator \<Rightarrow> bool" where
  "alloc_spec alloc \<longleftrightarrow> (\<forall>h p. alloc h = Some p \<longrightarrow> h p = None \<and> 0 < p \<and> p < UINTPTR_MAX)"

definition deref :: "addr \<Rightarrow> TimerQueue \<Rightarrow> Timer result" where
  "deref p q = (case heap q p of None \<Rightarrow> Inl UseAfterFree | Some t \<Rightarrow> Inr t)"

subsection \<open>Identifiers\<close>

unbundle bit_operations_syntax

definition TimerId_new :: TimerId where "TimerId_new = (0, 0)"

definition TimerId_less :: "TimerId \<Rightarrow> TimerId \<Rightarrow> bool" where
  "TimerId_less lhs rhs \<longleftrightarrow> fst lhs < fst rhs \<and> snd lhs < snd rhs"

definition TimerId_equal :: "TimerId \<Rightarrow> TimerId \<Rightarrow> bool" where
  "TimerId_equal lhs rhs \<longleftrightarrow> fst lhs = fst rhs \<and> snd lhs = snd rhs"

text \<open>The hash of an identifier from those of a pointer and of an integer.\<close>

definition TimerId_hash :: "(addr \<Rightarrow> 64 word) \<Rightarrow> (int \<Rightarrow> 64 word) \<Rightarrow> TimerId \<Rightarrow> 64 word" where
  "TimerId_hash hash_ptr hash_int timerId = hash_ptr (fst timerId) XOR push_bit 1 (hash_int (snd timerId))"

text \<open>The hash respects equality, as an unordered set needs. \<open>operator<\<close> is not a strict weak order: identifiers it does not
  separate from a third one may be ordered.\<close>

lemma TimerId_hash_equal: "TimerId_equal a b \<Longrightarrow> TimerId_hash f g a = TimerId_hash f g b"
  by (simp add: TimerId_equal_def TimerId_hash_def)

lemma TimerId_less_not_weak_order:
  "\<exists>a b c. \<not> TimerId_less a b \<and> \<not> TimerId_less b a \<and> \<not> TimerId_less b c \<and> \<not> TimerId_less c b \<and> TimerId_less a c"
  by (rule exI [of _ "(1, 1)"], rule exI [of _ "(1, 5)"], rule exI [of _ "(2, 2)"]) (simp add: TimerId_less_def)

subsection \<open>The timer descriptor\<close>

definition createTimerfd :: "int \<Rightarrow> int result" where
  "createTimerfd fd = check FatalLog (0 \<le> fd) (Inr fd)"

definition timespecFromNow :: "TimeStamp \<Rightarrow> TimeStamp \<Rightarrow> timespec" where
  "timespecFromNow when now =
     (let iv = to_timespec (TimeStamp_diff when now);
          iv1 = (if ts_sec iv < 0 then iv\<lparr>ts_sec := 0\<rparr> else iv)
      in if ts_sec iv1 = 0 \<and> ts_nsec iv1 < 100 then iv1\<lparr>ts_nsec := 100\<rparr> else iv1)"

text \<open>\<open>nRead\<close> is what \<open>read\<close> returns: 8 when the timer has fired, which leaves it disarmed; a short read
  is only logged.\<close>

definition readTimerfd :: "int \<Rightarrow> TimerQueue \<Rightarrow> TimerQueue" where
  "readTimerfd nRead q = (if nRead = 8 then q\<lparr>timerfd := None\<rparr> else q)"

definition updateTimerfd :: "TimeStamp \<Rightarrow> TimeStamp \<Rightarrow> TimerQueue \<Rightarrow> TimerQueue" where
  "updateTimerfd expir now q = q\<lparr>timerfd := Some (timespecFromNow expir now, now)\<rparr>"

subsection \<open>The operations\<close>

definition insertTimer :: "addr \<Rightarrow> TimerQueue \<Rightarrow> (bool \<times> TimerQueue) result" where
  "insertTimer p q =
     assert_c (length (timer_tree q) = card (active_timers q))
       (result_bind (deref p q) (\<lambda>timer.
         let when = expiration timer;
             isEarliestTimer = (timer_tree q = [] \<or> when < fst (hd (timer_tree q)))
         in assert_c ((when, p) \<notin> set (timer_tree q))
              (assert_c ((p, sequence timer) \<notin> active_timers q)
                (Inr (isEarliestTimer,
                      q\<lparr>timer_tree := insort (when, p) (timer_tree q),
                        active_timers := insert (p, sequence timer) (active_timers q)\<rparr>)))))"

definition addTimerInLoop :: "addr \<Rightarrow> TimeStamp \<Rightarrow> TimerQueue \<Rightarrow> TimerQueue result" where
  "addTimerInLoop p now q =
     result_bind (insertTimer p q) (\<lambda>(isEarliestTimer, q1).
       if isEarliestTimer
       then result_bind (deref p q1) (\<lambda>timer. Inr (updateTimerfd (expiration timer) now q1))
       else Inr q1)"

text \<open>\<open>addTimer\<close> called in the loop thread: \<open>new Timer\<close>, then \<open>addTimerInLoop\<close> at once.\<close>

definition addTimer ::
  "allocator \<Rightarrow> nat \<Rightarrow> TimeStamp \<Rightarrow> duration \<Rightarrow> TimeStamp \<Rightarrow> TimerQueue \<Rightarrow> (TimerId \<times> TimerQueue) result" where
  "addTimer alloc cb time iv now q =
     (case alloc (heap q) of
        None \<Rightarrow> Inl LengthError
      | Some p \<Rightarrow>
          (let timer = Timer_new cb time iv (numsTimerCreated q);
               q1 = q\<lparr>heap := (heap q)(p \<mapsto> timer), numsTimerCreated := numsTimerCreated q + 1\<rparr>
           in result_bind (addTimerInLoop p now q1) (\<lambda>q2. Inr ((p, sequence timer), q2))))"

definition delTimerInLoop :: "TimerId \<Rightarrow> TimerQueue \<Rightarrow> TimerQueue result" where
  "delTimerInLoop timerId q =
     assert_c (length (timer_tree q) = card (active_timers q))
       (result_bind
         (if timerId \<in> active_timers q
          then result_bind (deref (fst timerId) q) (\<lambda>timer.
                 assert_c ((expiration timer, fst timerId) \<in> set (timer_tree q))
                   (Inr (q\<lparr>timer_tree := remove1 (expiration timer, fst timerId) (timer_tree q),
                           active_timers := active_timers q - {timerId},
                           heap := (heap q)(fst timerId := None)\<rparr>)))
          else if calling_expired_timers q
          then Inr (q\<lparr>deleted_timers := insert timerId (deleted_timers q)\<rparr>)
          else Inr q)
         (\<lambda>q1. assert_c (length (timer_tree q1) = card (active_timers q1)) (Inr q1)))"

text \<open>\<open>delTimer\<close> called in the loop thread.\<close>

definition delTimer :: "TimerId \<Rightarrow> TimerQueue \<Rightarrow> TimerQueue result" where
  [simp]: "delTimer timerId q = delTimerInLoop timerId q"

text \<open>The destructor: the channel leaves the poller, the descriptor is closed, then the timers of the tree are deleted.\<close>

definition delete_timer :: "TimerEntry \<Rightarrow> TimerQueue \<Rightarrow> TimerQueue result" where
  "delete_timer entry q = result_bind (deref (snd entry) q) (\<lambda>_. Inr (q\<lparr>heap := (heap q)(snd entry := None)\<rparr>))"

definition TimerQueue_destroy :: "TimerQueue \<Rightarrow> TimerQueue result" where
  "TimerQueue_destroy q = foldM delete_timer (timer_tree q) (q\<lparr>timerfd := None\<rparr>)"

text \<open>What a user callback does to the queue.\<close>

datatype timer_action =
    AddTimer nat TimeStamp duration TimeStamp   \<comment> \<open>callback, time, interval, clock reading\<close>
  | DelTimer TimerId

fun run_action :: "allocator \<Rightarrow> timer_action \<Rightarrow> TimerQueue \<Rightarrow> TimerQueue result" where
  "run_action alloc (AddTimer cb time iv now) q =
     result_bind (addTimer alloc cb time iv now q) (\<lambda>(_, q1). Inr q1)"
| "run_action alloc (DelTimer timerId) q = delTimer timerId q"

definition Timer_run ::
  "allocator \<Rightarrow> (nat \<Rightarrow> timer_action list) \<Rightarrow> addr \<Rightarrow> TimerQueue \<Rightarrow> TimerQueue result" where
  "Timer_run alloc script p q =
     result_bind (deref p q) (\<lambda>timer. foldM (run_action alloc) (script (callback timer)) q)"

definition getExpired :: "TimeStamp \<Rightarrow> TimerQueue \<Rightarrow> (TimerEntry list \<times> TimerQueue) result" where
  "getExpired now q =
     assert_c (length (timer_tree q) = card (active_timers q))
       (let entryGuard = (now, UINTPTR_MAX);
            expired = takeWhile (\<lambda>e. e < entryGuard) (timer_tree q);
            rest = dropWhile (\<lambda>e. e < entryGuard) (timer_tree q)
        in assert_c (rest = [] \<or> now < fst (hd rest))
          (result_bind
            (foldM (\<lambda>entry q1. result_bind (deref (snd entry) q1) (\<lambda>timer.
                assert_c ((snd entry, sequence timer) \<in> active_timers q1)
                  (Inr (q1\<lparr>active_timers := active_timers q1 - {(snd entry, sequence timer)}\<rparr>))))
              expired (q\<lparr>timer_tree := rest\<rparr>))
            (\<lambda>q2. assert_c (length (timer_tree q2) = card (active_timers q2)) (Inr (expired, q2)))))"

definition resetEntry :: "TimeStamp \<Rightarrow> TimerEntry \<Rightarrow> TimerQueue \<Rightarrow> TimerQueue result" where
  "resetEntry now entry q =
     result_bind (deref (snd entry) q) (\<lambda>timer.
       if repeated timer \<and> (snd entry, sequence timer) \<notin> deleted_timers q
       then result_bind
              (insertTimer (snd entry) (q\<lparr>heap := (heap q)(snd entry \<mapsto> Timer_restart now timer)\<rparr>))
              (\<lambda>(_, q1). Inr q1)
       else Inr (q\<lparr>heap := (heap q)(snd entry := None)\<rparr>))"

definition resetTimer :: "TimerEntry list \<Rightarrow> TimeStamp \<Rightarrow> TimeStamp \<Rightarrow> TimerQueue \<Rightarrow> TimerQueue result" where
  "resetTimer expired now now' q =
     result_bind (foldM (resetEntry now) expired q) (\<lambda>q1.
       if timer_tree q1 \<noteq> []
       then result_bind (deref (snd (hd (timer_tree q1))) q1)
              (\<lambda>timer. Inr (updateTimerfd (expiration timer) now' q1))
       else Inr q1)"

text \<open>\<open>handleRead\<close>: \<open>now\<close> is its own clock reading, \<open>nRead\<close> the result of reading the descriptor, \<open>now'\<close>
  the clock reading of the final re-arming.\<close>

definition TimerQueue_handleRead ::
  "allocator \<Rightarrow> (nat \<Rightarrow> timer_action list) \<Rightarrow> TimeStamp \<Rightarrow> int \<Rightarrow> TimeStamp \<Rightarrow>
    TimerQueue \<Rightarrow> TimerQueue result" where
  "TimerQueue_handleRead alloc script now nRead now' q =
     result_bind (getExpired now (readTimerfd nRead q)) (\<lambda>(expiredTimers, q1).
       result_bind
         (foldM (\<lambda>entry. Timer_run alloc script (snd entry)) expiredTimers
           (q1\<lparr>calling_expired_timers := True, deleted_timers := {}\<rparr>))
         (\<lambda>q2. resetTimer expiredTimers now now' (q2\<lparr>calling_expired_timers := False\<rparr>)))"

subsection \<open>The invariant\<close>

text \<open>\<open>E\<close> is the set of timers that have expired and are held by a running \<open>handleRead\<close>; it is empty
  between events. Every live timer is in the tree or in \<open>E\<close> and not in both, an entry carries the
  expiration of its timer, and \<open>active_timers_\<close> holds exactly the identifiers of the tree.\<close>

definition TQ_inv :: "addr set \<Rightarrow> TimerQueue \<Rightarrow> bool" where
  "TQ_inv E q \<longleftrightarrow>
     sorted_wrt (<) (timer_tree q) \<and>
     (\<forall>e \<in> set (timer_tree q). \<exists>t. heap q (snd e) = Some t \<and> expiration t = fst e) \<and>
     active_timers q = (\<lambda>e. (snd e, sequence (the (heap q (snd e))))) ` set (timer_tree q) \<and>
     dom (heap q) = snd ` set (timer_tree q) \<union> E \<and> snd ` set (timer_tree q) \<inter> E = {} \<and>
     (\<forall>p t. heap q p = Some t \<longrightarrow>
        0 < p \<and> p < UINTPTR_MAX \<and> sequence t < numsTimerCreated q \<and> (repeated t \<longleftrightarrow> 0 < interval t))"


subsection \<open>Facts about the invariant\<close>

lemma TQ_invD:
  assumes "TQ_inv E q"
  shows "sorted_wrt (<) (timer_tree q)"
    and "e \<in> set (timer_tree q) \<Longrightarrow> \<exists>t. heap q (snd e) = Some t \<and> expiration t = fst e"
    and "active_timers q = (\<lambda>e. (snd e, sequence (the (heap q (snd e))))) ` set (timer_tree q)"
    and "dom (heap q) = snd ` set (timer_tree q) \<union> E" and "snd ` set (timer_tree q) \<inter> E = {}"
    and "heap q p = Some t \<Longrightarrow> 0 < p \<and> p < UINTPTR_MAX"
    and "heap q p = Some t \<Longrightarrow> sequence t < numsTimerCreated q"
    and "heap q p = Some t \<Longrightarrow> repeated t \<longleftrightarrow> 0 < interval t"
  using assms by (simp_all add: TQ_inv_def)

lemma TQ_inv_new: "TQ_inv {} TimerQueue_new"
  by (simp add: TQ_inv_def TimerQueue_new_def)

lemma tree_entry_unique:
  assumes "TQ_inv E q" and "e \<in> set (timer_tree q)" and "e' \<in> set (timer_tree q)" and "snd e = snd e'"
  shows "e = e'"
  using TQ_invD(2) [OF assms(1,2)] TQ_invD(2) [OF assms(1,3)] assms(4) by (auto intro: prod_eqI)

lemma TQ_inv_card: "TQ_inv E q \<Longrightarrow> length (timer_tree q) = card (active_timers q)"
proof -
  assume inv: "TQ_inv E q"
  have "inj_on (\<lambda>e. (snd e, sequence (the (heap q (snd e))))) (set (timer_tree q))"
    using tree_entry_unique [OF inv] by (intro inj_onI) simp
  moreover have "distinct (timer_tree q)"
    using TQ_invD(1) [OF inv] by (simp add: strict_sorted_iff)
  ultimately show ?thesis
    by (simp add: TQ_invD(3) [OF inv] card_image distinct_card)
qed

lemma active_timersE:
  assumes "TQ_inv E q" and "timerId \<in> active_timers q"
  obtains t where "heap q (fst timerId) = Some t" and "sequence t = snd timerId"
    and "(expiration t, fst timerId) \<in> set (timer_tree q)" and "fst timerId \<notin> E"
proof -
  from assms(2) obtain e where e: "e \<in> set (timer_tree q)"
    "timerId = (snd e, sequence (the (heap q (snd e))))"
    unfolding TQ_invD(3) [OF assms(1)] by blast
  from TQ_invD(2) [OF assms(1) e(1)] obtain t where "heap q (snd e) = Some t" "expiration t = fst e"
    by blast
  moreover have "snd e \<notin> E"
    using TQ_invD(5) [OF assms(1)] e(1) by auto
  ultimately show ?thesis
    using e that [of t] by (metis fst_conv option.sel prod.collapse snd_conv)
qed

lemma active_timersI:
  assumes "TQ_inv E q" and "e \<in> set (timer_tree q)" and "heap q (snd e) = Some t"
  shows "(snd e, sequence t) \<in> active_timers q"
  unfolding TQ_invD(3) [OF assms(1)] using assms(2,3) by (intro image_eqI [where x = e]) simp_all

lemma deref_Some: "heap q p = Some t \<Longrightarrow> deref p q = Inr t"
  by (simp add: deref_def)

text \<open>\<open>insert\<close> of a held timer into the tree.\<close>

definition queue_with :: "addr \<Rightarrow> Timer \<Rightarrow> TimerQueue \<Rightarrow> TimerQueue" where
  "queue_with p t q =
     q\<lparr>timer_tree := insort (expiration t, p) (timer_tree q),
       active_timers := insert (p, sequence t) (active_timers q)\<rparr>"

lemma insertTimer_ok:
  assumes inv: "TQ_inv E q" and p: "p \<in> E" and t: "heap q p = Some t"
  shows "insertTimer p q =
      Inr (timer_tree q = [] \<or> expiration t < fst (hd (timer_tree q)), queue_with p t q)"
    and "TQ_inv (E - {p}) (queue_with p t q)"
proof -
  have not_tree: "(x, p) \<notin> set (timer_tree q)" for x
    using TQ_invD(5) [OF inv] p by force
  have not_active: "(p, x) \<notin> active_timers q" for x
    using active_timersE [OF inv, of "(p, x)"] p by force
  show "insertTimer p q =
      Inr (timer_tree q = [] \<or> expiration t < fst (hd (timer_tree q)), queue_with p t q)"
    using TQ_inv_card [OF inv] not_tree not_active
    by (simp add: insertTimer_def deref_Some [OF t] Let_def queue_with_def)
  have "sorted_wrt (<) (insort (expiration t, p) (timer_tree q))"
    using TQ_invD(1) [OF inv] not_tree by (simp add: strict_sorted_iff sorted_insort distinct_insort)
  then show "TQ_inv (E - {p}) (queue_with p t q)"
    using inv p t unfolding TQ_inv_def queue_with_def
    by (auto simp: set_insort_key)
qed


subsection \<open>Adding and cancelling\<close>

lemma TQ_inv_timerfd: "TQ_inv E (q\<lparr>timerfd := x\<rparr>) = TQ_inv E q"
  by (simp add: TQ_inv_def)

lemma TQ_inv_updateTimerfd: "TQ_inv E (updateTimerfd w n q) = TQ_inv E q"
  by (simp add: updateTimerfd_def TQ_inv_timerfd)

lemma TQ_inv_flags: "TQ_inv E (q\<lparr>calling_expired_timers := c, deleted_timers := d\<rparr>) = TQ_inv E q"
  "TQ_inv E (q\<lparr>calling_expired_timers := c\<rparr>) = TQ_inv E q"
  "TQ_inv E (q\<lparr>deleted_timers := d\<rparr>) = TQ_inv E q"
  by (simp_all add: TQ_inv_def)

lemmas TQ_inv_frame = TQ_inv_timerfd TQ_inv_updateTimerfd TQ_inv_flags

text \<open>\<open>addTimerInLoop\<close> on a timer that is not yet in the tree.\<close>

definition added :: "addr \<Rightarrow> Timer \<Rightarrow> TimeStamp \<Rightarrow> TimerQueue \<Rightarrow> TimerQueue" where
  "added p t now q =
     (if timer_tree q = [] \<or> expiration t < fst (hd (timer_tree q))
      then updateTimerfd (expiration t) now (queue_with p t q) else queue_with p t q)"

lemma addTimerInLoop_ok:
  assumes "TQ_inv E q" and "p \<in> E" and "heap q p = Some t"
  shows "addTimerInLoop p now q = Inr (added p t now q)" and "TQ_inv (E - {p}) (added p t now q)"
proof -
  have "deref p (queue_with p t q) = Inr t"
    using assms(3) by (simp add: deref_def queue_with_def)
  with insertTimer_ok(1) [OF assms] show "addTimerInLoop p now q = Inr (added p t now q)"
    by (simp add: addTimerInLoop_def added_def)
  from insertTimer_ok(2) [OF assms] show "TQ_inv (E - {p}) (added p t now q)"
    by (simp add: added_def TQ_inv_frame)
qed

text \<open>The queue with a freshly allocated timer, held.\<close>

definition allocated :: "addr \<Rightarrow> Timer \<Rightarrow> TimerQueue \<Rightarrow> TimerQueue" where
  "allocated p t q = q\<lparr>heap := (heap q)(p \<mapsto> t), numsTimerCreated := numsTimerCreated q + 1\<rparr>"

lemma TQ_inv_allocated:
  assumes inv: "TQ_inv E q" and fresh: "heap q p = None" and p: "0 < p" "p < UINTPTR_MAX"
  shows "TQ_inv (insert p E) (allocated p (Timer_new cb time iv (numsTimerCreated q)) q)"
proof -
  have notin: "p \<notin> snd ` set (timer_tree q)" and notE: "p \<notin> E"
    using fresh TQ_invD(4) [OF inv] by auto
  have heap_tree: "((heap q)(p \<mapsto> t)) (snd e) = heap q (snd e)" if "e \<in> set (timer_tree q)" for e t
    using that notin by auto
  have "sequence t < numsTimerCreated q + 1" if "heap q p' = Some t" for p' t
    using TQ_invD(7) [OF inv that] by simp
  then show ?thesis
    using inv notin notE p heap_tree unfolding TQ_inv_def allocated_def
    by (auto simp: Timer_new_def)
qed

lemma addTimer_ok:
  assumes inv: "TQ_inv E q" and alloc: "alloc_spec alloc" and p: "alloc (heap q) = Some p"
    and t_def: "t = Timer_new cb time iv (numsTimerCreated q)"
  shows "addTimer alloc cb time iv now q = Inr ((p, sequence t), added p t now (allocated p t q))"
    and "TQ_inv E (added p t now (allocated p t q))" and "heap q p = None"
proof -
  from alloc p have fresh: "heap q p = None" "0 < p" "p < UINTPTR_MAX"
    by (auto simp: alloc_spec_def)
  note inv' = TQ_inv_allocated [OF inv fresh, of cb time iv, folded t_def]
  have h: "heap (allocated p t q) p = Some t"
    by (simp add: allocated_def)
  have "p \<notin> E"
    using fresh(1) TQ_invD(4) [OF inv] by auto
  then have E: "insert p E - {p} = E" by simp
  show "addTimer alloc cb time iv now q = Inr ((p, sequence t), added p t now (allocated p t q))"
    using addTimerInLoop_ok(1) [OF inv' insertI1 h, of now] p
    by (simp add: addTimer_def t_def allocated_def Let_def)
  show "TQ_inv E (added p t now (allocated p t q))"
    using addTimerInLoop_ok(2) [OF inv' insertI1 h, of now] E by simp
  show "heap q p = None" by (rule fresh(1))
qed

text \<open>Cancelling an active timer removes and frees it; any other identifier is remembered while
  the callbacks run.\<close>

definition removed :: "addr \<Rightarrow> Timer \<Rightarrow> TimerQueue \<Rightarrow> TimerQueue" where
  "removed p t q =
     q\<lparr>timer_tree := remove1 (expiration t, p) (timer_tree q),
       active_timers := active_timers q - {(p, sequence t)}, heap := (heap q)(p := None)\<rparr>"

lemma TQ_inv_removed:
  assumes inv: "TQ_inv E q" and t: "heap q p = Some t" and e: "(expiration t, p) \<in> set (timer_tree q)"
  shows "TQ_inv E (removed p t q)"
proof -
  let ?T = "set (timer_tree q)" and ?e = "(expiration t, p)"
  have sd: "sorted (timer_tree q)" "distinct (timer_tree q)"
    using TQ_invD(1) [OF inv] by (simp_all add: strict_sorted_iff)
  then have T': "set (remove1 ?e (timer_tree q)) = ?T - {?e}"
    by (simp add: set_remove1_eq)
  have other: "snd e' \<noteq> p" if "e' \<in> ?T - {?e}" for e'
    using tree_entry_unique [OF inv, of e' ?e] that e by auto
  have act: "active_timers (removed p t q) =
      (\<lambda>e. (snd e, sequence (the (heap (removed p t q) (snd e))))) ` (?T - {?e})"
    using TQ_invD(3) [OF inv] t e other by (auto simp: removed_def image_iff)
  have dom: "dom ((heap q)(p := None)) = snd ` (?T - {?e}) \<union> E" and disj: "snd ` (?T - {?e}) \<inter> E = {}"
    using TQ_invD(4,5) [OF inv] e other by force+
  show ?thesis
    unfolding TQ_inv_def
  proof (intro conjI)
    show "sorted_wrt (<) (timer_tree (removed p t q))"
      using sd by (simp add: removed_def strict_sorted_iff sorted_remove1)
    show "\<forall>e'\<in>set (timer_tree (removed p t q)).
        \<exists>t'. heap (removed p t q) (snd e') = Some t' \<and> expiration t' = fst e'"
      using TQ_invD(2) [OF inv] other by (simp add: removed_def T')
    show "active_timers (removed p t q) =
        (\<lambda>e. (snd e, sequence (the (heap (removed p t q) (snd e))))) ` set (timer_tree (removed p t q))"
      using act by (simp add: removed_def T')
    show "dom (heap (removed p t q)) = snd ` set (timer_tree (removed p t q)) \<union> E"
      and "snd ` set (timer_tree (removed p t q)) \<inter> E = {}"
      using dom disj by (simp_all add: removed_def T')
    show "\<forall>p' t'. heap (removed p t q) p' = Some t' \<longrightarrow>
        0 < p' \<and> p' < UINTPTR_MAX \<and> sequence t' < numsTimerCreated (removed p t q) \<and>
        (repeated t' \<longleftrightarrow> 0 < interval t')"
      using TQ_invD(6-8) [OF inv] by (auto simp: removed_def)
  qed
qed

lemma delTimerInLoop_active:
  assumes inv: "TQ_inv E q" and act: "timerId \<in> active_timers q"
  obtains t where "heap q (fst timerId) = Some t" and "sequence t = snd timerId"
    and "(expiration t, fst timerId) \<in> set (timer_tree q)" and "fst timerId \<notin> E"
    and "delTimerInLoop timerId q = Inr (removed (fst timerId) t q)"
    and "TQ_inv E (removed (fst timerId) t q)"
proof -
  from active_timersE [OF assms] obtain t
    where t: "heap q (fst timerId) = Some t" "sequence t = snd timerId"
      "(expiration t, fst timerId) \<in> set (timer_tree q)" "fst timerId \<notin> E" by blast
  note inv' = TQ_inv_removed [OF inv t(1,3)]
  have "(fst timerId, sequence t) = timerId" using t(2) by simp
  then have "delTimerInLoop timerId q = Inr (removed (fst timerId) t q)"
    using act t(1,3) TQ_inv_card [OF inv] TQ_inv_card [OF inv']
    by (simp add: delTimerInLoop_def deref_Some removed_def)
  with t inv' that show ?thesis by blast
qed

lemma delTimerInLoop_inactive:
  assumes "TQ_inv E q" and "timerId \<notin> active_timers q"
  shows "delTimerInLoop timerId q =
    Inr (if calling_expired_timers q
         then q\<lparr>deleted_timers := insert timerId (deleted_timers q)\<rparr> else q)"
  using assms(2) TQ_inv_card [OF assms(1)] by (simp add: delTimerInLoop_def)


subsection \<open>Expired timers\<close>

lemma entry_less_guard:
  fixes e :: TimerEntry
  assumes "snd e < UINTPTR_MAX"
  shows "e < (now, UINTPTR_MAX) \<longleftrightarrow> fst e \<le> now"
  using assms by (cases e) (auto simp: less_prod_def)

lemma tree_split:
  assumes inv: "TQ_inv E q"
  shows "takeWhile (\<lambda>e. e < (now, UINTPTR_MAX)) (timer_tree q) = filter (\<lambda>e. fst e \<le> now) (timer_tree q)"
    and "dropWhile (\<lambda>e. e < (now, UINTPTR_MAX)) (timer_tree q) = filter (\<lambda>e. now < fst e) (timer_tree q)"
proof -
  have "snd e < UINTPTR_MAX" if "e \<in> set (timer_tree q)" for e
    using TQ_invD(2) [OF inv that] TQ_invD(6) [OF inv] by blast
  then have guard: "e < (now, UINTPTR_MAX) \<longleftrightarrow> fst e \<le> now" if "e \<in> set (timer_tree q)" for e
    using that entry_less_guard by blast
  have closed: "fst x \<le> now" if "x < y" "fst y \<le> now" for x y :: TimerEntry
    using that by (cases x, cases y) auto
  have eqs: "takeWhile (\<lambda>e. e < (now, UINTPTR_MAX)) (timer_tree q) = takeWhile (\<lambda>e. fst e \<le> now) (timer_tree q)"
    "dropWhile (\<lambda>e. e < (now, UINTPTR_MAX)) (timer_tree q) = dropWhile (\<lambda>e. fst e \<le> now) (timer_tree q)"
    using guard by (simp_all cong: takeWhile_cong dropWhile_cong)
  show "takeWhile (\<lambda>e. e < (now, UINTPTR_MAX)) (timer_tree q) = filter (\<lambda>e. fst e \<le> now) (timer_tree q)"
    unfolding eqs using TQ_invD(1) [OF inv] closed by (rule takeWhile_sorted_filter(1)) auto
  show "dropWhile (\<lambda>e. e < (now, UINTPTR_MAX)) (timer_tree q) = filter (\<lambda>e. now < fst e) (timer_tree q)"
    unfolding eqs using takeWhile_sorted_filter(2) [OF TQ_invD(1) [OF inv], of "\<lambda>e. fst e \<le> now"] closed
    by (auto simp: not_le)
qed

lemma deactivate_fold:
  assumes "\<forall>e\<in>set ex. \<exists>t. heap q (snd e) = Some t \<and> (snd e, sequence t) \<in> active_timers q"
    and "distinct (map snd ex)"
  shows "foldM (\<lambda>entry q1. result_bind (deref (snd entry) q1) (\<lambda>timer.
             assert_c ((snd entry, sequence timer) \<in> active_timers q1)
               (Inr (q1\<lparr>active_timers := active_timers q1 - {(snd entry, sequence timer)}\<rparr>)))) ex q =
         Inr (q\<lparr>active_timers :=
           active_timers q - (\<lambda>e. (snd e, sequence (the (heap q (snd e))))) ` set ex\<rparr>)"
  using assms
proof (induction ex arbitrary: q)
  case Nil
  then show ?case by simp
next
  case (Cons e ex)
  from Cons.prems(1) obtain t where t: "heap q (snd e) = Some t" "(snd e, sequence t) \<in> active_timers q"
    by auto
  let ?q = "q\<lparr>active_timers := active_timers q - {(snd e, sequence t)}\<rparr>"
  have "\<forall>e\<in>set ex. \<exists>t. heap ?q (snd e) = Some t \<and> (snd e, sequence t) \<in> active_timers ?q"
  proof
    fix e' assume "e' \<in> set ex"
    with Cons.prems(2) have "snd e' \<noteq> snd e" by (auto simp: image_iff)
    moreover from \<open>e' \<in> set ex\<close> Cons.prems(1)
    have "\<exists>t. heap q (snd e') = Some t \<and> (snd e', sequence t) \<in> active_timers q" by simp
    ultimately show "\<exists>t. heap ?q (snd e') = Some t \<and> (snd e', sequence t) \<in> active_timers ?q" by auto
  qed
  with Cons t show ?case by (simp add: deref_Some Diff_insert2 [symmetric])
qed

definition expire :: "TimeStamp \<Rightarrow> TimerQueue \<Rightarrow> TimerQueue" where
  "expire now q =
     (let rest = filter (\<lambda>e. now < fst e) (timer_tree q)
      in q\<lparr>timer_tree := rest,
           active_timers := (\<lambda>e. (snd e, sequence (the (heap q (snd e))))) ` set rest\<rparr>)"

lemma getExpired_ok:
  assumes inv: "TQ_inv {} q" and ex_def: "ex = filter (\<lambda>e. fst e \<le> now) (timer_tree q)"
  shows "getExpired now q = Inr (ex, expire now q)" and "TQ_inv (snd ` set ex) (expire now q)"
    and "distinct (map snd ex)"
proof -
  let ?id = "\<lambda>e. (snd e, sequence (the (heap q (snd e))))"
  let ?rest = "filter (\<lambda>e. now < fst e) (timer_tree q)"
  have T: "set (timer_tree q) = set ex \<union> set ?rest" and disj: "set ex \<inter> set ?rest = {}"
    by (auto simp: ex_def)
  have inj: "inj_on snd (set (timer_tree q))"
    using tree_entry_unique [OF inv] by (intro inj_onI) auto
  have "distinct ex"
    using TQ_invD(1) [OF inv] by (simp add: strict_sorted_iff ex_def)
  moreover have "inj_on snd (set ex)"
    using inj by (rule inj_on_subset) (auto simp: ex_def)
  ultimately show dist: "distinct (map snd ex)"
    by (simp add: distinct_map)
  have "inj_on ?id (set (timer_tree q))"
    using inj by (auto simp: inj_on_def)
  then have "?id ` (set (timer_tree q) - set ex) = ?id ` set (timer_tree q) - ?id ` set ex"
    by (rule inj_on_image_set_diff) (auto simp: ex_def)
  moreover have "set (timer_tree q) - set ex = set ?rest" using T disj by blast
  ultimately have act: "active_timers q - ?id ` set ex = ?id ` set ?rest"
    by (simp add: TQ_invD(3) [OF inv])
  show invE: "TQ_inv (snd ` set ex) (expire now q)"
  proof -
    have "sorted_wrt (<) ?rest" using TQ_invD(1) [OF inv] by (rule sorted_wrt_filter)
    moreover have "dom (heap q) = snd ` set ?rest \<union> snd ` set ex"
      unfolding TQ_invD(4) [OF inv] T by blast
    moreover have "snd x \<noteq> snd y" if "x \<in> set ?rest" "y \<in> set ex" for x y
      using tree_entry_unique [OF inv, of x y] that by (auto simp: ex_def)
    then have "snd ` set ?rest \<inter> snd ` set ex = {}" by blast
    ultimately show ?thesis
      using TQ_invD(2,6-8) [OF inv] unfolding TQ_inv_def expire_def by (auto simp: Let_def)
  qed
  have "\<forall>e\<in>set ex. \<exists>t. heap q (snd e) = Some t \<and> (snd e, sequence t) \<in> active_timers q"
  proof
    fix e assume "e \<in> set ex"
    then have e: "e \<in> set (timer_tree q)" by (simp add: ex_def)
    from TQ_invD(2) [OF inv e] obtain t where "heap q (snd e) = Some t" by blast
    with active_timersI [OF inv e this]
    show "\<exists>t. heap q (snd e) = Some t \<and> (snd e, sequence t) \<in> active_timers q" by blast
  qed
  then have "\<forall>e\<in>set ex. \<exists>t. heap (q\<lparr>timer_tree := ?rest\<rparr>) (snd e) = Some t \<and>
      (snd e, sequence t) \<in> active_timers (q\<lparr>timer_tree := ?rest\<rparr>)" by simp
  from deactivate_fold [OF this dist] have fold:
    "foldM (\<lambda>entry q1. result_bind (deref (snd entry) q1) (\<lambda>timer.
       assert_c ((snd entry, sequence timer) \<in> active_timers q1)
         (Inr (q1\<lparr>active_timers := active_timers q1 - {(snd entry, sequence timer)}\<rparr>)))) ex
       (q\<lparr>timer_tree := ?rest\<rparr>) = Inr (expire now q)"
    by (simp add: act expire_def Let_def)
  have "?rest = [] \<or> now < fst (hd ?rest)"
    using hd_in_set [of ?rest] by auto
  with fold show "getExpired now q = Inr (ex, expire now q)"
    using TQ_inv_card [OF inv] TQ_inv_card [OF invE]
    unfolding getExpired_def Let_def tree_split [OF inv] ex_def [symmetric] by simp
qed


subsection \<open>User callbacks\<close>

text \<open>While the callbacks of the expired timers \<open>E\<close> run, those timers stay allocated and unchanged
  (\<open>h\<close> is the heap before), and \<open>D\<close> is what \<open>deleted_timers_\<close> says of them.\<close>

definition calling :: "addr set \<Rightarrow> (addr \<rightharpoonup> Timer) \<Rightarrow> TimerId set \<Rightarrow> TimerQueue \<Rightarrow> bool" where
  "calling E h D q \<longleftrightarrow>
     TQ_inv E q \<and> calling_expired_timers q \<and> {i \<in> deleted_timers q. fst i \<in> E} = D \<and> (\<forall>p\<in>E. heap q p = h p)"

definition cancels :: "timer_action list \<Rightarrow> TimerId set" where
  "cancels acts = {timerId. DelTimer timerId \<in> set acts}"

lemma added_fields:
  "heap (added p t now q) = heap q" "deleted_timers (added p t now q) = deleted_timers q"
  "calling_expired_timers (added p t now q) = calling_expired_timers q"
  "timer_tree (added p t now q) = insort (expiration t, p) (timer_tree q)"
  by (simp_all add: added_def queue_with_def updateTimerfd_def)

lemma allocated_fields:
  "heap (allocated p t q) = (heap q)(p \<mapsto> t)" "deleted_timers (allocated p t q) = deleted_timers q"
  "calling_expired_timers (allocated p t q) = calling_expired_timers q"
  "timer_tree (allocated p t q) = timer_tree q" "timerfd (allocated p t q) = timerfd q"
  by (simp_all add: allocated_def)

lemma removed_fields:
  "heap (removed p t q) = (heap q)(p := None)" "deleted_timers (removed p t q) = deleted_timers q"
  "calling_expired_timers (removed p t q) = calling_expired_timers q"
  "timer_tree (removed p t q) = remove1 (expiration t, p) (timer_tree q)"
  "timerfd (removed p t q) = timerfd q"
  by (simp_all add: removed_def)

lemmas queue_fields = added_fields allocated_fields removed_fields

lemma run_action_calling:
  assumes alloc: "alloc_spec alloc" and q: "calling E h D q"
  shows "yields {LengthError} (calling E h (D \<union> {i \<in> cancels [act]. fst i \<in> E})) (run_action alloc act q)"
proof -
  from q have inv: "TQ_inv E q" and rest: "calling_expired_timers q" "{i \<in> deleted_timers q. fst i \<in> E} = D"
    "\<forall>p\<in>E. heap q p = h p" by (simp_all add: calling_def)
  show ?thesis
  proof (cases act)
    case (AddTimer cb time iv now)
    show ?thesis
    proof (cases "alloc (heap q)")
      case None
      with AddTimer show ?thesis by (simp add: addTimer_def)
    next
      case (Some p)
      note add = addTimer_ok [OF inv alloc Some, where cb = cb and time = time and iv = iv, OF refl]
      have "p \<notin> E" using add(3) TQ_invD(4) [OF inv] by auto
      with add(1,2) rest AddTimer show ?thesis
        by (auto simp: calling_def cancels_def queue_fields)
    qed
  next
    case (DelTimer i)
    show ?thesis
    proof (cases "i \<in> active_timers q")
      case True
      obtain t where del: "fst i \<notin> E" "delTimerInLoop i q = Inr (removed (fst i) t q)"
          "TQ_inv E (removed (fst i) t q)"
        by (rule delTimerInLoop_active [OF inv True])
      have "calling E h D (removed (fst i) t q)"
        unfolding calling_def using del rest by (simp add: queue_fields)
      moreover have "D \<union> {i' \<in> cancels [act]. fst i' \<in> E} = D"
        using del(1) by (auto simp: cancels_def DelTimer)
      ultimately show ?thesis using del(2) unfolding DelTimer by simp
    next
      case False
      with delTimerInLoop_inactive [OF inv False] inv rest DelTimer show ?thesis
        by (auto simp: calling_def cancels_def TQ_inv_frame)
    qed
  qed
qed

lemma run_actions_calling:
  assumes "alloc_spec alloc" and "calling E h D q"
  shows "yields {LengthError} (calling E h (D \<union> {i \<in> cancels acts. fst i \<in> E}))
           (foldM (run_action alloc) acts q)"
  using assms(2)
proof (induction acts arbitrary: D q)
  case Nil
  then show ?case by (simp add: cancels_def)
next
  case (Cons a acts)
  have "D \<union> {i \<in> cancels (a # acts). fst i \<in> E} =
      (D \<union> {i \<in> cancels [a]. fst i \<in> E}) \<union> {i \<in> cancels acts. fst i \<in> E}"
    by (auto simp: cancels_def)
  then show ?case
    using yields_bind [OF run_action_calling [OF assms(1) Cons.prems, of a] Cons.IH] by simp
qed

text \<open>The identifiers that the callbacks of a batch cancel.\<close>

definition batch_cancels :: "(nat \<Rightarrow> timer_action list) \<Rightarrow> (addr \<rightharpoonup> Timer) \<Rightarrow> TimerEntry list \<Rightarrow> TimerId set" where
  "batch_cancels script h ex = (\<Union>e\<in>set ex. cancels (script (callback (the (h (snd e))))))"

lemma callbacks_calling:
  assumes alloc: "alloc_spec alloc" and q: "calling E h D q"
    and ex: "\<forall>e\<in>set ex. snd e \<in> E"
  shows "yields {LengthError} (calling E h (D \<union> {i \<in> batch_cancels script h ex. fst i \<in> E}))
           (foldM (\<lambda>e. Timer_run alloc script (snd e)) ex q)"
  using q ex
proof (induction ex arbitrary: D q)
  case Nil
  then show ?case by (simp add: batch_cancels_def)
next
  case (Cons e ex)
  from Cons.prems have inv: "TQ_inv E q" and e: "snd e \<in> E" and same: "heap q (snd e) = h (snd e)"
    by (simp_all add: calling_def)
  from e TQ_invD(4) [OF inv] obtain t where t: "heap q (snd e) = Some t" by blast
  have U: "D \<union> {i \<in> batch_cancels script h (e # ex). fst i \<in> E} =
      (D \<union> {i \<in> cancels (script (callback t)). fst i \<in> E}) \<union> {i \<in> batch_cancels script h ex. fst i \<in> E}"
    using t same by (auto simp: batch_cancels_def)
  show ?case
    using yields_bind [OF run_actions_calling [OF alloc Cons.prems(1), of "script (callback t)"] Cons.IH]
      Cons.prems(2) t unfolding U by (simp add: Timer_run_def deref_Some)
qed

subsection \<open>Restarting and freeing\<close>

text \<open>What \<open>resetTimer\<close> makes of an expired timer: restarted, or freed (\<open>None\<close>).\<close>

definition reset_result :: "TimeStamp \<Rightarrow> TimerId set \<Rightarrow> addr \<Rightarrow> Timer option \<Rightarrow> Timer option" where
  "reset_result now D p ot =
     (case ot of None \<Rightarrow> None
      | Some t \<Rightarrow> if repeated t \<and> (p, sequence t) \<notin> D then Some (Timer_restart now t) else None)"

lemma reset_result_cong:
  assumes "{i \<in> D. fst i \<in> E} = {i \<in> D'. fst i \<in> E}" and "p \<in> E"
  shows "reset_result now D p x = reset_result now D' p x"
proof -
  have "(p, s) \<in> D \<longleftrightarrow> (p, s) \<in> D'" for s using assms by (auto simp: set_eq_iff)
  then show ?thesis by (cases x) (simp_all add: reset_result_def)
qed

lemma TQ_inv_restart:
  assumes inv: "TQ_inv E q" and p: "p \<in> E" and t: "heap q p = Some t"
  shows "TQ_inv E (q\<lparr>heap := (heap q)(p \<mapsto> Timer_restart now t)\<rparr>)"
proof -
  have p_tree: "p \<notin> snd ` set (timer_tree q)" using p TQ_invD(5) [OF inv] by blast
  then have other: "((heap q)(p \<mapsto> x)) (snd e) = heap q (snd e)" if "e \<in> set (timer_tree q)" for e x
    using that by auto
  have r: "sequence (Timer_restart now t) = sequence t" "repeated (Timer_restart now t) = repeated t"
    "interval (Timer_restart now t) = interval t" by (simp_all add: Timer_restart_def)
  show ?thesis
    using inv other p t r unfolding TQ_inv_def by (auto simp: dom_def)
qed

lemma TQ_inv_free:
  assumes inv: "TQ_inv E q" and p: "p \<in> E"
  shows "TQ_inv (E - {p}) (q\<lparr>heap := (heap q)(p := None)\<rparr>)"
proof -
  have p_tree: "p \<notin> snd ` set (timer_tree q)" using p TQ_invD(5) [OF inv] by blast
  then have other: "((heap q)(p := None)) (snd e) = heap q (snd e)" if "e \<in> set (timer_tree q)" for e
    using that by auto
  show ?thesis
    using inv other p_tree unfolding TQ_inv_def by auto
qed

lemma resetEntry_ok:
  assumes inv: "TQ_inv E q" and p: "snd e \<in> E"
  shows "\<exists>q'. resetEntry now e q = Inr q' \<and> TQ_inv (E - {snd e}) q' \<and>
           deleted_timers q' = deleted_timers q \<and> timerfd q' = timerfd q \<and>
           heap q' = (heap q)(snd e := reset_result now (deleted_timers q) (snd e) (heap q (snd e)))"
proof -
  from p TQ_invD(4) [OF inv] obtain t where t: "heap q (snd e) = Some t" by blast
  show ?thesis
  proof (cases "repeated t \<and> (snd e, sequence t) \<notin> deleted_timers q")
    case True
    let ?q = "q\<lparr>heap := (heap q)(snd e \<mapsto> Timer_restart now t)\<rparr>"
    have "heap ?q (snd e) = Some (Timer_restart now t)" by simp
    note ins = insertTimer_ok [OF TQ_inv_restart [OF inv p t] p this]
    from True t ins show ?thesis
      by (auto simp: resetEntry_def deref_Some queue_with_def reset_result_def)
  next
    case False
    with t TQ_inv_free [OF inv p] show ?thesis
      by (auto simp: resetEntry_def deref_Some reset_result_def)
  qed
qed

lemma resetEntries_ok:
  assumes "TQ_inv (snd ` set ex) q" and "distinct (map snd ex)"
  shows "\<exists>q'. foldM (resetEntry now) ex q = Inr q' \<and> TQ_inv {} q' \<and>
           deleted_timers q' = deleted_timers q \<and> timerfd q' = timerfd q \<and>
           (\<forall>p. heap q' p =
              (if p \<in> snd ` set ex then reset_result now (deleted_timers q) p (heap q p) else heap q p))"
  using assms
proof (induction ex arbitrary: q)
  case Nil
  then show ?case by simp
next
  case (Cons e ex)
  from resetEntry_ok [OF Cons.prems(1), of e now] obtain q1
    where q1: "resetEntry now e q = Inr q1" "TQ_inv (snd ` set (e # ex) - {snd e}) q1"
      "deleted_timers q1 = deleted_timers q" "timerfd q1 = timerfd q"
      "heap q1 = (heap q)(snd e := reset_result now (deleted_timers q) (snd e) (heap q (snd e)))" by auto
  have E: "snd ` set (e # ex) - {snd e} = snd ` set ex" and e: "snd e \<notin> snd ` set ex"
    and d: "distinct (map snd ex)"
    using Cons.prems(2) by auto
  from Cons.IH [OF q1(2) [unfolded E] d] q1 e show ?case by (auto split: if_splits)
qed


subsection \<open>The whole event handler\<close>

lemma resetTimer_ok:
  assumes inv: "TQ_inv (snd ` set ex) q" and d: "distinct (map snd ex)"
  shows "\<exists>q'. resetTimer ex now now' q = Inr q' \<and> TQ_inv {} q' \<and> deleted_timers q' = deleted_timers q \<and>
           (timer_tree q' \<noteq> [] \<longrightarrow> timerfd q' = Some (timespecFromNow (fst (hd (timer_tree q'))) now', now')) \<and>
           (\<forall>p. heap q' p =
              (if p \<in> snd ` set ex then reset_result now (deleted_timers q) p (heap q p) else heap q p))"
proof -
  from resetEntries_ok [OF inv d, of now] obtain q1
    where q1: "foldM (resetEntry now) ex q = Inr q1" "TQ_inv {} q1"
      "deleted_timers q1 = deleted_timers q"
      "\<forall>p. heap q1 p = (if p \<in> snd ` set ex then reset_result now (deleted_timers q) p (heap q p) else heap q p)"
    by blast
  show ?thesis
  proof (cases "timer_tree q1 = []")
    case True
    with q1 show ?thesis by (simp add: resetTimer_def)
  next
    case False
    then have "hd (timer_tree q1) \<in> set (timer_tree q1)" by simp
    from TQ_invD(2) [OF q1(2) this] obtain t
      where "heap q1 (snd (hd (timer_tree q1))) = Some t" "expiration t = fst (hd (timer_tree q1))" by blast
    with False q1 show ?thesis
      by (simp add: resetTimer_def deref_Some TQ_inv_frame, simp add: updateTimerfd_def)
  qed
qed

lemma readTimerfd_fields [simp]:
  "timer_tree (readTimerfd n q) = timer_tree q" "heap (readTimerfd n q) = heap q"
  "TQ_inv E (readTimerfd n q) = TQ_inv E q"
  by (simp_all add: readTimerfd_def TQ_inv_frame)

text \<open>What holds after an event: \<open>ex\<close> is the batch of expired timers, \<open>h\<close> the heap before.\<close>

definition handled :: "(nat \<Rightarrow> timer_action list) \<Rightarrow> TimeStamp \<Rightarrow> TimeStamp \<Rightarrow> TimerEntry list \<Rightarrow>
    (addr \<rightharpoonup> Timer) \<Rightarrow> TimerQueue \<Rightarrow> bool" where
  "handled script now now' ex h q \<longleftrightarrow>
     TQ_inv {} q \<and>
     (\<forall>p \<in> snd ` set ex. heap q p = reset_result now (batch_cancels script h ex) p (h p)) \<and>
     (timer_tree q \<noteq> [] \<longrightarrow> timerfd q = Some (timespecFromNow (fst (hd (timer_tree q))) now', now'))"

lemma handleRead_handled:
  assumes inv: "TQ_inv {} q" and alloc: "alloc_spec alloc"
    and ex_def: "ex = filter (\<lambda>e. fst e \<le> now) (timer_tree q)"
  shows "yields {LengthError} (handled script now now' ex (heap q))
           (TimerQueue_handleRead alloc script now nRead now' q)"
proof -
  let ?E = "snd ` set ex" and ?q0 = "readTimerfd nRead q"
  let ?D = "{i \<in> batch_cancels script (heap q) ex. fst i \<in> ?E}"
  have inv0: "TQ_inv {} ?q0" and ex0: "ex = filter (\<lambda>e. fst e \<le> now) (timer_tree ?q0)"
    using inv ex_def by simp_all
  note ge = getExpired_ok [OF inv0 ex0]
  have fields: "heap (expire now ?q0) = heap q" by (simp add: expire_def Let_def)
  let ?q1 = "expire now ?q0\<lparr>calling_expired_timers := True, deleted_timers := {}\<rparr>"
  have call: "calling ?E (heap q) {} ?q1"
    using ge(2) by (simp add: calling_def TQ_inv_frame fields)
  have "yields {LengthError} (calling ?E (heap q) ({} \<union> ?D))
      (foldM (\<lambda>e. Timer_run alloc script (snd e)) ex ?q1)"
    by (rule callbacks_calling [OF alloc call]) simp
  then have "yields {LengthError} (handled script now now' ex (heap q))
      (result_bind (foldM (\<lambda>e. Timer_run alloc script (snd e)) ex ?q1)
        (\<lambda>q2. resetTimer ex now now' (q2\<lparr>calling_expired_timers := False\<rparr>)))"
  proof (rule yields_bind)
    fix q2 assume "calling ?E (heap q) ({} \<union> ?D) q2"
    then have c: "TQ_inv ?E (q2\<lparr>calling_expired_timers := False\<rparr>)" "{i \<in> deleted_timers q2. fst i \<in> ?E} = ?D"
      "\<forall>p\<in>?E. heap q2 p = heap q p" by (simp_all add: calling_def TQ_inv_frame)
    have "reset_result now (deleted_timers q2) p x = reset_result now (batch_cancels script (heap q) ex) p x"
      if "p \<in> ?E" for p x
      by (rule reset_result_cong [OF c(2) that])
    with resetTimer_ok [OF c(1) ge(3), of now now'] c(3)
    show "yields {LengthError} (handled script now now' ex (heap q))
        (resetTimer ex now now' (q2\<lparr>calling_expired_timers := False\<rparr>))"
      by (auto simp: handled_def)
  qed
  with ge(1) show ?thesis by (simp add: TimerQueue_handleRead_def)
qed


subsection \<open>Arming\<close>

definition timespec_ns :: "timespec \<Rightarrow> int" where
  "timespec_ns ts = 1000000000 * ts_sec ts + ts_nsec ts"

lemma timespecFromNow_ns:
  "timespec_ns (timespecFromNow when now) = (if now < when then 1000 * (when - now) else 100)"
proof (cases "now < when")
  case True
  let ?d = "when - now"
  have "0 \<le> ?d sdiv 1000000" "0 \<le> ?d smod 1000000" and split: "?d sdiv 1000000 * 1000000 + ?d smod 1000000 = ?d"
    using True sdiv_million_sign(1) [of ?d] smod_million_bounds(2) [of ?d] sdiv_smod_million [of ?d] by auto
  moreover have "\<not> (?d sdiv 1000000 = 0 \<and> ?d smod 1000000 * 1000 < 100)"
    using split True by auto
  ultimately show ?thesis
    using True by (auto simp: timespec_ns_def timespecFromNow_def to_timespec_def Let_def
        TimeStamp_diff_def kSecondToMicroseconds_def)
next
  case False
  let ?d = "when - now"
  have "?d sdiv 1000000 \<le> 0" "?d smod 1000000 \<le> 0"
    using False sdiv_million_sign(2) [of ?d] smod_million_bounds(3) [of ?d] by auto
  with False show ?thesis
    by (auto simp: timespec_ns_def timespecFromNow_def to_timespec_def Let_def
        TimeStamp_diff_def kSecondToMicroseconds_def)
qed

text \<open>The descriptor fires no later than the earliest timer is due, or 0.1 microseconds after the
  clock reading when that time has passed.\<close>

definition armed :: "TimerQueue \<Rightarrow> bool" where
  "armed q \<longleftrightarrow> timer_tree q = [] \<or>
     (\<exists>ts t0. timerfd q = Some (ts, t0) \<and> 0 < timespec_ns ts \<and>
        1000 * t0 + timespec_ns ts \<le> max (1000 * fst (hd (timer_tree q))) (1000 * t0 + 100))"

lemma armed_now:
  "timerfd q = Some (timespecFromNow w now, now) \<Longrightarrow> w \<le> fst (hd (timer_tree q)) \<Longrightarrow> armed q"
  by (auto simp: armed_def timespecFromNow_ns)

lemma armed_later:
  assumes "armed q" and "timer_tree q \<noteq> []" and "timerfd q' = timerfd q"
    and "timer_tree q' \<noteq> [] \<Longrightarrow> fst (hd (timer_tree q)) \<le> fst (hd (timer_tree q'))"
  shows "armed q'"
  using assms unfolding armed_def by (cases "timer_tree q' = []") force+

lemma fst_hd_insort:
  fixes e :: TimerEntry
  shows "fst (hd (insort e xs)) = (if xs = [] then fst e else min (fst e) (fst (hd xs)))"
  by (cases xs) (auto simp: less_eq_prod_def min_def)

lemma armed_added:
  assumes "armed q"
  shows "armed (added p t now (allocated p t q))"
proof (cases "timer_tree q = [] \<or> expiration t < fst (hd (timer_tree q))")
  case True
  then have "timerfd (added p t now (allocated p t q)) = Some (timespecFromNow (expiration t) now, now)"
    by (auto simp: added_def allocated_def updateTimerfd_def)
  then show ?thesis using True by (auto intro!: armed_now simp: queue_fields fst_hd_insort)
next
  case False
  have "timerfd (added p t now (allocated p t q)) = timerfd q"
    using False by (simp add: added_def allocated_def queue_with_def)
  with assms False show ?thesis
    by (elim armed_later) (auto simp: queue_fields fst_hd_insort)
qed

lemma armed_removed:
  assumes inv: "TQ_inv E q" and "armed q" and e: "(expiration t, p) \<in> set (timer_tree q)"
  shows "armed (removed p t q)"
proof (rule armed_later [OF \<open>armed q\<close>])
  show "timer_tree q \<noteq> []" using e by auto
  show "timerfd (removed p t q) = timerfd q" by (simp add: queue_fields)
  assume "timer_tree (removed p t q) \<noteq> []"
  then have "hd (timer_tree (removed p t q)) \<in> set (timer_tree (removed p t q))" by simp
  then have "hd (timer_tree (removed p t q)) \<in> set (timer_tree q)"
    by (simp add: queue_fields) (meson notin_set_remove1)
  moreover have "sorted (timer_tree q)" using TQ_invD(1) [OF inv] by (simp add: strict_sorted_iff)
  ultimately have "hd (timer_tree q) \<le> hd (timer_tree (removed p t q))"
    by (cases "timer_tree q") auto
  then show "fst (hd (timer_tree q)) \<le> fst (hd (timer_tree (removed p t q)))"
    by (auto simp: less_eq_prod_def)
qed


subsection \<open>Histories\<close>

text \<open>What the event loop does to the queue, one event at a time: an operation requested outside
  the queue's own callbacks, or a firing of the descriptor.\<close>

datatype tq_event =
    Request timer_action
  | Fire TimeStamp int TimeStamp   \<comment> \<open>the arguments of \<open>TimerQueue_handleRead\<close>\<close>

fun run_event :: "allocator \<Rightarrow> (nat \<Rightarrow> timer_action list) \<Rightarrow> tq_event \<Rightarrow> TimerQueue \<Rightarrow> TimerQueue result" where
  "run_event alloc script (Request act) q = run_action alloc act q"
| "run_event alloc script (Fire now nRead now') q = TimerQueue_handleRead alloc script now nRead now' q"

definition TQ_good :: "TimerQueue \<Rightarrow> bool" where
  "TQ_good q \<longleftrightarrow> TQ_inv {} q \<and> armed q"

lemma handled_good: "handled script now now' ex h q \<Longrightarrow> TQ_good q"
  by (cases "timer_tree q = []") (auto simp: handled_def TQ_good_def armed_def timespecFromNow_ns)

lemma run_action_good:
  assumes alloc: "alloc_spec alloc" and "TQ_good q"
  shows "yields {LengthError} TQ_good (run_action alloc act q)"
proof -
  from assms(2) have inv: "TQ_inv {} q" and arm: "armed q" by (simp_all add: TQ_good_def)
  show ?thesis
  proof (cases act)
    case (AddTimer cb time iv now)
    show ?thesis
    proof (cases "alloc (heap q)")
      case None
      with AddTimer show ?thesis by (simp add: addTimer_def)
    next
      case (Some p)
      note add = addTimer_ok [OF inv alloc Some, where cb = cb and time = time and iv = iv, OF refl]
      from add(1,2) armed_added [OF arm] AddTimer show ?thesis by (simp add: TQ_good_def)
    qed
  next
    case (DelTimer i)
    show ?thesis
    proof (cases "i \<in> active_timers q")
      case True
      obtain t where "(expiration t, fst i) \<in> set (timer_tree q)"
          "delTimerInLoop i q = Inr (removed (fst i) t q)" "TQ_inv {} (removed (fst i) t q)"
        by (rule delTimerInLoop_active [OF inv True])
      with armed_removed [OF inv arm] DelTimer show ?thesis by (simp add: TQ_good_def)
    next
      case False
      with delTimerInLoop_inactive [OF inv False] assms(2) DelTimer show ?thesis
        by (simp add: TQ_good_def TQ_inv_frame armed_def)
    qed
  qed
qed

text \<open>Between events every timer is in the tree, once, so the destructor frees each exactly once.\<close>

lemma delete_timers_ok:
  assumes "distinct (map snd es)" and "snd ` set es \<subseteq> dom (heap q)"
  shows "foldM delete_timer es q = Inr (q\<lparr>heap := (heap q) |` (- (snd ` set es))\<rparr>)"
  using assms
proof (induction es arbitrary: q)
  case Nil
  then show ?case by simp
next
  case (Cons e es)
  let ?q = "q\<lparr>heap := (heap q)(snd e := None)\<rparr>"
  have "delete_timer e q = Inr ?q" using Cons.prems(2) by (auto simp: delete_timer_def deref_def)
  moreover have "foldM delete_timer es ?q = Inr (?q\<lparr>heap := heap ?q |` (- (snd ` set es))\<rparr>)"
  proof (rule Cons.IH)
    show "distinct (map snd es)" using Cons.prems(1) by simp
    have "snd e \<notin> snd ` set es" "snd ` set es \<subseteq> dom (heap q)" using Cons.prems by auto
    then show "snd ` set es \<subseteq> dom (heap ?q)" by (simp add: subset_Diff_insert)
  qed
  moreover have "heap ?q |` (- (snd ` set es)) = heap q |` (- (snd ` set (e # es)))"
    by (auto simp: restrict_map_def)
  ultimately show ?case by simp
qed

lemma TimerQueue_destroy_ok:
  assumes "TQ_inv {} q"
  shows "TimerQueue_destroy q = Inr (q\<lparr>timerfd := None, heap := Map.empty\<rparr>)"
proof -
  have "inj_on snd (set (timer_tree q))" using tree_entry_unique [OF assms] by (intro inj_onI)
  moreover have "distinct (timer_tree q)" using TQ_invD(1) [OF assms] by (simp add: strict_sorted_iff)
  ultimately have "distinct (map snd (timer_tree q))" by (simp add: distinct_map)
  moreover have d: "snd ` set (timer_tree q) = dom (heap q)" using TQ_invD(4) [OF assms] by simp
  ultimately show ?thesis
    using delete_timers_ok [of "timer_tree q" "q\<lparr>timerfd := None\<rparr>"]
    by (simp add: TimerQueue_destroy_def) (simp add: restrict_map_def fun_eq_iff domIff)
qed

lemma run_event_good:
  assumes "alloc_spec alloc" and "TQ_good q"
  shows "yields {LengthError} TQ_good (run_event alloc script ev q)"
proof (cases ev)
  case (Request act)
  with run_action_good [OF assms] show ?thesis by simp
next
  case (Fire now nRead now')
  have "TQ_inv {} q" using assms(2) by (simp add: TQ_good_def)
  from yields_mono [OF handleRead_handled [OF this assms(1) refl] handled_good] Fire show ?thesis by simp
qed

subsection \<open>Properties\<close>

text \<open>C22. Timer queue safety. Starting from an empty queue, whatever sequence of additions,
  cancellations (of any identifier, live, expired or stale) and firings happens, and whatever
  timers the user callbacks add and cancel while they run, no assert of the queue fails and no
  freed timer is touched (only memory exhaustion can stop it); every live timer is in the tree
  exactly once with its own expiration, and whenever the tree is not empty the descriptor is armed
  to fire no later than the earliest expiration (or at once when that has passed).\<close>

theorem timer_queue_safe:
  assumes "alloc_spec alloc"
  shows "yields {LengthError} (\<lambda>q. TQ_inv {} q \<and> armed q) (foldM (run_event alloc script) evs TimerQueue_new)"
proof -
  have "TQ_good TimerQueue_new"
    using TQ_inv_new by (simp add: TQ_good_def armed_def TimerQueue_new_def)
  then have "yields {LengthError} TQ_good (foldM (run_event alloc script) evs TimerQueue_new)"
    by (rule yields_foldM_const) (rule run_event_good [OF assms])
  then show ?thesis by (rule yields_mono) (simp add: TQ_good_def)
qed

text \<open>An allocator with two addresses, and a history with a periodic timer 1 that cancels timer 2
  in its callback.\<close>

definition two_cells :: allocator where
  "two_cells h = (if h 1 = None then Some 1 else if h 2 = None then Some 2 else None)"

lemma two_cells_spec: "alloc_spec two_cells"
  by (simp add: alloc_spec_def two_cells_def UINTPTR_MAX_def)

definition demo_script :: "nat \<Rightarrow> timer_action list" where
  "demo_script cb = (if cb = 7 then [DelTimer (2, 1)] else [])"

definition demo_events :: "tq_event list" where
  "demo_events = [Request (AddTimer 7 100 50 0), Request (AddTimer 8 100 60 0), Fire 100 8 101]"

definition demo_queue :: TimerQueue where
  "demo_queue =
     \<lparr>heap = [1 \<mapsto> Timer_new 7 100 50 0, 2 \<mapsto> Timer_new 8 100 60 1], numsTimerCreated = 2,
      timer_tree = [(100, 1), (100, 2)], active_timers = {(1, 0), (2, 1)},
      deleted_timers = {}, calling_expired_timers = False,
      timerfd = Some (timespecFromNow 100 0, 0)\<rparr>"

theorem timer_queue_safe_witness:
  "alloc_spec two_cells \<and>
   yields {LengthError} (\<lambda>q. TQ_inv {} q \<and> armed q)
     (foldM (run_event two_cells demo_script) demo_events TimerQueue_new)"
  using timer_queue_safe [OF two_cells_spec] two_cells_spec by blast

text \<open>C23. No timer leaks and none is deleted twice: after any history the destructor runs without touching a freed timer and
  leaves no timer allocated.\<close>

theorem timer_queue_frees_all:
  assumes "alloc_spec alloc"
  shows "yields {LengthError} (\<lambda>q. heap q = Map.empty \<and> timerfd q = None)
    (result_bind (foldM (run_event alloc script) evs TimerQueue_new) TimerQueue_destroy)"
proof -
  have "TQ_good TimerQueue_new"
    using TQ_inv_new by (simp add: TQ_good_def armed_def TimerQueue_new_def)
  then have "yields {LengthError} TQ_good (foldM (run_event alloc script) evs TimerQueue_new)"
    by (rule yields_foldM_const) (rule run_event_good [OF assms])
  then show ?thesis
    by (cases "foldM (run_event alloc script) evs TimerQueue_new") (simp_all add: TQ_good_def TimerQueue_destroy_ok)
qed

theorem timer_queue_frees_all_witness:
  "yields {LengthError} (\<lambda>q. heap q = Map.empty \<and> timerfd q = None)
     (result_bind (foldM (run_event two_cells demo_script) demo_events TimerQueue_new) TimerQueue_destroy)"
  using timer_queue_frees_all [OF two_cells_spec] .

lemma demo_queue_inv: "TQ_inv {} demo_queue"
  by (auto simp: TQ_inv_def demo_queue_def Timer_new_def UINTPTR_MAX_def split: if_splits)

text \<open>C24. A firing reschedules exactly what it should: for every timer that was due, a periodic one
  that no callback of the batch cancelled is back in the tree one interval after the reading of the
  clock, with its identity kept, and every other one (one-shot, or cancelled by any callback of the
  batch, its own or another's) is freed and out of the tree.\<close>

theorem handleRead_reschedules:
  assumes "TQ_inv {} q" and "alloc_spec alloc" and "(w, p) \<in> set (timer_tree q)" and "w \<le> now"
    and "heap q p = Some t" and "TimerQueue_handleRead alloc script now nRead now' q = Inr q'"
  shows "if repeated t \<and> (p, sequence t) \<notin> batch_cancels script (heap q) (filter (\<lambda>e. fst e \<le> now) (timer_tree q))
         then heap q' p = Some (t\<lparr>expiration := now + interval t\<rparr>) \<and>
              (now + interval t, p) \<in> set (timer_tree q') \<and> (p, sequence t) \<in> active_timers q'
         else heap q' p = None \<and> p \<notin> snd ` set (timer_tree q')"
proof -
  let ?ex = "filter (\<lambda>e. fst e \<le> now) (timer_tree q)"
  let ?D = "batch_cancels script (heap q) ?ex"
  have h: "handled script now now' ?ex (heap q) q'"
    using handleRead_handled [OF assms(1,2) refl, of script now now' nRead] assms(6) by simp
  then have inv: "TQ_inv {} q'" by (simp add: handled_def)
  have "(w, p) \<in> set ?ex" using assms(3,4) by simp
  then have "p \<in> snd ` set ?ex" by force
  with h have heap': "heap q' p = reset_result now ?D p (Some t)"
    unfolding handled_def assms(5) [symmetric] by blast
  show ?thesis
  proof (cases "repeated t \<and> (p, sequence t) \<notin> ?D")
    case True
    with heap' have p: "heap q' p = Some (t\<lparr>expiration := now + interval t\<rparr>)"
      by (simp add: reset_result_def Timer_restart_def TimeStamp_plus_def)
    with TQ_invD(4) [OF inv] obtain e where e: "e \<in> set (timer_tree q')" "snd e = p" by force
    from TQ_invD(2) [OF inv e(1)] e(2) p have "e = (now + interval t, p)" by (auto intro: prod_eqI)
    with e active_timersI [OF inv e(1), of "t\<lparr>expiration := now + interval t\<rparr>"] p True show ?thesis by simp
  next
    case False
    with heap' have "heap q' p = None" by (auto simp: reset_result_def)
    with TQ_invD(4) [OF inv] False show ?thesis by auto
  qed
qed

theorem handleRead_reschedules_witness:
  "\<exists>q'. TimerQueue_handleRead two_cells demo_script 100 8 101 demo_queue = Inr q' \<and>
     (150, 1) \<in> set (timer_tree q') \<and> heap q' 2 = None"
proof -
  have "is_ok (TimerQueue_handleRead two_cells demo_script 100 8 101 demo_queue)"
    by (simp add: TimerQueue_handleRead_def getExpired_def readTimerfd_def demo_queue_def deref_def
        Timer_run_def demo_script_def Timer_new_def resetTimer_def resetEntry_def insertTimer_def
        delTimerInLoop_def Let_def UINTPTR_MAX_def Timer_restart_def TimeStamp_plus_def less_prod_def)
  then obtain q' where q': "TimerQueue_handleRead two_cells demo_script 100 8 101 demo_queue = Inr q'"
    by (auto simp: is_ok_conv)
  have one: "(100, 1) \<in> set (timer_tree demo_queue)" "heap demo_queue 1 = Some (Timer_new 7 100 50 0)"
    and two: "(100, 2) \<in> set (timer_tree demo_queue)" "heap demo_queue 2 = Some (Timer_new 8 100 60 1)"
    and c: "batch_cancels demo_script (heap demo_queue)
      (filter (\<lambda>e. fst e \<le> 100) (timer_tree demo_queue)) = {(2, 1)}"
    by (auto simp: demo_queue_def batch_cancels_def cancels_def demo_script_def Timer_new_def)
  from handleRead_reschedules [OF demo_queue_inv two_cells_spec one(1) _ one(2) q']
    handleRead_reschedules [OF demo_queue_inv two_cells_spec two(1) _ two(2) q']
  show ?thesis using q' by (simp add: c Timer_new_def)
qed

text \<open>\<open>getExpired\<close> takes out of the tree exactly the entries that are due, in the order of their
  expiration, and leaves the others in both sets.\<close>

theorem getExpired_splits:
  assumes "TQ_inv {} q"
  shows "\<exists>q'. getExpired now q = Inr (filter (\<lambda>e. fst e \<le> now) (timer_tree q), q') \<and>
     timer_tree q' = filter (\<lambda>e. now < fst e) (timer_tree q) \<and>
     active_timers q' = {i \<in> active_timers q. \<exists>w. (w, fst i) \<in> set (timer_tree q) \<and> now < w} \<and>
     heap q' = heap q \<and> sorted (map fst (filter (\<lambda>e. fst e \<le> now) (timer_tree q)))"
proof -
  have "sorted (timer_tree q)" using TQ_invD(1) [OF assms] by (simp add: strict_sorted_iff)
  then have "sorted_wrt (\<lambda>a b. fst a \<le> fst b) (timer_tree q)"
    by (rule sorted_wrt_mono_rel [rotated]) (auto simp: less_eq_prod_def)
  then have s: "sorted (map fst (filter (\<lambda>e. fst e \<le> now) (timer_tree q)))"
    by (simp add: sorted_map sorted_wrt_filter)
  have "(\<lambda>e. (snd e, sequence (the (heap q (snd e))))) ` set (filter (\<lambda>e. now < fst e) (timer_tree q)) =
      {i \<in> active_timers q. \<exists>w. (w, fst i) \<in> set (timer_tree q) \<and> now < w}" (is "?L = ?R")
  proof
    show "?L \<subseteq> ?R" unfolding TQ_invD(3) [OF assms] by auto
    show "?R \<subseteq> ?L"
    proof
      fix i assume "i \<in> ?R"
      then obtain e w where e: "e \<in> set (timer_tree q)" "i = (snd e, sequence (the (heap q (snd e))))"
        and w: "(w, fst i) \<in> set (timer_tree q)" "now < w"
        unfolding TQ_invD(3) [OF assms] by blast
      from tree_entry_unique [OF assms e(1) w(1)] e(2) have "fst e = w" by (metis fst_conv snd_conv)
      with e w(2) show "i \<in> ?L" by (intro image_eqI [of _ _ e]) simp_all
    qed
  qed
  with s getExpired_ok(1) [OF assms refl, of now] show ?thesis
    by (simp add: expire_def Let_def)
qed

theorem getExpired_splits_witness:
  "\<exists>q'. getExpired 100 demo_queue = Inr ([(100, 1), (100, 2)], q') \<and> timer_tree q' = []"
  using getExpired_splits [OF demo_queue_inv, of 100] by (auto simp: demo_queue_def)

text \<open>The relative time given to \<open>timerfd_settime\<close> is the exact distance to the expiration, or 100
  nanoseconds when it has passed; it is never zero, which would disarm the descriptor, and both
  fields are in the range the system call accepts.\<close>

theorem timespecFromNow_valid:
  "1000000000 * ts_sec (timespecFromNow when now) + ts_nsec (timespecFromNow when now) =
     (if now < when then 1000 * (when - now) else 100) \<and>
   0 \<le> ts_sec (timespecFromNow when now) \<and>
   0 \<le> ts_nsec (timespecFromNow when now) \<and> ts_nsec (timespecFromNow when now) < 1000000000"
proof -
  let ?d = "when - now"
  obtain S R where SR: "?d sdiv 1000000 = S" "?d smod 1000000 = R" by blast
  have R: "- 1000000 < R" "R < 1000000" using smod_million_bounds(1) [of ?d] by (auto simp: SR)
  have sign: "0 \<le> ?d \<Longrightarrow> 0 \<le> R" "?d \<le> 0 \<Longrightarrow> S \<le> 0 \<and> R \<le> 0"
    using smod_million_bounds(2,3) [of ?d] sdiv_million_sign(2) [of ?d] by (auto simp: SR)
  have ts: "ts_sec (timespecFromNow when now) = (if S < 0 then 0 else S)"
    "ts_nsec (timespecFromNow when now) = (if S \<le> 0 \<and> R * 1000 < 100 then 100 else R * 1000)"
    by (auto simp: timespecFromNow_def to_timespec_def Let_def TimeStamp_diff_def
        kSecondToMicroseconds_def SR)
  have "0 \<le> ts_nsec (timespecFromNow when now)" "ts_nsec (timespecFromNow when now) < 1000000000"
    using R sign by (cases "0 \<le> ?d"; simp add: ts)+
  moreover have "0 \<le> ts_sec (timespecFromNow when now)" by (simp add: ts)
  ultimately show ?thesis
    using timespecFromNow_ns [of "when" now] by (simp add: timespec_ns_def)
qed

end
