(* ===== verification/EventLoop.thy ===== *)
theory EventLoop
  imports Epoller TimerQueue
begin

text \<open>
  The event loop: include/libfm/fmnet/EventLoop.h and net/EventLoop.cpp.

  \<^item> The state extends that of the poller. A functor is a value of a type \<open>'f\<close> that the client chooses;
    \<open>fn\<close> says what it does, \<open>cb\<close> what
    the callbacks of a channel do, \<open>alive\<close> which tied owners exist. These are parameters: they are the
    user's code and the code of the other components.
  \<^item> \<open>eventfd\<close> is the counter behind \<open>wakeup_fd_\<close>: a write of 1 adds one unless the counter is full, a
    read resets it.
  \<^item> First the methods as one thread runs them, then the loop thread together with other threads that
    queue functors and call \<open>quit\<close>, as a step relation whose atomic steps are the pieces the methods
    are made of.
\<close>

record 'f EventLoop = Epoller +
  looping :: bool
  quit_flag :: bool
  calling_pending_functors :: bool
  iteration :: int
  poll_return_time :: TimeStamp
  wakeup_channel :: addr
  pending_functors :: "'f list"
  eventfd :: nat

definition kPollTimeMs :: int where "kPollTimeMs = 10000"

text \<open>The constructor: \<open>other\<close> tells whether \<open>loop_in_this_thread_ts\<close> is already set, \<open>w\<close> and \<open>wfd\<close> are
  the wake-up channel and its descriptor.\<close>

definition EventLoop_new :: "bool \<Rightarrow> nat \<Rightarrow> addr \<Rightarrow> int \<Rightarrow> 'f EventLoop result" where
  "EventLoop_new other tid w wfd =
     check FatalLog (\<not> other)
       (let l = \<lparr>chans = Map.empty, channels = Map.empty, events_size = kInitEventListSize, ctl_log = [],
                 loop_thread = tid, current_thread = tid, loop_handling = False, active_channels = [],
                 current_active_channel = None,
                 looping = False, quit_flag = False, calling_pending_functors = False, iteration = 0,
                 poll_return_time = SystemClock_zero, wakeup_channel = w, pending_functors = [],
                 eventfd = 0\<rparr>
        in Channel_change EnableReading w (set_chan w (Channel_new wfd\<lparr>read_callback := True\<rparr>) l))"

definition EventLoop_destroy :: "('f, 'w) EventLoop_scheme \<Rightarrow> ('f, 'w) EventLoop_scheme result" where
  "EventLoop_destroy l =
     result_bind (Channel_change DisableAll (wakeup_channel l) l) (\<lambda>l1.
       result_bind (Channel_remove (wakeup_channel l) l1) (\<lambda>l2. Channel_destroy (wakeup_channel l) l2))"

definition isInLoopThread :: "('f, 'w) EventLoop_scheme \<Rightarrow> bool" where
  "isInLoopThread l \<longleftrightarrow> current_thread l = loop_thread l"

definition eventfd_max :: nat where "eventfd_max = 2 ^ 64 - 2"

definition wakeup :: "('f, 'w) EventLoop_scheme \<Rightarrow> ('f, 'w) EventLoop_scheme" where
  "wakeup l = (if eventfd l < eventfd_max then l\<lparr>eventfd := eventfd l + 1\<rparr> else l)"

definition EventLoop_handleRead :: "('f, 'w) EventLoop_scheme \<Rightarrow> ('f, 'w) EventLoop_scheme" where
  "EventLoop_handleRead l = l\<lparr>eventfd := 0\<rparr>"

definition EventLoop_quit :: "('f, 'w) EventLoop_scheme \<Rightarrow> ('f, 'w) EventLoop_scheme" where
  "EventLoop_quit l =
     (let l1 = l\<lparr>quit_flag := True\<rparr> in if \<not> isInLoopThread l1 then wakeup l1 else l1)"

text \<open>The critical section of \<open>queueInLoop\<close>, and the whole.\<close>

definition push_functor :: "'f \<Rightarrow> ('f, 'w) EventLoop_scheme \<Rightarrow> ('f, 'w) EventLoop_scheme" where
  "push_functor f l = l\<lparr>pending_functors := pending_functors l @ [f]\<rparr>"

definition queueInLoop :: "'f \<Rightarrow> ('f, 'w) EventLoop_scheme \<Rightarrow> ('f, 'w) EventLoop_scheme" where
  "queueInLoop f l =
     (let l1 = push_functor f l
      in if \<not> isInLoopThread l1 \<or> calling_pending_functors l1 then wakeup l1 else l1)"

definition runInLoop ::
  "('f \<Rightarrow> ('f, 'w) EventLoop_scheme \<Rightarrow> ('f, 'w) EventLoop_scheme result) \<Rightarrow> 'f \<Rightarrow> ('f, 'w) EventLoop_scheme \<Rightarrow>
    ('f, 'w) EventLoop_scheme result" where
  "runInLoop fn f l = (if isInLoopThread l then fn f l else Inr (queueInLoop f l))"

definition queueSize :: "('f, 'w) EventLoop_scheme \<Rightarrow> nat" where
  "queueSize l = length (pending_functors l)"

text \<open>\<open>doPendingFunctors\<close>: the swap under the lock, then the calls.\<close>

definition take_functors :: "('f, 'w) EventLoop_scheme \<Rightarrow> 'f list \<times> ('f, 'w) EventLoop_scheme" where
  "take_functors l = (pending_functors l, l\<lparr>calling_pending_functors := True, pending_functors := []\<rparr>)"

definition doPendingFunctors ::
  "('f \<Rightarrow> ('f, 'w) EventLoop_scheme \<Rightarrow> ('f, 'w) EventLoop_scheme result) \<Rightarrow> ('f, 'w) EventLoop_scheme \<Rightarrow>
    ('f, 'w) EventLoop_scheme result" where
  "doPendingFunctors fn l =
     (case take_functors l of (functors, l1) \<Rightarrow>
        result_bind (foldM fn functors l1) (\<lambda>l2. Inr (l2\<lparr>calling_pending_functors := False\<rparr>)))"

text \<open>One turn of the \<open>while\<close> loop: \<open>evs\<close>, \<open>eintr\<close> and \<open>now\<close> are what \<open>epoll_wait\<close> and the clock give.\<close>

type_synonym poll_result = "(mask \<times> addr) list option \<times> bool \<times> TimeStamp"

definition loop_iteration ::
  "('f \<Rightarrow> ('f, 'w) EventLoop_scheme \<Rightarrow> ('f, 'w) EventLoop_scheme result) \<Rightarrow>
    (addr \<Rightarrow> handler \<Rightarrow> ('f, 'w) EventLoop_scheme \<Rightarrow> ('f, 'w) EventLoop_scheme result) \<Rightarrow>
    (('f, 'w) EventLoop_scheme \<Rightarrow> nat \<Rightarrow> bool) \<Rightarrow> poll_result \<Rightarrow> ('f, 'w) EventLoop_scheme \<Rightarrow> ('f, 'w) EventLoop_scheme result" where
  "loop_iteration fn cb alive pr l =
     (case pr of (evs, eintr, now) \<Rightarrow>
       result_bind (Epoller_poll evs eintr (l\<lparr>active_channels := []\<rparr>)) (\<lambda>(act, l1).
         result_bind
           (foldM (\<lambda>c l2. handleEvent (cb c) (alive l2) now c (l2\<lparr>current_active_channel := Some c\<rparr>)) act
             (l1\<lparr>active_channels := act, poll_return_time := now, iteration := iteration l1 + 1,
                 loop_handling := True\<rparr>))
           (\<lambda>l3. doPendingFunctors fn (l3\<lparr>current_active_channel := None, loop_handling := False\<rparr>))))"

text \<open>\<open>loop()\<close> on a sequence of poll results; the flag tells whether it has returned. When the results
  run out, the loop is blocked in its next poll.\<close>

fun loop_while ::
  "('f \<Rightarrow> ('f, 'w) EventLoop_scheme \<Rightarrow> ('f, 'w) EventLoop_scheme result) \<Rightarrow>
    (addr \<Rightarrow> handler \<Rightarrow> ('f, 'w) EventLoop_scheme \<Rightarrow> ('f, 'w) EventLoop_scheme result) \<Rightarrow>
    (('f, 'w) EventLoop_scheme \<Rightarrow> nat \<Rightarrow> bool) \<Rightarrow> poll_result list \<Rightarrow> ('f, 'w) EventLoop_scheme \<Rightarrow>
    (bool \<times> ('f, 'w) EventLoop_scheme) result" where
  "loop_while fn cb alive prs l =
     (if quit_flag l then Inr (True, l)
      else case prs of [] \<Rightarrow> Inr (False, l)
           | pr # prs' \<Rightarrow> result_bind (loop_iteration fn cb alive pr l) (loop_while fn cb alive prs'))"

definition EventLoop_loop ::
  "('f \<Rightarrow> ('f, 'w) EventLoop_scheme \<Rightarrow> ('f, 'w) EventLoop_scheme result) \<Rightarrow>
    (addr \<Rightarrow> handler \<Rightarrow> ('f, 'w) EventLoop_scheme \<Rightarrow> ('f, 'w) EventLoop_scheme result) \<Rightarrow>
    (('f, 'w) EventLoop_scheme \<Rightarrow> nat \<Rightarrow> bool) \<Rightarrow> poll_result list \<Rightarrow> ('f, 'w) EventLoop_scheme \<Rightarrow>
    (bool \<times> ('f, 'w) EventLoop_scheme) result" where
  "EventLoop_loop fn cb alive prs l =
     assert_c (\<not> looping l) (assertInLoopThread l
       (result_bind (loop_while fn cb alive prs (l\<lparr>looping := True, quit_flag := False\<rparr>))
         (\<lambda>(returned, l1). Inr (returned, if returned then l1\<lparr>looping := False\<rparr> else l1))))"

text \<open>The timer interface, in the loop thread.\<close>

definition runAt :: "allocator \<Rightarrow> TimeStamp \<Rightarrow> nat \<Rightarrow> TimeStamp \<Rightarrow> TimerQueue \<Rightarrow> (TimerId \<times> TimerQueue) result" where
  "runAt alloc time f now q = addTimer alloc f time 0 now q"

definition runAfter ::
  "allocator \<Rightarrow> TimeStamp \<Rightarrow> duration \<Rightarrow> nat \<Rightarrow> TimeStamp \<Rightarrow> TimerQueue \<Rightarrow> (TimerId \<times> TimerQueue) result" where
  "runAfter alloc clock iv f now q = addTimer alloc f (TimeStamp_plus clock iv) 0 now q"

definition runEvery ::
  "allocator \<Rightarrow> TimeStamp \<Rightarrow> duration \<Rightarrow> nat \<Rightarrow> TimeStamp \<Rightarrow> TimerQueue \<Rightarrow> (TimerId \<times> TimerQueue) result" where
  "runEvery alloc clock iv f now q = addTimer alloc f (TimeStamp_plus clock iv) iv now q"

definition cancel :: "TimerId \<Rightarrow> TimerQueue \<Rightarrow> TimerQueue result" where
  "cancel timerId q = delTimerInLoop timerId q"

declare loop_while.simps [simp del]

subsection \<open>The loop thread among other threads\<close>

text \<open>Where the loop thread is: before the test of \<open>quit_\<close>, blocked in \<open>epoll_wait\<close>, handling events (the
  flag tells whether the wake-up channel is still to be handled), calling the functors it took, or
  out of the loop. \<open>waking\<close> counts the other threads that have queued a functor or set \<open>quit_\<close> and
  not yet written to the descriptor. \<open>submitted\<close> and \<open>executed\<close> record all functors ever queued and
  called.\<close>

datatype 'f loop_pc = AtTest | InPoll | Handling bool | Calling "'f list" | Stopped

record 'f loop_system =
  el :: "'f EventLoop"
  pc :: "'f loop_pc"
  waking :: nat
  submitted :: "'f list"
  executed :: "'f list"

inductive sys_step :: "'f loop_system \<Rightarrow> 'f loop_system \<Rightarrow> bool" where
  test_quit: "pc s = AtTest \<Longrightarrow> quit_flag (el s) \<Longrightarrow>
    sys_step s (s\<lparr>pc := Stopped, el := el s\<lparr>looping := False\<rparr>\<rparr>)"
| test_go: "pc s = AtTest \<Longrightarrow> \<not> quit_flag (el s) \<Longrightarrow> sys_step s (s\<lparr>pc := InPoll\<rparr>)"
| poll_wakeup: "pc s = InPoll \<Longrightarrow> 0 < eventfd (el s) \<Longrightarrow> sys_step s (s\<lparr>pc := Handling True\<rparr>)"
| poll_other: "pc s = InPoll \<Longrightarrow> sys_step s (s\<lparr>pc := Handling False\<rparr>)"
| handle_wakeup: "pc s = Handling True \<Longrightarrow>
    sys_step s (s\<lparr>pc := Handling False, el := EventLoop_handleRead (el s)\<rparr>)"
| handler_queues: "pc s = Handling b \<Longrightarrow>
    sys_step s (s\<lparr>el := queueInLoop f (el s), submitted := submitted s @ [f]\<rparr>)"
| handler_quits: "pc s = Handling b \<Longrightarrow> sys_step s (s\<lparr>el := EventLoop_quit (el s)\<rparr>)"
| take: "pc s = Handling False \<Longrightarrow>
    sys_step s (s\<lparr>pc := Calling (fst (take_functors (el s))), el := snd (take_functors (el s))\<rparr>)"
| call: "pc s = Calling (f # fs) \<Longrightarrow> sys_step s (s\<lparr>pc := Calling fs, executed := executed s @ [f]\<rparr>)"
| functor_queues: "pc s = Calling fs \<Longrightarrow>
    sys_step s (s\<lparr>el := queueInLoop f (el s), submitted := submitted s @ [f]\<rparr>)"
| functor_quits: "pc s = Calling fs \<Longrightarrow> sys_step s (s\<lparr>el := EventLoop_quit (el s)\<rparr>)"
| finish: "pc s = Calling [] \<Longrightarrow>
    sys_step s (s\<lparr>pc := AtTest, el := el s\<lparr>calling_pending_functors := False\<rparr>\<rparr>)"
| other_queues: "sys_step s (s\<lparr>el := push_functor f (el s), waking := waking s + 1, submitted := submitted s @ [f]\<rparr>)"
| other_quits: "sys_step s (s\<lparr>el := el s\<lparr>quit_flag := True\<rparr>, waking := waking s + 1\<rparr>)"
| other_wakes: "0 < waking s \<Longrightarrow> sys_step s (s\<lparr>el := wakeup (el s), waking := waking s - 1\<rparr>)"

text \<open>A loop that has just entered \<open>loop()\<close> with nothing queued.\<close>

definition sys_start :: "'f loop_system \<Rightarrow> bool" where
  "sys_start s \<longleftrightarrow> pc s = AtTest \<and> waking s = 0 \<and> submitted s = [] \<and> executed s = [] \<and>
     pending_functors (el s) = [] \<and> \<not> quit_flag (el s) \<and> \<not> calling_pending_functors (el s) \<and>
     isInLoopThread (el s)"

inductive sys_reach :: "'f loop_system \<Rightarrow> bool" where
  sys_init: "sys_start s \<Longrightarrow> sys_reach s"
| sys_next: "sys_reach s \<Longrightarrow> sys_step s s' \<Longrightarrow> sys_reach s'"

fun calling_list :: "'f loop_pc \<Rightarrow> 'f list" where
  "calling_list (Calling fs) = fs"
| "calling_list _ = []"

text \<open>Between the swap and the next handling of events, a functor in the queue or (in the poll) a
  pending \<open>quit_\<close> has a wake-up written or under way.\<close>

definition sys_inv :: "'f loop_system \<Rightarrow> bool" where
  "sys_inv s \<longleftrightarrow>
     isInLoopThread (el s) \<and> (calling_pending_functors (el s) \<longleftrightarrow> (\<exists>fs. pc s = Calling fs)) \<and>
     executed s @ calling_list (pc s) @ pending_functors (el s) = submitted s \<and>
     ((\<forall>b. pc s \<noteq> Handling b) \<longrightarrow> pc s \<noteq> Stopped \<longrightarrow> pending_functors (el s) \<noteq> [] \<longrightarrow>
        0 < eventfd (el s) \<or> 0 < waking s) \<and>
     (pc s = InPoll \<longrightarrow> quit_flag (el s) \<longrightarrow> 0 < eventfd (el s) \<or> 0 < waking s)"

lemma isInLoopThread_upd [simp]:
  "isInLoopThread (l\<lparr>looping := a\<rparr>) = isInLoopThread l" "isInLoopThread (l\<lparr>quit_flag := a\<rparr>) = isInLoopThread l"
  "isInLoopThread (l\<lparr>calling_pending_functors := a\<rparr>) = isInLoopThread l"
  "isInLoopThread (l\<lparr>pending_functors := fs\<rparr>) = isInLoopThread l"
  "isInLoopThread (l\<lparr>eventfd := n\<rparr>) = isInLoopThread l"
  by (simp_all add: isInLoopThread_def)

lemma wakeup_fields [simp]:
  "pending_functors (wakeup l) = pending_functors l" "quit_flag (wakeup l) = quit_flag l"
  "calling_pending_functors (wakeup l) = calling_pending_functors l"
  "isInLoopThread (wakeup l) = isInLoopThread l" "0 < eventfd (wakeup l)"
  by (simp_all add: wakeup_def isInLoopThread_def eventfd_max_def)

lemma push_functor_fields [simp]:
  "pending_functors (push_functor f l) = pending_functors l @ [f]" "quit_flag (push_functor f l) = quit_flag l"
  "calling_pending_functors (push_functor f l) = calling_pending_functors l"
  "isInLoopThread (push_functor f l) = isInLoopThread l" "eventfd (push_functor f l) = eventfd l"
  by (simp_all add: push_functor_def isInLoopThread_def)

lemma queueInLoop_fields [simp]:
  "pending_functors (queueInLoop f l) = pending_functors l @ [f]" "quit_flag (queueInLoop f l) = quit_flag l"
  "calling_pending_functors (queueInLoop f l) = calling_pending_functors l"
  "isInLoopThread (queueInLoop f l) = isInLoopThread l"
  "calling_pending_functors l \<Longrightarrow> 0 < eventfd (queueInLoop f l)"
  by (simp_all add: queueInLoop_def Let_def)

lemma EventLoop_quit_fields [simp]:
  "pending_functors (EventLoop_quit l) = pending_functors l" "quit_flag (EventLoop_quit l)"
  "calling_pending_functors (EventLoop_quit l) = calling_pending_functors l"
  "isInLoopThread (EventLoop_quit l) = isInLoopThread l"
  "isInLoopThread l \<Longrightarrow> eventfd (EventLoop_quit l) = eventfd l"
  by (simp_all add: EventLoop_quit_def Let_def)

lemma sys_step_inv: "sys_step s s' \<Longrightarrow> sys_inv s \<Longrightarrow> sys_inv s'"
  by (induction rule: sys_step.induct)
     (auto simp: sys_inv_def EventLoop_handleRead_def take_functors_def)

lemma sys_reach_inv: "sys_reach s \<Longrightarrow> sys_inv s"
proof (induction rule: sys_reach.induct)
  case (sys_init s)
  then show ?case by (simp add: sys_start_def sys_inv_def)
next
  case (sys_next s s')
  from sys_step_inv [OF sys_next.hyps(2) sys_next.IH] show ?case .
qed

text \<open>What the loop thread does next when nobody else moves and no callback queues or quits.\<close>

fun loop_move :: "'f loop_system \<Rightarrow> 'f loop_system option" where
  "loop_move s =
     (case pc s of
        AtTest \<Rightarrow> Some (if quit_flag (el s) then s\<lparr>pc := Stopped, el := el s\<lparr>looping := False\<rparr>\<rparr>
                       else s\<lparr>pc := InPoll\<rparr>)
      | InPoll \<Rightarrow> if 0 < eventfd (el s) then Some (s\<lparr>pc := Handling True\<rparr>) else None
      | Handling True \<Rightarrow> Some (s\<lparr>pc := Handling False, el := EventLoop_handleRead (el s)\<rparr>)
      | Handling False \<Rightarrow>
          Some (s\<lparr>pc := Calling (fst (take_functors (el s))), el := snd (take_functors (el s))\<rparr>)
      | Calling (f # fs) \<Rightarrow> Some (s\<lparr>pc := Calling fs, executed := executed s @ [f]\<rparr>)
      | Calling [] \<Rightarrow> Some (s\<lparr>pc := AtTest, el := el s\<lparr>calling_pending_functors := False\<rparr>\<rparr>)
      | Stopped \<Rightarrow> None)"

declare loop_move.simps [simp del]

lemma loop_move_step: "loop_move s = Some s' \<Longrightarrow> sys_step s s'"
  by (auto simp: loop_move.simps split: loop_pc.splits bool.splits list.splits if_splits
      intro: sys_step.intros)

fun loop_moves :: "nat \<Rightarrow> 'f loop_system \<Rightarrow> 'f loop_system option" where
  "loop_moves 0 s = Some s"
| "loop_moves (Suc n) s = (case loop_move s of None \<Rightarrow> None | Some s' \<Rightarrow> loop_moves n s')"

lemma calling_moves:
  "pc s = Calling fs \<Longrightarrow> \<exists>s'. loop_moves (length fs + 1) s = Some s' \<and> pc s' = AtTest \<and>
     executed s' = executed s @ fs \<and> submitted s' = submitted s \<and> quit_flag (el s') = quit_flag (el s) \<and>
     pending_functors (el s') = pending_functors (el s)"
proof (induction fs arbitrary: s)
  case Nil
  then show ?case by (simp add: loop_move.simps)
next
  case (Cons f fs)
  let ?s = "s\<lparr>pc := Calling fs, executed := executed s @ [f]\<rparr>"
  have "loop_move s = Some ?s" using Cons.prems by (simp add: loop_move.simps)
  with Cons.IH [of ?s] show ?case by auto
qed

subsection \<open>Properties\<close>

text \<open>C15. Functors queued from any thread are called exactly once and in the order in which they
  entered the queue: at every moment, whatever the interleaving of the loop thread with other
  threads, the functors called so far, then those the loop took and has not called yet, then those
  still queued are exactly the functors submitted, in order.\<close>

theorem functors_fifo:
  assumes "sys_reach s"
  shows "executed s @ calling_list (pc s) @ pending_functors (el s) = submitted s"
  using sys_reach_inv [OF assms] by (simp add: sys_inv_def)

text \<open>A loop freshly entered.\<close>

definition demo_loop :: "nat EventLoop" where
  "demo_loop =
     \<lparr>chans = Map.empty, channels = Map.empty, events_size = 16, ctl_log = [], loop_thread = 1,
      current_thread = 1, loop_handling = False, active_channels = [], current_active_channel = None,
      looping = True, quit_flag = False, calling_pending_functors = False, iteration = 0,
      poll_return_time = 0, wakeup_channel = 1, pending_functors = [], eventfd = 0\<rparr>"

definition demo_system :: "nat loop_system" where
  "demo_system = \<lparr>el = demo_loop, pc = AtTest, waking = 0, submitted = [], executed = []\<rparr>"

lemma demo_system_start: "sys_start demo_system"
  by (simp add: sys_start_def demo_system_def demo_loop_def isInLoopThread_def)

definition demo_blocked :: "nat loop_system" where
  "demo_blocked = demo_system\<lparr>pc := InPoll, el := wakeup (push_functor 3 demo_loop), submitted := [3]\<rparr>"

lemma demo_blocked_reach: "sys_reach demo_blocked"
proof -
  let ?s0 = demo_system and ?s1 = "demo_system\<lparr>pc := InPoll\<rparr>"
  let ?s2 = "?s1\<lparr>el := push_functor 3 (el ?s1), waking := waking ?s1 + 1, submitted := submitted ?s1 @ [3]\<rparr>"
  have "sys_reach ?s0" by (rule sys_init [OF demo_system_start])
  then have "sys_reach ?s1"
    by (rule sys_next) (rule sys_step.test_go, simp_all add: demo_system_def demo_loop_def)
  then have "sys_reach ?s2" by (rule sys_next) (rule sys_step.other_queues)
  moreover have "sys_step ?s2 (?s2\<lparr>el := wakeup (el ?s2), waking := waking ?s2 - 1\<rparr>)"
    by (rule sys_step.other_wakes) simp
  ultimately have "sys_reach (?s2\<lparr>el := wakeup (el ?s2), waking := waking ?s2 - 1\<rparr>)"
    by (rule sys_next)
  then show ?thesis by (simp add: demo_blocked_def demo_system_def)
qed

theorem functors_fifo_witness:
  "sys_reach demo_blocked \<and>
   executed demo_blocked @ calling_list (pc demo_blocked) @ pending_functors (el demo_blocked) = [3]"
  using functors_fifo [OF demo_blocked_reach] demo_blocked_reach by (simp add: demo_blocked_def)



end
