(* ===== verification/TcpConnection.thy ===== *)
theory TcpConnection
  imports Buffer EventLoop "HOL-Library.Sublist"
begin

text \<open>
  Connections: include/libfm/fmnet/TcpConnection.h and net/TcpConnection.cpp.

  \<^item> The state is one connection together with the loop it lives in (an extension of the record
    \<open>EventLoop\<close>); the channel is an address in the loop's heap. The lambdas the code queues are the
    values of \<open>conn_functor\<close>.
  \<^item> The socket is seen through its calls: the outcome of \<open>write\<close> and \<open>readv\<close> is an argument; \<open>sock_out\<close>
    is the sequence of bytes the kernel accepted and \<open>shut_write\<close> tells whether
    \<open>shutdown(SHUT_WR)\<close> was called.
  \<^item> A user callback is logged in \<open>calls\<close>; calling an empty \<open>std::function\<close> is the fault \<open>NullCallback\<close>.
    What the callback does with the connection is a later operation of a history: each callback is
    the last action of its handler, but for \<open>connection_callback_\<close> in \<open>handleClose\<close>, where the
    connection is already disconnected.
  \<^item> A lambda that captures a \<open>std::string\<close> by reference or a \<open>Buffer\<close> by pointer holds its address:
    \<open>strings\<close> and \<open>sent_buffers\<close> are the heaps of such objects.
\<close>

datatype StateE = kDisconnected | kConnecting | kConnected | kDisconnecting

datatype conn_functor =
    WriteComplete | HighWater nat | ForceCloseInLoop | ShutdownInLoop | StartReadInLoop | StopReadInLoop
  | SendRef addr | SendBuf addr

datatype conn_call =
    ConnectionCall bool | MessageCall TimeStamp | WriteCompleteCall | HighWaterCall nat | CloseCall

datatype errno = EWOULDBLOCK | EPIPE | ECONNRESET | OtherErrno

datatype write_result = Wrote nat | WriteError errno

record TcpConnection = "conn_functor EventLoop" +
  conn_name :: string
  conn_state :: StateE
  reading :: bool
  conn_channel :: addr
  high_water_mark :: nat
  input_buffer :: Buffer
  output_buffer :: Buffer
  has_connection_callback :: bool
  has_message_callback :: bool
  has_write_complete_callback :: bool
  has_high_water_callback :: bool
  has_close_callback :: bool
  strings :: "addr \<rightharpoonup> string"
  sent_buffers :: "addr \<rightharpoonup> Buffer"
  sock_out :: string
  shut_write :: bool
  calls :: "conn_call list"

definition isConnected :: "TcpConnection \<Rightarrow> bool" where "isConnected w \<longleftrightarrow> conn_state w = kConnected"
definition isDisconnected :: "TcpConnection \<Rightarrow> bool" where "isDisconnected w \<longleftrightarrow> conn_state w = kDisconnected"
definition setState :: "StateE \<Rightarrow> TcpConnection \<Rightarrow> TcpConnection" where "setState s w = w\<lparr>conn_state := s\<rparr>"

definition stateToString :: "TcpConnection \<Rightarrow> string" where
  "stateToString w =
     (case conn_state w of kConnecting \<Rightarrow> ''kConnecting'' | kConnected \<Rightarrow> ''kConnected''
      | kDisconnecting \<Rightarrow> ''kDisconneting'' | kDisconnected \<Rightarrow> ''kDisconnected'')"

text \<open>The constructor, in a loop \<open>l\<close>: the channel is created at the fresh address \<open>c\<close>.\<close>

definition default_high_water_mark :: nat where "default_high_water_mark = 1024 * 1024 * 64"

definition TcpConnection_new :: "string \<Rightarrow> addr \<Rightarrow> int \<Rightarrow> conn_functor EventLoop \<Rightarrow> TcpConnection result" where
  "TcpConnection_new name c sockfd l =
     result_bind (Buffer_new kInitialSize) (\<lambda>b.
       Inr (set_chan c
             (Channel_new sockfd\<lparr>read_callback := True, write_callback := True, close_callback := True,
                                error_callback := True\<rparr>)
             (EventLoop.EventLoop.extend l
               (TcpConnection.TcpConnection.fields name kConnecting True c default_high_water_mark b b
                 False False False False False Map.empty Map.empty [] False []))))"

subsection \<open>User callbacks\<close>

definition call_user :: "bool \<Rightarrow> conn_call \<Rightarrow> TcpConnection \<Rightarrow> TcpConnection result" where
  "call_user present c w = check NullCallback present (Inr (w\<lparr>calls := calls w @ [c]\<rparr>))"

definition connection_callback :: "TcpConnection \<Rightarrow> TcpConnection result" where
  "connection_callback w = call_user (has_connection_callback w) (ConnectionCall (isConnected w)) w"

subsection \<open>Sending\<close>

text \<open>\<open>sendInLoop\<close>: \<open>wr\<close> is the outcome of the direct \<open>write\<close>, if it is made.\<close>

definition sendInLoop :: "string \<Rightarrow> write_result \<Rightarrow> TcpConnection \<Rightarrow> TcpConnection result" where
  "sendInLoop msg wr w =
     assertInLoopThread w
       (if conn_state w = kDisconnected then Inr w
        else result_bind (chan (conn_channel w) w) (\<lambda>ch.
          let len = length msg;
              (nwrote, remaining, faultError, w1) =
                (if \<not> isWriting ch \<and> readableBytes (output_buffer w) = 0
                 then (case wr of
                         Wrote n \<Rightarrow>
                           (let remaining = sz_sub len n; w' = w\<lparr>sock_out := sock_out w @ take n msg\<rparr>
                            in (n, remaining, False,
                                if remaining = 0 \<and> has_write_complete_callback w'
                                then queueInLoop WriteComplete w' else w'))
                       | WriteError e \<Rightarrow> (0, len, e = EPIPE \<or> e = ECONNRESET, w))
                 else (0, len, False, w))
          in assert_c (remaining \<le> len)
            (if \<not> faultError \<and> remaining > 0
             then let oldLen = readableBytes (output_buffer w1);
                      w2 = (if sz_add oldLen remaining \<ge> high_water_mark w1 \<and> oldLen < high_water_mark w1 \<and>
                               has_high_water_callback w1
                            then queueInLoop (HighWater (sz_add oldLen remaining)) w1 else w1)
                  in result_bind (Buffer_append (take remaining (drop nwrote msg)) (output_buffer w2)) (\<lambda>ob.
                       let w3 = w2\<lparr>output_buffer := ob\<rparr>
                       in if \<not> isWriting ch then Channel_change EnableWriting (conn_channel w3) w3 else Inr w3)
             else Inr w1)))"

definition shutdownInLoop :: "TcpConnection \<Rightarrow> TcpConnection result" where
  "shutdownInLoop w =
     assertInLoopThread w (result_bind (chan (conn_channel w) w) (\<lambda>ch.
       Inr (if \<not> isWriting ch then w\<lparr>shut_write := True\<rparr> else w)))"

definition handleWrite :: "write_result \<Rightarrow> TcpConnection \<Rightarrow> TcpConnection result" where
  "handleWrite wr w =
     assertInLoopThread w (result_bind (chan (conn_channel w) w) (\<lambda>ch.
       if isWriting ch
       then case wr of
              WriteError e \<Rightarrow> Inr w
            | Wrote n \<Rightarrow>
                if n > 0
                then result_bind (Buffer_range (output_buffer w) (peek (output_buffer w))
                                   (peek (output_buffer w) + n)) (\<lambda>bytes.
                     result_bind (retrieve n (output_buffer w)) (\<lambda>ob.
                       let w1 = w\<lparr>sock_out := sock_out w @ bytes, output_buffer := ob\<rparr>
                       in if readableBytes ob = 0
                          then result_bind (Channel_change DisableWriting (conn_channel w1) w1) (\<lambda>w2.
                            let w3 = (if has_write_complete_callback w2 then queueInLoop WriteComplete w2 else w2)
                            in if conn_state w3 = kDisconnecting then shutdownInLoop w3 else Inr w3)
                          else Inr w1))
                else Inr w
       else Inr w))"

subsection \<open>Closing\<close>

definition handleClose :: "TcpConnection \<Rightarrow> TcpConnection result" where
  "handleClose w =
     assertInLoopThread w
       (assert_c (conn_state w = kConnected \<or> conn_state w = kDisconnecting)
         (result_bind (Channel_change DisableAll (conn_channel w) (setState kDisconnected w)) (\<lambda>w1.
           result_bind (connection_callback w1) (\<lambda>w2.
             call_user (has_close_callback w2) CloseCall w2))))"

definition forceCloseInLoop :: "TcpConnection \<Rightarrow> TcpConnection result" where
  "forceCloseInLoop w =
     assertInLoopThread w
       (if conn_state w = kConnected \<or> conn_state w = kDisconnecting then handleClose w else Inr w)"

text \<open>\<open>handleError\<close> only logs the socket error.\<close>

definition handleError :: "TcpConnection \<Rightarrow> TcpConnection" where "handleError w = w"

subsection \<open>Reading\<close>

definition TcpConnection_handleRead :: "int + string \<Rightarrow> TimeStamp \<Rightarrow> TcpConnection \<Rightarrow> TcpConnection result" where
  "TcpConnection_handleRead outcome receiveTime w =
     assertInLoopThread w
       (result_bind (readFd (input_buffer w) outcome) (\<lambda>(ib, n).
         let w1 = w\<lparr>input_buffer := ib\<rparr>
         in case n of
              Inl savedErrno \<Rightarrow> Inr (handleError w1)
            | Inr k \<Rightarrow> if k > 0 then call_user (has_message_callback w1) (MessageCall receiveTime) w1
                      else handleClose w1))"

definition startReadInLoop :: "TcpConnection \<Rightarrow> TcpConnection result" where
  "startReadInLoop w =
     assertInLoopThread w (result_bind (chan (conn_channel w) w) (\<lambda>ch.
       if \<not> reading w \<or> \<not> isReading ch
       then result_bind (Channel_change EnableReading (conn_channel w) w) (\<lambda>w1. Inr (w1\<lparr>reading := True\<rparr>))
       else Inr w))"

definition stopReadInLoop :: "TcpConnection \<Rightarrow> TcpConnection result" where
  "stopReadInLoop w =
     assertInLoopThread w (result_bind (chan (conn_channel w) w) (\<lambda>ch.
       if reading w \<or> isReading ch
       then result_bind (Channel_change DisableReading (conn_channel w) w) (\<lambda>w1. Inr (w1\<lparr>reading := False\<rparr>))
       else Inr w))"

text \<open>The callbacks a server or client starts with: one only logs, the other discards the input.\<close>

definition defaultConnectionCallback :: "TcpConnection \<Rightarrow> TcpConnection" where "defaultConnectionCallback w = w"

definition defaultMessageCallback :: "TcpConnection \<Rightarrow> TcpConnection" where
  "defaultMessageCallback w = w\<lparr>input_buffer := retrieveAll (input_buffer w)\<rparr>"

subsection \<open>Functors and the methods that may run in any thread\<close>

text \<open>\<open>send(msg)\<close> with \<open>msg\<close> at address \<open>r\<close>: another thread queues a lambda that keeps the reference.\<close>

definition TcpConnection_send :: "addr \<Rightarrow> string \<Rightarrow> write_result \<Rightarrow> TcpConnection \<Rightarrow> TcpConnection result" where
  "TcpConnection_send r msg wr w =
     (if conn_state w = kConnected
      then if isInLoopThread w then sendInLoop msg wr w else Inr (queueInLoop (SendRef r) w)
      else Inr w)"

fun run_conn_functor :: "write_result \<Rightarrow> conn_functor \<Rightarrow> TcpConnection \<Rightarrow> TcpConnection result" where
  "run_conn_functor wr WriteComplete w = call_user (has_write_complete_callback w) WriteCompleteCall w"
| "run_conn_functor wr (HighWater n) w = call_user (has_high_water_callback w) (HighWaterCall n) w"
| "run_conn_functor wr ForceCloseInLoop w = forceCloseInLoop w"
| "run_conn_functor wr ShutdownInLoop w = shutdownInLoop w"
| "run_conn_functor wr StartReadInLoop w = startReadInLoop w"
| "run_conn_functor wr StopReadInLoop w = stopReadInLoop w"
| "run_conn_functor wr (SendRef r) w =
     (case strings w r of None \<Rightarrow> Inl UseAfterFree | Some msg \<Rightarrow> TcpConnection_send r msg wr w)"
| "run_conn_functor wr (SendBuf r) w =
     (case sent_buffers w r of
        None \<Rightarrow> Inl UseAfterFree
      | Some b \<Rightarrow> result_bind (retrieveAllAsString b) (\<lambda>(msg, b').
          TcpConnection_send r msg wr (w\<lparr>sent_buffers := (sent_buffers w)(r \<mapsto> b')\<rparr>)))"

text \<open>\<open>send(buf)\<close> with the buffer at address \<open>r\<close>: in the loop thread the readable bytes are sent and the
  caller's buffer emptied; another thread queues a lambda that keeps the pointer.\<close>

definition send_buffer :: "addr \<Rightarrow> Buffer \<Rightarrow> write_result \<Rightarrow> TcpConnection \<Rightarrow> (Buffer \<times> TcpConnection) result" where
  "send_buffer r b wr w =
     (if conn_state w = kConnected
      then if isInLoopThread w
           then result_bind (Buffer_toString b) (\<lambda>msg.
                  result_bind (sendInLoop msg wr w) (\<lambda>w1. Inr (retrieveAll b, w1)))
           else Inr (b, queueInLoop (SendBuf r) w)
      else Inr (b, w))"

definition TcpConnection_shutdown :: "TcpConnection \<Rightarrow> TcpConnection result" where
  "TcpConnection_shutdown w =
     (if conn_state w = kConnected
      then runInLoop (run_conn_functor (Wrote 0)) ShutdownInLoop (setState kDisconnecting w)
      else Inr w)"

definition forceClose :: "TcpConnection \<Rightarrow> TcpConnection" where
  "forceClose w =
     (if conn_state w = kConnected \<or> conn_state w = kDisconnecting
      then queueInLoop ForceCloseInLoop (setState kDisconnecting w) else w)"

definition forceCloseWithDelay :: "TcpConnection \<Rightarrow> TcpConnection" where
  "forceCloseWithDelay w =
     (if conn_state w = kConnected \<or> conn_state w = kDisconnecting then setState kDisconnecting w else w)"

definition startRead :: "TcpConnection \<Rightarrow> TcpConnection result" where
  "startRead w = runInLoop (run_conn_functor (Wrote 0)) StartReadInLoop w"

definition stopRead :: "TcpConnection \<Rightarrow> TcpConnection result" where
  "stopRead w = runInLoop (run_conn_functor (Wrote 0)) StopReadInLoop w"

subsection \<open>Establishing and destroying\<close>

text \<open>\<open>obj\<close> is the identity of the connection object, to which the channel is tied.\<close>

definition connectEstablished :: "nat \<Rightarrow> TcpConnection \<Rightarrow> TcpConnection result" where
  "connectEstablished obj w =
     assertInLoopThread w
       (assert_c (conn_state w = kConnecting)
         (let w1 = setState kConnected w
          in result_bind (chan (conn_channel w1) w1) (\<lambda>ch.
               result_bind (Channel_change EnableReading (conn_channel w1)
                             (set_chan (conn_channel w1) (Channel_tie obj ch) w1))
                 connection_callback)))"

definition connectDestroyed :: "TcpConnection \<Rightarrow> TcpConnection result" where
  "connectDestroyed w =
     assertInLoopThread w
       (result_bind
         (if conn_state w = kConnected
          then result_bind (Channel_change DisableAll (conn_channel w) (setState kDisconnected w))
                 connection_callback
          else Inr w)
         (\<lambda>w1. Channel_remove (conn_channel w1) w1))"

definition TcpConnection_destroy :: "TcpConnection \<Rightarrow> TcpConnection result" where
  "TcpConnection_destroy w =
     assert_c (conn_state w = kDisconnected) (Channel_destroy (conn_channel w) w)"

text \<open>The callbacks the channel dispatches to, with the outcomes of the socket calls they make.\<close>

fun conn_handler :: "int + string \<Rightarrow> write_result \<Rightarrow> handler \<Rightarrow> TcpConnection \<Rightarrow> TcpConnection result" where
  "conn_handler rd wr OnClose w = handleClose w"
| "conn_handler rd wr OnError w = Inr (handleError w)"
| "conn_handler rd wr (OnRead t) w = TcpConnection_handleRead rd t w"
| "conn_handler rd wr OnWrite w = handleWrite wr w"

subsection \<open>The channel of the connection\<close>

definition chan_state :: "TcpConnection \<Rightarrow> bool \<Rightarrow> bool \<Rightarrow> bool" where
  "chan_state w r wr \<longleftrightarrow>
     (\<exists>ch. chans w (conn_channel w) = Some ch \<and> ch_events ch = mask_of r wr \<and>
        (channels w (ch_fd ch) = None \<or> channels w (ch_fd ch) = Some (conn_channel w)))"

lemma queueInLoop_conn [simp]:
  fixes w :: TcpConnection
  shows "chans (queueInLoop f w) = chans w" "channels (queueInLoop f w) = channels w"
    "ctl_log (queueInLoop f w) = ctl_log w" "events_size (queueInLoop f w) = events_size w"
    "loop_thread (queueInLoop f w) = loop_thread w" "current_thread (queueInLoop f w) = current_thread w"
    "conn_state (queueInLoop f w) = conn_state w" "conn_channel (queueInLoop f w) = conn_channel w"
    "output_buffer (queueInLoop f w) = output_buffer w" "input_buffer (queueInLoop f w) = input_buffer w"
    "sock_out (queueInLoop f w) = sock_out w" "shut_write (queueInLoop f w) = shut_write w"
    "has_connection_callback (queueInLoop f w) = has_connection_callback w"
    "has_message_callback (queueInLoop f w) = has_message_callback w"
    "has_write_complete_callback (queueInLoop f w) = has_write_complete_callback w"
    "has_high_water_callback (queueInLoop f w) = has_high_water_callback w"
    "has_close_callback (queueInLoop f w) = has_close_callback w" "calls (queueInLoop f w) = calls w"
    "high_water_mark (queueInLoop f w) = high_water_mark w" "reading (queueInLoop f w) = reading w"
    "loop_handling (queueInLoop f w) = loop_handling w" "active_channels (queueInLoop f w) = active_channels w"
    "current_active_channel (queueInLoop f w) = current_active_channel w"
  by (simp_all add: queueInLoop_def push_functor_def wakeup_def Let_def)

definition registered :: "TcpConnection \<Rightarrow> bool" where
  "registered w \<longleftrightarrow> (\<exists>ch. chans w (conn_channel w) = Some ch \<and> index ch \<noteq> kNew)"

text \<open>An operation on the channel of the connection changes nothing but the poller.\<close>

lemma Channel_change_conn:
  assumes inv: "EP_inv w" and st: "chan_state w r wr" and flags: "change_flags x (r, wr) = (r', wr')"
  obtains cs ds lg where "Channel_change x (conn_channel w) w = Inr (w\<lparr>chans := cs, channels := ds, ctl_log := lg\<rparr>)"
    and "EP_inv (w\<lparr>chans := cs, channels := ds, ctl_log := lg\<rparr>)"
    and "chan_state (w\<lparr>chans := cs, channels := ds, ctl_log := lg\<rparr>) r' wr'"
    and "registered (w\<lparr>chans := cs, channels := ds, ctl_log := lg\<rparr>)"
proof -
  from st obtain ch where ch: "chans w (conn_channel w) = Some ch" "ch_events ch = mask_of r wr"
    "channels w (ch_fd ch) = None \<or> channels w (ch_fd ch) = Some (conn_channel w)"
    by (auto simp: chan_state_def)
  let ?w = "changed x (conn_channel w) ch w"
  have "chan_state ?w r' wr'"
    using ch(2) flags by (simp add: chan_state_def changed_def Let_def change_mask_of)
  moreover have "registered ?w"
    by (simp add: registered_def changed_def Let_def index_consts)
  moreover have "\<exists>cs ds lg. ?w = w\<lparr>chans := cs, channels := ds, ctl_log := lg\<rparr>"
    by (auto simp: changed_def Let_def)
  ultimately show ?thesis
    using that Channel_change_eq [OF inv ch(1,3)] EP_inv_changed [OF inv ch(1,3)] by metis
qed

lemma chan_stateE:
  assumes "chan_state w r wr"
  obtains ch where "chan (conn_channel w) w = Inr ch" "isReading ch = r" "isWriting ch = wr"
    "isNoneEvent ch = (\<not> r \<and> \<not> wr)" "chans w (conn_channel w) = Some ch"
proof -
  from assms obtain ch where ch: "chans w (conn_channel w) = Some ch" "ch_events ch = mask_of r wr"
    by (auto simp: chan_state_def)
  show ?thesis
    by (rule that [OF chan_Some [OF ch(1)] _ _ _ ch(1)])
       (simp_all add: ch(2) isReading_def isWriting_def isNoneEvent_def)
qed

subsection \<open>The invariant\<close>

text \<open>Bytes the connection is responsible for: accepted by the kernel, then waiting.\<close>

definition stream :: "TcpConnection \<Rightarrow> string" where
  "stream w = sock_out w @ Buffer_contents (output_buffer w)"

definition live :: "TcpConnection \<Rightarrow> bool" where
  "live w \<longleftrightarrow> conn_state w = kConnected \<or> conn_state w = kDisconnecting"

text \<open>The channel watches for writability exactly while output waits; the write side is shut down only
  after the output has drained and no more can come; the callbacks the code calls unconditionally
  are set.\<close>

definition conn_inv :: "TcpConnection \<Rightarrow> bool" where
  "conn_inv w \<longleftrightarrow>
     EP_inv w \<and> (\<exists>r. chan_state w r (live w \<and> Buffer_contents (output_buffer w) \<noteq> [])) \<and>
     Buffer_wf (output_buffer w) \<and>
     (conn_state w = kConnecting \<longrightarrow> Buffer_contents (output_buffer w) = []) \<and>
     (shut_write w \<longrightarrow> conn_state w = kDisconnecting \<and> Buffer_contents (output_buffer w) = [] \<or>
        conn_state w = kDisconnected) \<and>
     has_connection_callback w \<and> has_message_callback w \<and> has_close_callback w"

lemma conn_invD:
  assumes "conn_inv w"
  shows "EP_inv w" "\<exists>r. chan_state w r (live w \<and> Buffer_contents (output_buffer w) \<noteq> [])"
    "Buffer_wf (output_buffer w)" "conn_state w = kConnecting \<Longrightarrow> Buffer_contents (output_buffer w) = []"
    "shut_write w \<Longrightarrow> conn_state w = kDisconnecting \<and> Buffer_contents (output_buffer w) = [] \<or>
        conn_state w = kDisconnected"
    "has_connection_callback w" "has_message_callback w" "has_close_callback w"
  using assms by (simp_all add: conn_inv_def)

lemma in_loop: "EP_inv w \<Longrightarrow> assertInLoopThread w k = k"
  by (simp add: assertInLoopThread_def EP_invD(5))

lemma isInLoopThread_inv: "EP_inv (w :: TcpConnection) \<Longrightarrow> isInLoopThread w"
  by (simp add: isInLoopThread_def EP_invD(5))

text \<open>The parts of the invariant that only read the poller.\<close>

lemma EP_inv_conn [simp]:
  "EP_inv (queueInLoop f w) = EP_inv w" "EP_inv (w\<lparr>output_buffer := ob\<rparr>) = EP_inv w"
  "EP_inv (w\<lparr>input_buffer := ib\<rparr>) = EP_inv w" "EP_inv (w\<lparr>sock_out := so\<rparr>) = EP_inv w"
  "EP_inv (w\<lparr>shut_write := sh\<rparr>) = EP_inv w" "EP_inv (w\<lparr>calls := cl\<rparr>) = EP_inv w"
  "EP_inv (w\<lparr>conn_state := cst\<rparr>) = EP_inv w" "EP_inv (w\<lparr>reading := rd\<rparr>) = EP_inv w"
  for w :: TcpConnection
  by (rule EP_inv_cong; simp)+

lemma chan_state_conn [simp]:
  "chan_state (queueInLoop f w) = chan_state w" "chan_state (w\<lparr>output_buffer := ob\<rparr>) = chan_state w"
  "chan_state (w\<lparr>input_buffer := ib\<rparr>) = chan_state w" "chan_state (w\<lparr>sock_out := so\<rparr>) = chan_state w"
  "chan_state (w\<lparr>shut_write := sh\<rparr>) = chan_state w" "chan_state (w\<lparr>calls := cl\<rparr>) = chan_state w"
  "chan_state (w\<lparr>conn_state := cst\<rparr>) = chan_state w" "chan_state (w\<lparr>reading := rd\<rparr>) = chan_state w"
  by (simp_all add: chan_state_def fun_eq_iff)

subsection \<open>Sending\<close>

text \<open>The tail of \<open>sendInLoop\<close>: what is left goes to the output buffer, and the channel watches for
  writability.\<close>

lemma buffer_and_watch:
  assumes inv: "EP_inv w" and st: "chan_state w r wr" and wf: "Buffer_wf (output_buffer w)"
    and room: "Buffer_used (output_buffer w) + length d \<le> vector_max"
  shows "\<exists>ob cs ds lg.
    result_bind (Buffer_append d (output_buffer w)) (\<lambda>ob.
       let w3 = w\<lparr>output_buffer := ob\<rparr>
       in if \<not> wr then Channel_change EnableWriting (conn_channel w3) w3 else Inr w3) =
     Inr (w\<lparr>output_buffer := ob, chans := cs, channels := ds, ctl_log := lg\<rparr>) \<and>
    EP_inv (w\<lparr>output_buffer := ob, chans := cs, channels := ds, ctl_log := lg\<rparr>) \<and>
    chan_state (w\<lparr>output_buffer := ob, chans := cs, channels := ds, ctl_log := lg\<rparr>) r True \<and>
    Buffer_wf ob \<and> Buffer_contents ob = Buffer_contents (output_buffer w) @ d \<and>
    Buffer_used ob \<le> Buffer_used (output_buffer w) + length d"
proof -
  from buf.put_law [OF wf room] obtain ob where ob: "Buffer_append d (output_buffer w) = Inr ob"
    "Buffer_wf ob" "Buffer_contents ob = Buffer_contents (output_buffer w) @ d"
    "Buffer_used ob \<le> Buffer_used (output_buffer w) + length d" by blast
  let ?w = "w\<lparr>output_buffer := ob\<rparr>"
  have inv': "EP_inv ?w" and st': "chan_state ?w r wr" using inv st by simp_all
  show ?thesis
  proof (cases wr)
    case True
    have same: "?w = w\<lparr>output_buffer := ob, chans := chans w, channels := channels w, ctl_log := ctl_log w\<rparr>"
      by simp
    show ?thesis
      by (rule exI [of _ ob], rule exI [of _ "chans w"], rule exI [of _ "channels w"],
          rule exI [of _ "ctl_log w"], unfold same [symmetric])
         (use True ob inv' st' in \<open>simp add: Let_def\<close>)
  next
    case False
    obtain cs ds lg where "Channel_change EnableWriting (conn_channel ?w) ?w =
        Inr (?w\<lparr>chans := cs, channels := ds, ctl_log := lg\<rparr>)"
      "EP_inv (?w\<lparr>chans := cs, channels := ds, ctl_log := lg\<rparr>)"
      "chan_state (?w\<lparr>chans := cs, channels := ds, ctl_log := lg\<rparr>) r True"
      by (rule Channel_change_conn [OF inv' st', of EnableWriting r True]) simp_all
    with False ob show ?thesis by (auto simp: Let_def)
  qed
qed

text \<open>A connected connection that may still send, with the channel's write flag as it is.\<close>

definition sending :: "TcpConnection \<Rightarrow> bool \<Rightarrow> bool \<Rightarrow> bool" where
  "sending w r wr \<longleftrightarrow>
     EP_inv w \<and> chan_state w r wr \<and> Buffer_wf (output_buffer w) \<and> conn_state w = kConnected \<and>
     \<not> shut_write w \<and> has_connection_callback w \<and> has_message_callback w \<and> has_close_callback w"

lemma sending_conn_inv:
  "sending w r wr \<Longrightarrow> wr = (Buffer_contents (output_buffer w) \<noteq> []) \<Longrightarrow> conn_inv w"
  by (auto simp: sending_def conn_inv_def live_def)

lemma conn_inv_sending:
  "conn_inv w \<Longrightarrow> conn_state w = kConnected \<Longrightarrow> \<exists>r. sending w r (Buffer_contents (output_buffer w) \<noteq> [])"
  by (auto simp: sending_def conn_inv_def live_def)

lemma sending_frame [simp]:
  "sending (queueInLoop f w) = sending w" "sending (w\<lparr>sock_out := so\<rparr>) = sending w"
  by (simp_all add: sending_def fun_eq_iff)

lemma sendInLoop_tail:
  assumes s: "sending w r wr" and room: "Buffer_used (output_buffer w) + length d \<le> vector_max" and d: "d \<noteq> []"
  shows "\<exists>w'. result_bind (Buffer_append d (output_buffer w)) (\<lambda>ob.
       let w3 = w\<lparr>output_buffer := ob\<rparr>
       in if \<not> wr then Channel_change EnableWriting (conn_channel w3) w3 else Inr w3) = Inr w' \<and>
     conn_inv w' \<and> conn_state w' = kConnected \<and> stream w' = stream w @ d \<and> calls w' = calls w \<and>
     input_buffer w' = input_buffer w \<and>
     Buffer_used (output_buffer w') \<le> Buffer_used (output_buffer w) + length d \<and> sock_out w' = sock_out w"
proof -
  from s have "EP_inv w" "chan_state w r wr" "Buffer_wf (output_buffer w)" by (simp_all add: sending_def)
  from buffer_and_watch [OF this room] obtain ob cs ds lg where
    t: "result_bind (Buffer_append d (output_buffer w)) (\<lambda>ob.
       let w3 = w\<lparr>output_buffer := ob\<rparr>
       in if \<not> wr then Channel_change EnableWriting (conn_channel w3) w3 else Inr w3) =
     Inr (w\<lparr>output_buffer := ob, chans := cs, channels := ds, ctl_log := lg\<rparr>)"
    and p: "EP_inv (w\<lparr>output_buffer := ob, chans := cs, channels := ds, ctl_log := lg\<rparr>)"
    "chan_state (w\<lparr>output_buffer := ob, chans := cs, channels := ds, ctl_log := lg\<rparr>) r True" "Buffer_wf ob"
    "Buffer_contents ob = Buffer_contents (output_buffer w) @ d"
    "Buffer_used ob \<le> Buffer_used (output_buffer w) + length d" by blast
  let ?w = "w\<lparr>output_buffer := ob, chans := cs, channels := ds, ctl_log := lg\<rparr>"
  have "sending ?w r True" unfolding sending_def using p(1-3) s by (simp add: sending_def)
  then have "conn_inv ?w" by (rule sending_conn_inv) (simp add: p(4) d)
  with t p s show ?thesis
    by (intro exI [of _ ?w] conjI) (simp_all add: stream_def sending_def)
qed

lemma stream_queueInLoop [simp]: "stream (queueInLoop f w) = stream w"
  by (simp add: stream_def)

definition sendInLoop_rest :: "bool \<Rightarrow> bool \<Rightarrow> conn_functor \<Rightarrow> string \<Rightarrow> TcpConnection \<Rightarrow> TcpConnection result" where
  "sendInLoop_rest wr high F d w =
     (let w2 = (if high then queueInLoop F w else w)
      in result_bind (Buffer_append d (output_buffer w2)) (\<lambda>ob.
           let w3 = w2\<lparr>output_buffer := ob\<rparr>
           in if \<not> wr then Channel_change EnableWriting (conn_channel w3) w3 else Inr w3))"

lemma sendInLoop_rest_ok:
  assumes "sending w r wr" and "Buffer_used (output_buffer w) + length d \<le> vector_max" and "d \<noteq> []"
  shows "\<exists>w'. sendInLoop_rest wr high F d w = Inr w' \<and>
     conn_inv w' \<and> conn_state w' = kConnected \<and> stream w' = stream w @ d \<and> calls w' = calls w \<and>
     input_buffer w' = input_buffer w \<and>
     Buffer_used (output_buffer w') \<le> Buffer_used (output_buffer w) + length d \<and> sock_out w' = sock_out w"
proof (cases high)
  case True
  then show ?thesis
    using sendInLoop_tail [of "queueInLoop F w" r wr d] assms unfolding sendInLoop_rest_def by simp
next
  case False
  then show ?thesis
    using sendInLoop_tail [of w r wr d] assms unfolding sendInLoop_rest_def by simp
qed

text \<open>Whether the kernel refused the bytes for good, so that they are dropped.\<close>

definition dropped :: "write_result \<Rightarrow> TcpConnection \<Rightarrow> bool" where
  "dropped wr w \<longleftrightarrow> Buffer_contents (output_buffer w) = [] \<and> (wr = WriteError EPIPE \<or> wr = WriteError ECONNRESET)"

definition write_spec :: "nat \<Rightarrow> write_result \<Rightarrow> bool" where
  "write_spec len wr = (case wr of Wrote n \<Rightarrow> n \<le> len | WriteError e \<Rightarrow> True)"

text \<open>What the direct \<open>write\<close> hands to the kernel.\<close>

definition written :: "string \<Rightarrow> write_result \<Rightarrow> TcpConnection \<Rightarrow> string" where
  "written msg wr w =
     (case wr of Wrote n \<Rightarrow> if Buffer_contents (output_buffer w) = [] then take n msg else [] | WriteError e \<Rightarrow> [])"

lemma sendInLoop_ok:
  assumes inv: "conn_inv w" and st: "conn_state w = kConnected"
    and room: "Buffer_used (output_buffer w) + length msg \<le> vector_max" and wr: "write_spec (length msg) wr"
  shows "\<exists>w'. sendInLoop msg wr w = Inr w' \<and> conn_inv w' \<and> conn_state w' = kConnected \<and>
    stream w' = stream w @ (if dropped wr w then [] else msg) \<and> calls w' = calls w \<and>
    input_buffer w' = input_buffer w \<and>
    Buffer_used (output_buffer w') \<le> Buffer_used (output_buffer w) + length msg \<and>
    sock_out w' = sock_out w @ written msg wr w \<and>
    (output_buffer w' = output_buffer w \<or> Buffer_contents (output_buffer w') \<noteq> [])"
proof -
  let ?ob = "output_buffer w"
  from conn_inv_sending [OF inv st] obtain r where s: "sending w r (Buffer_contents ?ob \<noteq> [])" by blast
  then have wf: "Buffer_wf ?ob" and ep: "EP_inv w" and cst: "chan_state w r (Buffer_contents ?ob \<noteq> [])"
    by (simp_all add: sending_def)
  obtain ch where ch: "chan (conn_channel w) w = Inr ch" "isWriting ch = (Buffer_contents ?ob \<noteq> [])"
    using cst by (rule chan_stateE)
  have len0: "readableBytes ?ob = length (Buffer_contents ?ob)" by (simp add: length_Buffer_contents [OF wf])
  have lenm: "length msg < 2 ^ 64" using room by (simp add: vector_max_def)
  note unf = sendInLoop_def in_loop [OF ep] ch(1) result_bind_Inr Let_def
  consider (part) n where "Buffer_contents ?ob = []" "wr = Wrote n" "n < length msg"
    | (all) "Buffer_contents ?ob = []" "wr = Wrote (length msg)"
    | (err) e where "Buffer_contents ?ob = []" "wr = WriteError e"
    | (wait) "Buffer_contents ?ob \<noteq> []"
    using wr by (cases wr) (auto simp: write_spec_def order_le_less)
  then show ?thesis
  proof cases
    case part
    let ?w = "w\<lparr>sock_out := sock_out w @ take n msg\<rparr>"
    have d: "take (length msg - n) (drop n msg) = drop n msg" "drop n msg \<noteq> []" using part(3) by simp_all
    have sub: "sz_sub (length msg) n = length msg - n" using part(3) lenm by (intro sz_sub_le) simp_all
    have eq: "sendInLoop msg wr w = sendInLoop_rest False
        (high_water_mark w \<le> sz_add 0 (length msg - n) \<and> 0 < high_water_mark w \<and> has_high_water_callback w)
        (HighWater (sz_add 0 (length msg - n))) (drop n msg) ?w"
      using part(3) st by (simp add: unf ch(2) len0 part(1,2) sub d sendInLoop_rest_def)
    have s': "sending ?w r False" using s part(1) by simp
    have room': "Buffer_used (output_buffer ?w) + length (drop n msg) \<le> vector_max" using room by simp
    obtain w' where w': "sendInLoop msg wr w = Inr w'" "conn_inv w'" "conn_state w' = kConnected"
      "stream w' = stream ?w @ drop n msg" "calls w' = calls ?w" "input_buffer w' = input_buffer ?w"
      "Buffer_used (output_buffer w') \<le> Buffer_used (output_buffer ?w) + length (drop n msg)"
      "sock_out w' = sock_out ?w"
      using sendInLoop_rest_ok [OF s' room' d(2)] unfolding eq by blast
    have "stream ?w @ drop n msg = stream w @ msg" "\<not> dropped wr w" "Buffer_contents (output_buffer w') \<noteq> []"
      using part w'(4,8) by (auto simp: stream_def dropped_def)
    with w' part show ?thesis by (intro exI [of _ w']) (simp add: written_def)
  next
    case all
    have "conn_inv (w\<lparr>sock_out := sock_out w @ msg\<rparr>)"
      by (rule sending_conn_inv [of _ r False]) (use s all in simp_all)
    moreover have "conn_inv (queueInLoop WriteComplete (w\<lparr>sock_out := sock_out w @ msg\<rparr>))"
      by (rule sending_conn_inv [of _ r False]) (use s all in simp_all)
    moreover have "sz_sub (length msg) (length msg) = 0" using lenm by (subst sz_sub_le) simp_all
    ultimately show ?thesis
      using all st by (simp add: unf ch(2) len0 stream_def dropped_def written_def)
  next
    case (err e)
    show ?thesis
    proof (cases "dropped wr w \<or> msg = []")
      case True
      with err inv st show ?thesis by (auto simp: unf ch(2) len0 stream_def dropped_def written_def)
    next
      case False
      then have d: "msg \<noteq> []" "e \<noteq> EPIPE" "e \<noteq> ECONNRESET" using err by (auto simp: dropped_def)
      have s': "sending w r False" using s err(1) by simp
      have eq: "sendInLoop msg wr w = sendInLoop_rest False
          (high_water_mark w \<le> sz_add 0 (length msg) \<and> 0 < high_water_mark w \<and> has_high_water_callback w)
          (HighWater (sz_add 0 (length msg))) msg w"
        using d st by (simp add: unf ch(2) len0 err sendInLoop_rest_def)
      obtain w' where "sendInLoop msg wr w = Inr w'" "conn_inv w'" "conn_state w' = kConnected"
        "stream w' = stream w @ msg" "calls w' = calls w" "input_buffer w' = input_buffer w"
        "Buffer_used (output_buffer w') \<le> Buffer_used (output_buffer w) + length msg" "sock_out w' = sock_out w"
        using sendInLoop_rest_ok [OF s' room d(1)] unfolding eq by blast
      with False d(1) err show ?thesis by (intro exI [of _ w']) (auto simp: stream_def written_def)
    qed
  next
    case wait
    show ?thesis
    proof (cases "msg = []")
      case True
      with inv st wait show ?thesis by (auto simp: unf ch(2) len0 stream_def written_def split: write_result.split)
    next
      case False
      have s': "sending w r True" using s wait by simp
      have eq: "sendInLoop msg wr w = sendInLoop_rest True
          (high_water_mark w \<le> sz_add (length (Buffer_contents ?ob)) (length msg) \<and>
            length (Buffer_contents ?ob) < high_water_mark w \<and> has_high_water_callback w)
          (HighWater (sz_add (length (Buffer_contents ?ob)) (length msg))) msg w"
        using False wait st by (simp add: unf ch(2) len0 sendInLoop_rest_def)
      obtain w' where "sendInLoop msg wr w = Inr w'" "conn_inv w'" "conn_state w' = kConnected"
        "stream w' = stream w @ msg" "calls w' = calls w" "input_buffer w' = input_buffer w"
        "Buffer_used (output_buffer w') \<le> Buffer_used (output_buffer w) + length msg" "sock_out w' = sock_out w"
        using sendInLoop_rest_ok [OF s' room False] unfolding eq by blast
      with wait show ?thesis by (intro exI [of _ w']) (auto simp: dropped_def stream_def written_def split: write_result.split)
    qed
  qed
qed

subsection \<open>Draining, shutting down and closing\<close>

lemma shutdownInLoop_ok:
  assumes inv: "conn_inv w" and st: "conn_state w = kDisconnecting"
  shows "shutdownInLoop w = Inr (if Buffer_contents (output_buffer w) = [] then w\<lparr>shut_write := True\<rparr> else w)"
    and "conn_inv (if Buffer_contents (output_buffer w) = [] then w\<lparr>shut_write := True\<rparr> else w)"
proof -
  have lv: "live w" using st by (simp add: live_def)
  obtain r where cst: "chan_state w r (Buffer_contents (output_buffer w) \<noteq> [])"
    using conn_invD(2) [OF inv] lv by auto
  obtain ch where "chan (conn_channel w) w = Inr ch" "isWriting ch = (Buffer_contents (output_buffer w) \<noteq> [])"
    using cst by (rule chan_stateE)
  then show "shutdownInLoop w =
      Inr (if Buffer_contents (output_buffer w) = [] then w\<lparr>shut_write := True\<rparr> else w)"
    by (simp add: shutdownInLoop_def in_loop [OF conn_invD(1) [OF inv]])
  show "conn_inv (if Buffer_contents (output_buffer w) = [] then w\<lparr>shut_write := True\<rparr> else w)"
    using inv cst st by (auto simp: conn_inv_def live_def)
qed

text \<open>What \<open>handleWrite\<close> does once \<open>n\<close> bytes went out: everything but the shut-down.\<close>

lemma conn_inv_queue [simp]: "conn_inv (queueInLoop f w) = conn_inv w"
  by (simp add: conn_inv_def live_def)

lemma handleWrite_idle:
  assumes inv: "conn_inv w" and idle: "\<not> live w \<or> Buffer_contents (output_buffer w) = [] \<or> wr = Wrote 0 \<or> (\<exists>e. wr = WriteError e)"
  shows "handleWrite wr w = Inr w"
proof -
  obtain r where cst: "chan_state w r (live w \<and> Buffer_contents (output_buffer w) \<noteq> [])"
    using conn_invD(2) [OF inv] by blast
  obtain ch where "chan (conn_channel w) w = Inr ch"
    "isWriting ch = (live w \<and> Buffer_contents (output_buffer w) \<noteq> [])"
    using cst by (rule chan_stateE)
  then show ?thesis
    using idle by (auto simp: handleWrite_def in_loop [OF conn_invD(1) [OF inv]] split: write_result.split)
qed

lemma handleWrite_ok:
  assumes inv: "conn_inv w" and lv: "live w" and out: "Buffer_contents (output_buffer w) \<noteq> []"
    and n: "0 < n" "n \<le> length (Buffer_contents (output_buffer w))"
  shows "\<exists>w'. handleWrite (Wrote n) w = Inr w' \<and> conn_inv w' \<and> conn_state w' = conn_state w \<and>
     sock_out w' = sock_out w @ take n (Buffer_contents (output_buffer w)) \<and>
     Buffer_contents (output_buffer w') = drop n (Buffer_contents (output_buffer w)) \<and>
     Buffer_used (output_buffer w') \<le> Buffer_used (output_buffer w) \<and>
     calls w' = calls w \<and> input_buffer w' = input_buffer w \<and>
     shut_write w' = (conn_state w = kDisconnecting \<and> n = length (Buffer_contents (output_buffer w))) \<and>
     (n = length (Buffer_contents (output_buffer w)) \<longrightarrow> output_buffer w' = retrieveAll (output_buffer w))"
proof -
  let ?ob = "output_buffer w"
  note ep = conn_invD(1) [OF inv] and wf = conn_invD(3) [OF inv]
  obtain r where cst: "chan_state w r True" using conn_invD(2) [OF inv] lv out by auto
  obtain ch where ch: "chan (conn_channel w) w = Inr ch" "isWriting ch" using cst by (rule chan_stateE) simp
  have ns: "\<not> shut_write w" using conn_invD(5) [OF inv] lv out by (auto simp: live_def)
  from retrieve_ok [OF wf n(2)] obtain ob where ob: "retrieve n ?ob = Inr ob" "Buffer_wf ob"
    "Buffer_contents ob = drop n (Buffer_contents ?ob)" "Buffer_used ob \<le> Buffer_used ?ob" by blast
  have range: "Buffer_range ?ob (peek ?ob) (peek ?ob + n) = Inr (take n (Buffer_contents ?ob))"
    by (rule Buffer_range_contents [OF wf n(2)])
  have rd: "readableBytes ob = length (Buffer_contents ?ob) - n"
    using length_Buffer_contents [OF ob(2)] ob(3) by simp
  let ?w1 = "w\<lparr>sock_out := sock_out w @ take n (Buffer_contents ?ob), output_buffer := ob\<rparr>"
  have ep1: "EP_inv ?w1" and cst1: "chan_state ?w1 r True" using ep cst by simp_all
  note unf = handleWrite_def in_loop [OF ep] ch range ob(1) rd
  show ?thesis
  proof (cases "n = length (Buffer_contents ?ob)")
    case False
    with n have "drop n (Buffer_contents ?ob) \<noteq> []" by simp
    then have "conn_inv ?w1"
      using inv ep1 cst1 ob(2,3) lv ns by (auto simp: conn_inv_def live_def)
    then show ?thesis using False n ob(3,4) ns by (intro exI [of _ ?w1]) (simp add: unf)
  next
    case True
    obtain cs ds lg where cc: "Channel_change DisableWriting (conn_channel ?w1) ?w1 =
        Inr (?w1\<lparr>chans := cs, channels := ds, ctl_log := lg\<rparr>)"
      "EP_inv (?w1\<lparr>chans := cs, channels := ds, ctl_log := lg\<rparr>)"
      "chan_state (?w1\<lparr>chans := cs, channels := ds, ctl_log := lg\<rparr>) r False"
      by (rule Channel_change_conn [OF ep1 cst1, of DisableWriting r False]) simp_all
    let ?w2 = "?w1\<lparr>chans := cs, channels := ds, ctl_log := lg\<rparr>"
    define w3 where "w3 = (if has_write_complete_callback ?w2 then queueInLoop WriteComplete ?w2 else ?w2)"
    have empty: "Buffer_contents ob = []" and rd0: "readableBytes ob = 0" using True ob(3) rd by simp_all
    have all: "ob = retrieveAll ?ob" using ob(1) True length_Buffer_contents [OF wf] by (simp add: retrieve_def)
    have inv2: "conn_inv ?w2" using inv cc(2,3) ob(2) empty lv ns by (auto simp: conn_inv_def live_def)
    then have inv3: "conn_inv w3" by (simp add: w3_def split: if_split)
    have f3: "output_buffer w3 = ob" "conn_state w3 = conn_state w"
      "sock_out w3 = sock_out w @ take n (Buffer_contents ?ob)" "calls w3 = calls w"
      "input_buffer w3 = input_buffer w" "shut_write w3 = shut_write w" by (simp_all add: w3_def split: if_split)
    have eq: "handleWrite (Wrote n) w =
        (if conn_state w3 = kDisconnecting then shutdownInLoop w3 else Inr w3)"
      using n(1) cc(1) rd0 by (simp add: handleWrite_def in_loop [OF ep] ch range ob(1) Let_def w3_def)
    show ?thesis
    proof (cases "conn_state w = kDisconnecting")
      case dis: True
      with shutdownInLoop_ok [OF inv3] f3 empty have
        "handleWrite (Wrote n) w = Inr (w3\<lparr>shut_write := True\<rparr>)" "conn_inv (w3\<lparr>shut_write := True\<rparr>)"
        unfolding eq by simp_all
      with f3 ob(4) empty all dis True show ?thesis by (intro exI [of _ "w3\<lparr>shut_write := True\<rparr>"]) simp
    next
      case False
      then have "handleWrite (Wrote n) w = Inr w3" using f3(2) unfolding eq by simp
      with inv3 f3 False ob(4) empty all ns True show ?thesis by (intro exI [of _ w3]) simp
    qed
  qed
qed

lemma handleClose_ok:
  assumes inv: "conn_inv w" and lv: "live w"
  shows "\<exists>w'. handleClose w = Inr w' \<and> conn_inv w' \<and> conn_state w' = kDisconnected \<and>
     sock_out w' = sock_out w \<and> output_buffer w' = output_buffer w \<and> shut_write w' = shut_write w \<and>
     calls w' = calls w @ [ConnectionCall False, CloseCall] \<and> chan_state w' False False \<and> registered w' \<and>
     conn_channel w' = conn_channel w \<and> may_remove (conn_channel w) w' = may_remove (conn_channel w) w"
proof -
  let ?w1 = "setState kDisconnected w"
  obtain r wr where cst: "chan_state ?w1 r wr" and ep: "EP_inv ?w1"
    using conn_invD(1,2) [OF inv] by (auto simp: setState_def)
  obtain cs ds lg where cc: "Channel_change DisableAll (conn_channel ?w1) ?w1 =
      Inr (?w1\<lparr>chans := cs, channels := ds, ctl_log := lg\<rparr>)"
    "EP_inv (?w1\<lparr>chans := cs, channels := ds, ctl_log := lg\<rparr>)"
    "chan_state (?w1\<lparr>chans := cs, channels := ds, ctl_log := lg\<rparr>) False False"
    "registered (?w1\<lparr>chans := cs, channels := ds, ctl_log := lg\<rparr>)"
    by (rule Channel_change_conn [OF ep cst, of DisableAll False False]) simp_all
  let ?w2 = "?w1\<lparr>chans := cs, channels := ds, ctl_log := lg\<rparr>"
  let ?w' = "?w2\<lparr>calls := calls w @ [ConnectionCall False, CloseCall]\<rparr>"
  have "handleClose w = Inr ?w'"
    using lv cc(1) conn_invD(6,8) [OF inv]
    by (simp add: handleClose_def in_loop [OF conn_invD(1) [OF inv]] live_def connection_callback_def
        call_user_def isConnected_def) (simp add: setState_def)
  moreover have "conn_inv ?w'" "chan_state ?w' False False"
    using cc(2,3) conn_invD(3,6-8) [OF inv] by (auto simp: conn_inv_def live_def setState_def)
  moreover have "registered ?w'" using cc(4) by (simp add: registered_def)
  ultimately show ?thesis
    by (intro exI [of _ ?w']) (simp add: setState_def may_remove_def)
qed

subsection \<open>The remaining operations\<close>

lemma change_reading_ok:
  assumes inv: "conn_inv w" and x: "x = EnableReading \<or> x = DisableReading"
  shows "\<exists>w'. result_bind (Channel_change x (conn_channel w) w) (\<lambda>w1. Inr (w1\<lparr>reading := b\<rparr>)) = Inr w' \<and>
     conn_inv w' \<and> stream w' = stream w"
proof -
  obtain r where cst: "chan_state w r (live w \<and> Buffer_contents (output_buffer w) \<noteq> [])"
    using conn_invD(2) [OF inv] by blast
  have "\<exists>r'. change_flags x (r, live w \<and> Buffer_contents (output_buffer w) \<noteq> []) =
      (r', live w \<and> Buffer_contents (output_buffer w) \<noteq> [])" using x by auto
  then obtain r' where fl: "change_flags x (r, live w \<and> Buffer_contents (output_buffer w) \<noteq> []) =
      (r', live w \<and> Buffer_contents (output_buffer w) \<noteq> [])" by blast
  obtain cs ds lg where cc: "Channel_change x (conn_channel w) w = Inr (w\<lparr>chans := cs, channels := ds, ctl_log := lg\<rparr>)"
    "EP_inv (w\<lparr>chans := cs, channels := ds, ctl_log := lg\<rparr>)"
    "chan_state (w\<lparr>chans := cs, channels := ds, ctl_log := lg\<rparr>) r' (live w \<and> Buffer_contents (output_buffer w) \<noteq> [])"
    by (rule Channel_change_conn [OF conn_invD(1) [OF inv] cst fl])
  have "conn_inv (w\<lparr>chans := cs, channels := ds, ctl_log := lg, reading := b\<rparr>)"
    using cc(2,3) conn_invD(3-8) [OF inv] by (auto simp: conn_inv_def live_def)
  with cc(1) show ?thesis by (simp add: stream_def)
qed

lemma startReadInLoop_ok:
  assumes inv: "conn_inv w"
  shows "\<exists>w'. startReadInLoop w = Inr w' \<and> conn_inv w' \<and> stream w' = stream w"
    and "\<exists>w'. stopReadInLoop w = Inr w' \<and> conn_inv w' \<and> stream w' = stream w"
proof -
  obtain r wr where cst: "chan_state w r wr" using conn_invD(2) [OF inv] by blast
  obtain ch where ch: "chan (conn_channel w) w = Inr ch" using cst by (rule chan_stateE)
  note l = in_loop [OF conn_invD(1) [OF inv]]
  show "\<exists>w'. startReadInLoop w = Inr w' \<and> conn_inv w' \<and> stream w' = stream w"
    using change_reading_ok [OF inv, of EnableReading True] inv
    by (cases "\<not> reading w \<or> \<not> isReading ch") (simp_all add: startReadInLoop_def l ch)
  show "\<exists>w'. stopReadInLoop w = Inr w' \<and> conn_inv w' \<and> stream w' = stream w"
    using change_reading_ok [OF inv, of DisableReading False] inv
    by (cases "reading w \<or> isReading ch") (simp_all add: stopReadInLoop_def l ch)
qed

text \<open>A change of state that keeps the connection alive.\<close>

lemma conn_inv_disconnecting:
  assumes "conn_inv w" and "live w"
  shows "conn_inv (setState kDisconnecting w)" and "stream (setState kDisconnecting w) = stream w"
  using assms by (auto simp: conn_inv_def live_def setState_def stream_def)

lemma call_user_ok:
  "present \<Longrightarrow> conn_inv w \<Longrightarrow> \<exists>w'. call_user present c w = Inr w' \<and> conn_inv w' \<and> stream w' = stream w"
  by (auto simp: call_user_def conn_inv_def live_def stream_def)

lemma shutdownInLoop_live:
  assumes inv: "conn_inv w" and "conn_state w \<noteq> kConnecting" "conn_state w \<noteq> kConnected"
  shows "\<exists>w'. shutdownInLoop w = Inr w' \<and> conn_inv w' \<and> stream w' = stream w"
proof (cases "conn_state w = kDisconnecting")
  case True
  from shutdownInLoop_ok [OF inv True] show ?thesis by (auto simp: stream_def)
next
  case False
  then have st: "conn_state w = kDisconnected" using assms(2,3) by (cases "conn_state w") auto
  then have "\<not> live w" by (simp add: live_def)
  then obtain r where cst: "chan_state w r False" using conn_invD(2) [OF inv] by auto
  obtain ch where "chan (conn_channel w) w = Inr ch" "isWriting ch = False" using cst by (rule chan_stateE)
  then have "shutdownInLoop w = Inr (w\<lparr>shut_write := True\<rparr>)"
    by (simp add: shutdownInLoop_def in_loop [OF conn_invD(1) [OF inv]])
  moreover have "conn_inv (w\<lparr>shut_write := True\<rparr>)" using inv st by (auto simp: conn_inv_def live_def)
  ultimately show ?thesis by (simp add: stream_def)
qed

lemma handleRead_ok:
  assumes inv: "conn_inv w" and lv: "live w" and wf: "Buffer_wf (input_buffer w)"
    and fits: "\<forall>bytes. rd = Inr bytes \<longrightarrow> length bytes \<le> writableBytes (input_buffer w)"
  shows "\<exists>w'. TcpConnection_handleRead rd t w = Inr w' \<and> conn_inv w' \<and> stream w' = stream w"
proof (cases rd)
  case (Inl e)
  with inv show ?thesis
    by (auto simp: TcpConnection_handleRead_def in_loop [OF conn_invD(1) [OF inv]] readFd_error
        handleError_def stream_def conn_inv_def live_def)
next
  case (Inr bytes)
  with fits have "length bytes \<le> writableBytes (input_buffer w)" by simp
  from readFd_fits [OF wf this] obtain ib where ib: "readFd (input_buffer w) (Inr bytes) = Inr (ib, Inr (length bytes))"
    by blast
  let ?w = "w\<lparr>input_buffer := ib\<rparr>"
  have inv': "conn_inv ?w" "live ?w" "stream ?w = stream w"
    using inv lv by (simp_all add: conn_inv_def live_def stream_def)
  have eq: "TcpConnection_handleRead rd t w =
      (if bytes \<noteq> [] then call_user (has_message_callback ?w) (MessageCall t) ?w else handleClose ?w)"
    by (simp add: TcpConnection_handleRead_def in_loop [OF conn_invD(1) [OF inv]] Inr ib)
  show ?thesis
  proof (cases "bytes = []")
    case True
    from handleClose_ok [OF inv'(1,2)] obtain w' where "handleClose ?w = Inr w'" "conn_inv w'"
      "sock_out w' = sock_out ?w" "output_buffer w' = output_buffer ?w" by blast
    with True show ?thesis unfolding eq by (intro exI [of _ w']) (simp add: stream_def)
  next
    case False
    with call_user_ok [OF conn_invD(7) [OF inv'(1)] inv'(1)] inv'(3) show ?thesis unfolding eq by simp
  qed
qed

text \<open>Input that fits is appended and handed to the message callback.\<close>

lemma handleRead_message:
  assumes inv: "conn_inv w" and wf: "Buffer_wf (input_buffer w)" and "bytes \<noteq> []"
    and "length bytes \<le> writableBytes (input_buffer w)"
  shows "\<exists>ib. TcpConnection_handleRead (Inr bytes) t w = Inr (w\<lparr>input_buffer := ib, calls := calls w @ [MessageCall t]\<rparr>) \<and>
     Buffer_wf ib \<and> Buffer_contents ib = Buffer_contents (input_buffer w) @ bytes"
proof -
  from readFd_fits [OF wf assms(4)] obtain ib where
    "readFd (input_buffer w) (Inr bytes) = Inr (ib, Inr (length bytes))" "Buffer_wf ib"
    "Buffer_contents ib = Buffer_contents (input_buffer w) @ bytes" by blast
  then show ?thesis
    using assms(3) conn_invD(7) [OF inv]
    by (intro exI [of _ ib]) (simp add: TcpConnection_handleRead_def call_user_def in_loop [OF conn_invD(1) [OF inv]])
qed

subsection \<open>Histories\<close>

text \<open>What can happen to a connection in its loop: the user's calls, the events of the channel, and
  the functors of the queue one after the other. \<open>Send r msg wr\<close> is a call with the message at
  address \<open>r\<close>.\<close>

datatype conn_event =
    Send addr string write_result | Shutdown | ForceClose | ForceCloseDelay | StartRead | StopRead
  | Readable "int + string" TimeStamp | Writable write_result | Hup | Error | RunPending write_result

definition run_pending :: "write_result \<Rightarrow> TcpConnection \<Rightarrow> TcpConnection result" where
  "run_pending wr w =
     (case pending_functors w of [] \<Rightarrow> Inr w
      | f # fs \<Rightarrow> run_conn_functor wr f (w\<lparr>pending_functors := fs\<rparr>))"

fun conn_step :: "conn_event \<Rightarrow> TcpConnection \<Rightarrow> TcpConnection result" where
  "conn_step (Send r msg wr) w = TcpConnection_send r msg wr w"
| "conn_step Shutdown w = TcpConnection_shutdown w"
| "conn_step ForceClose w = Inr (forceClose w)"
| "conn_step ForceCloseDelay w = Inr (forceCloseWithDelay w)"
| "conn_step StartRead w = startRead w"
| "conn_step StopRead w = stopRead w"
| "conn_step (Readable rd t) w = conn_handler rd (Wrote 0) (OnRead t) w"
| "conn_step (Writable wr) w = conn_handler (Inr []) wr OnWrite w"
| "conn_step Hup w = conn_handler (Inr []) (Wrote 0) OnClose w"
| "conn_step Error w = conn_handler (Inr []) (Wrote 0) OnError w"
| "conn_step (RunPending wr) w = run_pending wr w"

text \<open>When an event can happen: the kernel reports input and hang-up only on a channel that is still
  watched, its results are within what was asked for, received bytes fit into the free space of the
  input buffer, sent ones into memory, a queued callback is still set and a queued reference still
  valid.\<close>

definition send_room :: "string \<Rightarrow> write_result \<Rightarrow> TcpConnection \<Rightarrow> bool" where
  "send_room msg wr w \<longleftrightarrow>
     write_spec (length msg) wr \<and> Buffer_used (output_buffer w) + length msg \<le> vector_max"

fun event_ok :: "conn_event \<Rightarrow> TcpConnection \<Rightarrow> bool" where
  "event_ok (Send r msg wr) w = send_room msg wr w"
| "event_ok (Readable rd t) w =
     (live w \<and> Buffer_wf (input_buffer w) \<and>
      (case rd of Inl e \<Rightarrow> True | Inr bytes \<Rightarrow> length bytes \<le> writableBytes (input_buffer w)))"
| "event_ok (Writable wr) w = write_spec (length (Buffer_contents (output_buffer w))) wr"
| "event_ok Hup w = live w"
| "event_ok (RunPending wr) w =
     (case pending_functors w of [] \<Rightarrow> True
      | WriteComplete # fs \<Rightarrow> has_write_complete_callback w
      | HighWater n # fs \<Rightarrow> has_high_water_callback w
      | ShutdownInLoop # fs \<Rightarrow> conn_state w = kDisconnecting \<or> conn_state w = kDisconnected
      | SendRef r # fs \<Rightarrow> (case strings w r of None \<Rightarrow> False | Some msg \<Rightarrow> send_room msg wr w)
      | SendBuf r # fs \<Rightarrow>
          (case sent_buffers w r of None \<Rightarrow> False
           | Some b \<Rightarrow> Buffer_wf b \<and> send_room (Buffer_contents b) wr w)
      | _ \<Rightarrow> True)"
| "event_ok _ w = True"

text \<open>The messages an event makes the connection responsible for.\<close>

definition taken_send :: "string \<Rightarrow> write_result \<Rightarrow> TcpConnection \<Rightarrow> string list" where
  "taken_send msg wr w = (if conn_state w = kConnected \<and> \<not> dropped wr w then [msg] else [])"

fun taken :: "conn_event \<Rightarrow> TcpConnection \<Rightarrow> string list" where
  "taken (Send r msg wr) w = taken_send msg wr w"
| "taken (RunPending wr) w =
     (case pending_functors w of
        SendRef r # fs \<Rightarrow> taken_send (the (strings w r)) wr w
      | SendBuf r # fs \<Rightarrow> taken_send (Buffer_contents (the (sent_buffers w r))) wr w
      | _ \<Rightarrow> [])"
| "taken _ w = []"

lemma send_ok:
  assumes inv: "conn_inv w" and room: "send_room msg wr w"
  shows "\<exists>w'. TcpConnection_send r msg wr w = Inr w' \<and> conn_inv w' \<and>
     stream w' = stream w @ concat (taken_send msg wr w)"
proof (cases "conn_state w = kConnected")
  case True
  have "isInLoopThread w" by (rule isInLoopThread_inv [OF conn_invD(1) [OF inv]])
  with True sendInLoop_ok [OF inv True, of msg wr] room show ?thesis
    by (auto simp: TcpConnection_send_def send_room_def taken_send_def)
next
  case False
  with inv show ?thesis by (simp add: TcpConnection_send_def taken_send_def)
qed

lemma pending_frame [simp]:
  "conn_inv (w\<lparr>pending_functors := fs\<rparr>) = conn_inv w" "stream (w\<lparr>pending_functors := fs\<rparr>) = stream w"
  "live (w\<lparr>pending_functors := fs\<rparr>) = live w" "send_room msg wr (w\<lparr>pending_functors := fs\<rparr>) = send_room msg wr w"
  "taken_send msg wr (w\<lparr>pending_functors := fs\<rparr>) = taken_send msg wr w"
proof -
  have "EP_inv (w\<lparr>pending_functors := fs\<rparr>) = EP_inv w" by (rule EP_inv_cong) simp_all
  moreover have "chan_state (w\<lparr>pending_functors := fs\<rparr>) = chan_state w"
    by (simp add: chan_state_def fun_eq_iff)
  ultimately show "conn_inv (w\<lparr>pending_functors := fs\<rparr>) = conn_inv w" by (simp add: conn_inv_def live_def)
qed (simp_all add: stream_def live_def send_room_def taken_send_def dropped_def)

lemma sent_buffers_frame [simp]:
  "conn_inv (w\<lparr>sent_buffers := m\<rparr>) = conn_inv w" "stream (w\<lparr>sent_buffers := m\<rparr>) = stream w"
  "send_room msg wr (w\<lparr>sent_buffers := m\<rparr>) = send_room msg wr w"
  "taken_send msg wr (w\<lparr>sent_buffers := m\<rparr>) = taken_send msg wr w"
proof -
  have "EP_inv (w\<lparr>sent_buffers := m\<rparr>) = EP_inv w" by (rule EP_inv_cong) simp_all
  moreover have "chan_state (w\<lparr>sent_buffers := m\<rparr>) = chan_state w"
    by (simp add: chan_state_def fun_eq_iff)
  ultimately show "conn_inv (w\<lparr>sent_buffers := m\<rparr>) = conn_inv w" by (simp add: conn_inv_def live_def)
qed (simp_all add: stream_def send_room_def taken_send_def dropped_def)

lemma run_pending_ok:
  assumes inv: "conn_inv w" and ok: "event_ok (RunPending wr) w"
  shows "\<exists>w'. run_pending wr w = Inr w' \<and> conn_inv w' \<and> stream w' = stream w @ concat (taken (RunPending wr) w)"
proof (cases "pending_functors w")
  case Nil
  with inv show ?thesis by (simp add: run_pending_def)
next
  case (Cons f fs)
  let ?w = "w\<lparr>pending_functors := fs\<rparr>"
  have inv': "conn_inv ?w" using inv by simp
  show ?thesis
  proof (cases f)
    case ForceCloseInLoop
    show ?thesis
    proof (cases "live w")
      case True
      then have "live ?w" by simp
      from handleClose_ok [OF inv' this] obtain w' where "handleClose ?w = Inr w'" "conn_inv w'"
        "sock_out w' = sock_out ?w" "output_buffer w' = output_buffer ?w" by blast
      with Cons ForceCloseInLoop True show ?thesis
        by (intro exI [of _ w'])
           (simp add: run_pending_def forceCloseInLoop_def in_loop [OF conn_invD(1) [OF inv']] live_def stream_def)
    next
      case False
      with Cons ForceCloseInLoop inv' show ?thesis
        by (simp add: run_pending_def forceCloseInLoop_def in_loop [OF conn_invD(1) [OF inv']] live_def)
    qed
  next
    case ShutdownInLoop
    with shutdownInLoop_live [OF inv'] ok Cons show ?thesis by (auto simp: run_pending_def)
  next
    case (SendRef r)
    then obtain msg where msg: "strings w r = Some msg" "send_room msg wr w"
      using ok Cons by (auto split: option.splits)
    then have "send_room msg wr ?w" by simp
    from send_ok [OF inv' this, of r] Cons SendRef msg show ?thesis by (simp add: run_pending_def)
  next
    case (SendBuf r)
    then obtain b where b: "sent_buffers w r = Some b" "Buffer_wf b" "send_room (Buffer_contents b) wr w"
      using ok Cons by (auto split: option.splits)
    from retrieveAsString_ok [OF b(2) order_refl] obtain b' where "retrieveAllAsString b = Inr (Buffer_contents b, b')"
      by (auto simp: retrieveAllAsString_def length_Buffer_contents [OF b(2)])
    moreover from b(3) have "send_room (Buffer_contents b) wr (?w\<lparr>sent_buffers := m\<rparr>)" for m by simp
    moreover have "conn_inv (?w\<lparr>sent_buffers := m\<rparr>)" for m using inv' by simp
    ultimately show ?thesis
      using send_ok [of "?w\<lparr>sent_buffers := (sent_buffers w)(r \<mapsto> b')\<rparr>" "Buffer_contents b" wr r] Cons SendBuf b(1)
      by (simp add: run_pending_def)
  next
    case WriteComplete
    then have "has_write_complete_callback ?w" using ok Cons by simp
    from call_user_ok [OF this inv'] Cons WriteComplete show ?thesis by (simp add: run_pending_def)
  next
    case (HighWater n)
    then have "has_high_water_callback ?w" using ok Cons by simp
    from call_user_ok [OF this inv'] Cons HighWater show ?thesis by (simp add: run_pending_def)
  next
    case StartReadInLoop
    with startReadInLoop_ok(1) [OF inv'] Cons show ?thesis by (simp add: run_pending_def)
  next
    case StopReadInLoop
    with startReadInLoop_ok(2) [OF inv'] Cons show ?thesis by (simp add: run_pending_def)
  qed
qed

lemma shutdown_ok:
  assumes inv: "conn_inv w"
  shows "\<exists>w'. TcpConnection_shutdown w = Inr w' \<and> conn_inv w' \<and> stream w' = stream w"
proof (cases "conn_state w = kConnected")
  case True
  let ?w = "setState kDisconnecting w"
  have inv': "conn_inv ?w" "stream ?w = stream w" using conn_inv_disconnecting [OF inv] True by (simp_all add: live_def)
  have "isInLoopThread ?w" by (rule isInLoopThread_inv [OF conn_invD(1) [OF inv'(1)]])
  moreover have "conn_state ?w = kDisconnecting" by (simp add: setState_def)
  ultimately show ?thesis
    using shutdownInLoop_live [OF inv'(1)] inv'(2) True
    by (simp add: TcpConnection_shutdown_def runInLoop_def)
next
  case False
  with inv show ?thesis by (simp add: TcpConnection_shutdown_def)
qed

lemma handleWrite_stream:
  assumes inv: "conn_inv w" and ok: "write_spec (length (Buffer_contents (output_buffer w))) wr"
  shows "\<exists>w'. handleWrite wr w = Inr w' \<and> conn_inv w' \<and> stream w' = stream w \<and>
     conn_state w' = conn_state w \<and> input_buffer w' = input_buffer w"
proof (cases "\<not> live w \<or> Buffer_contents (output_buffer w) = [] \<or> wr = Wrote 0 \<or> (\<exists>e. wr = WriteError e)")
  case True
  from handleWrite_idle [OF inv True] inv show ?thesis by simp
next
  case False
  then obtain n where n: "wr = Wrote n" "0 < n" by (cases wr) auto
  with ok have "n \<le> length (Buffer_contents (output_buffer w))" by (simp add: write_spec_def)
  from handleWrite_ok [OF inv _ _ n(2) this] False obtain w' where
    "handleWrite (Wrote n) w = Inr w'" "conn_inv w'" "conn_state w' = conn_state w" "input_buffer w' = input_buffer w"
    "sock_out w' = sock_out w @ take n (Buffer_contents (output_buffer w))"
    "Buffer_contents (output_buffer w') = drop n (Buffer_contents (output_buffer w))" by blast
  then show ?thesis using n by (intro exI [of _ w']) (simp add: stream_def)
qed

lemma conn_step_ok:
  assumes inv: "conn_inv w" and ok: "event_ok ev w"
  shows "\<exists>w'. conn_step ev w = Inr w' \<and> conn_inv w' \<and> stream w' = stream w @ concat (taken ev w)"
proof -
  have il: "isInLoopThread w" by (rule isInLoopThread_inv [OF conn_invD(1) [OF inv]])
  show ?thesis
  proof (cases ev)
    case (Send r msg wr)
    with send_ok [OF inv, of msg wr r] ok show ?thesis by simp
  next
    case Shutdown
    with shutdown_ok [OF inv] show ?thesis by simp
  next
    case ForceClose
    with conn_inv_disconnecting [OF inv] inv show ?thesis by (simp add: forceClose_def live_def)
  next
    case ForceCloseDelay
    with conn_inv_disconnecting [OF inv] inv show ?thesis by (simp add: forceCloseWithDelay_def live_def)
  next
    case StartRead
    with startReadInLoop_ok(1) [OF inv] il show ?thesis by (simp add: startRead_def runInLoop_def)
  next
    case StopRead
    with startReadInLoop_ok(2) [OF inv] il show ?thesis by (simp add: stopRead_def runInLoop_def)
  next
    case (Readable rd t)
    then have "live w" "Buffer_wf (input_buffer w)"
      "\<forall>bytes. rd = Inr bytes \<longrightarrow> length bytes \<le> writableBytes (input_buffer w)" using ok by auto
    from handleRead_ok [OF inv this] Readable show ?thesis by simp
  next
    case (Writable wr)
    with handleWrite_stream [OF inv, of wr] ok show ?thesis by auto
  next
    case Hup
    with ok have "live w" by simp
    from handleClose_ok [OF inv this] obtain w' where "handleClose w = Inr w'" "conn_inv w'"
      "sock_out w' = sock_out w" "output_buffer w' = output_buffer w" by blast
    with Hup show ?thesis by (intro exI [of _ w']) (simp add: stream_def)
  next
    case Error
    with inv show ?thesis by (simp add: handleError_def)
  next
    case (RunPending wr)
    with run_pending_ok [OF inv] ok show ?thesis by simp
  qed
qed

subsection \<open>Creating and establishing\<close>

text \<open>A connection as \<open>TcpServer\<close> and \<open>TcpClient\<close> set it up: constructed, then given its callbacks.\<close>

definition wire :: "bool \<Rightarrow> bool \<Rightarrow> TcpConnection \<Rightarrow> TcpConnection" where
  "wire wc hw w =
     w\<lparr>has_connection_callback := True, has_message_callback := True, has_close_callback := True,
       has_write_complete_callback := wc, has_high_water_callback := hw\<rparr>"

lemma TcpConnection_new_ok:
  assumes ep: "EP_inv l" and fresh: "chans l c = None" "channels l fd = None"
  shows "\<exists>w. TcpConnection_new name c fd l = Inr w \<and> conn_inv (wire wc hw w) \<and>
     conn_state w = kConnecting \<and> stream w = [] \<and> conn_channel w = c \<and> calls w = [] \<and>
     Buffer_wf (input_buffer w) \<and> Buffer_used (output_buffer w) = kCheapPrepend"
proof -
  obtain b where b: "Buffer_new kInitialSize = Inr b" "Buffer_wf b" "Buffer_contents b = []"
    "Buffer_used b = kCheapPrepend"
    using Buffer_new_ok [of kInitialSize]
    by (auto simp: kInitialSize_def kCheapPrepend_def vector_max_def Buffer_used_def)
  let ?ch = "Channel_new fd\<lparr>read_callback := True, write_callback := True, close_callback := True,
      error_callback := True\<rparr>"
  let ?x = "EventLoop.EventLoop.extend l (TcpConnection.TcpConnection.fields name kConnecting True c
      default_high_water_mark b b False False False False False Map.empty Map.empty [] False [])"
  let ?w = "set_chan c ?ch ?x"
  have x: "chans ?x = chans l" "channels ?x = channels l" "ctl_log ?x = ctl_log l"
    "events_size ?x = events_size l" "loop_thread ?x = loop_thread l" "current_thread ?x = current_thread l"
    "output_buffer ?x = b" "conn_state ?x = kConnecting" "conn_channel ?x = c" "calls ?x = []"
    "sock_out ?x = []" "input_buffer ?x = b" "shut_write ?x = False"
    by (simp_all add: EventLoop.EventLoop.defs TcpConnection.TcpConnection.defs)
  have epx: "EP_inv ?x" using ep EP_inv_cong [of ?x l] x by simp
  have "EP_inv (set_chan c ?ch (Channel_create c fd ?x))"
    by (rule EP_inv_set_chan [where ch = "Channel_new fd", OF EP_inv_create [OF epx]]) (simp_all add: fresh x Channel_create_def Channel_new_def)
  then have ep': "EP_inv ?w" by (simp add: Channel_create_def)
  have f: "output_buffer (set_chan a ch y) = output_buffer y" "conn_state (set_chan a ch y) = conn_state y"
    "conn_channel (set_chan a ch y) = conn_channel y" "calls (set_chan a ch y) = calls y"
    "sock_out (set_chan a ch y) = sock_out y" "input_buffer (set_chan a ch y) = input_buffer y"
    "shut_write (set_chan a ch y) = shut_write y" for a ch and y :: TcpConnection
    by (simp_all add: set_chan_def)
  have "EP_inv (wire wc hw ?w)" using ep' EP_inv_cong [of "wire wc hw ?w" ?w] by (simp add: wire_def)
  moreover have "chan_state (wire wc hw ?w) False False"
    using fresh(2) by (simp add: chan_state_def wire_def f x Channel_new_def mask_of_def)
  ultimately have "conn_inv (wire wc hw ?w)"
    using b by (auto simp: conn_inv_def live_def wire_def f x)
  moreover have "TcpConnection_new name c fd l = Inr ?w" by (simp add: TcpConnection_new_def b)
  ultimately show ?thesis using b by (intro exI [of _ ?w]) (simp add: f x stream_def)
qed

lemma TcpConnection_new_input:
  assumes "TcpConnection_new name c fd l = Inr w"
  shows "Buffer_contents (input_buffer w) = []" "writableBytes (input_buffer w) = kInitialSize"
    "read_index (input_buffer w) = kCheapPrepend"
proof -
  obtain b where b: "Buffer_new kInitialSize = Inr b" "Buffer_contents b = []" "writableBytes b = kInitialSize"
    "read_index b = kCheapPrepend"
    using Buffer_new_ok [of kInitialSize] by (auto simp: kCheapPrepend_def kInitialSize_def vector_max_def)
  then have "input_buffer w = b"
    using assms by (auto simp: TcpConnection_new_def set_chan_def TcpConnection.TcpConnection.defs EventLoop.EventLoop.defs)
  with b show "Buffer_contents (input_buffer w) = []" "writableBytes (input_buffer w) = kInitialSize"
    "read_index (input_buffer w) = kCheapPrepend" by simp_all
qed

lemma connectEstablished_ok:
  assumes inv: "conn_inv w" and st: "conn_state w = kConnecting"
  shows "\<exists>w'. connectEstablished obj w = Inr w' \<and> conn_inv w' \<and> conn_state w' = kConnected \<and>
     stream w' = stream w \<and> calls w' = calls w @ [ConnectionCall True] \<and> (\<exists>wr. chan_state w' True wr) \<and>
     input_buffer w' = input_buffer w \<and> output_buffer w' = output_buffer w"
proof -
  have nl: "\<not> live w" and ns: "\<not> shut_write w" and empty: "Buffer_contents (output_buffer w) = []"
    using st conn_invD(4,5) [OF inv] by (auto simp: live_def)
  obtain r where cst: "chan_state w r False" using conn_invD(2) [OF inv] nl by auto
  then obtain ch where ch: "chans w (conn_channel w) = Some ch" "ch_events ch = mask_of r False"
    "channels w (ch_fd ch) = None \<or> channels w (ch_fd ch) = Some (conn_channel w)"
    by (auto simp: chan_state_def)
  let ?w1 = "set_chan (conn_channel w) (Channel_tie obj ch) (setState kConnected w)"
  have ep0: "EP_inv (setState kConnected w)" using conn_invD(1) [OF inv] by (simp add: setState_def)
  have ep1: "EP_inv ?w1"
    by (rule EP_inv_set_chan [where ch = ch, OF ep0]) (simp_all add: ch Channel_tie_def setState_def)
  have cst1: "chan_state ?w1 r False"
    using ch by (simp add: chan_state_def set_chan_def setState_def Channel_tie_def)
  obtain cs ds lg where cc: "Channel_change EnableReading (conn_channel ?w1) ?w1 =
      Inr (?w1\<lparr>chans := cs, channels := ds, ctl_log := lg\<rparr>)"
    "EP_inv (?w1\<lparr>chans := cs, channels := ds, ctl_log := lg\<rparr>)"
    "chan_state (?w1\<lparr>chans := cs, channels := ds, ctl_log := lg\<rparr>) True False"
    by (rule Channel_change_conn [OF ep1 cst1, of EnableReading True False]) simp_all
  let ?w2 = "?w1\<lparr>chans := cs, channels := ds, ctl_log := lg\<rparr>"
  let ?w' = "?w2\<lparr>calls := calls w @ [ConnectionCall True]\<rparr>"
  have f: "conn_channel ?w1 = conn_channel w" "has_connection_callback ?w1" "conn_state ?w1 = kConnected"
    "calls ?w1 = calls w" "output_buffer ?w1 = output_buffer w" "sock_out ?w1 = sock_out w"
    "input_buffer ?w1 = input_buffer w" "shut_write ?w1 = shut_write w" "has_message_callback ?w1"
    "has_close_callback ?w1" "conn_channel (setState kConnected w) = conn_channel w"
    using conn_invD(6-8) [OF inv] by (simp_all add: set_chan_def setState_def)
  have ch': "chan (conn_channel w) (setState kConnected w) = Inr ch" using ch(1) by (simp add: chan_def setState_def)
  have "connectEstablished obj w = Inr ?w'"
    using cc(1) st f by (simp add: connectEstablished_def in_loop [OF conn_invD(1) [OF inv]] ch'
        connection_callback_def call_user_def isConnected_def)
  moreover have "conn_inv ?w'"
    using cc(2,3) conn_invD(3,6-8) [OF inv] f ns empty by (auto simp: conn_inv_def live_def)
  ultimately show ?thesis
    using cc(3) f by (intro exI [of _ ?w']) (auto simp: stream_def)
qed

text \<open>A run of a connection, with the messages it took over.\<close>

abbreviation conn_run :: "TcpConnection \<Rightarrow> string list \<Rightarrow> TcpConnection \<Rightarrow> bool" where
  "conn_run \<equiv> machine_run conn_step event_ok taken"

interpretation conn: output_machine conn_step event_ok conn_inv taken stream
  by unfold_locales (use conn_step_ok in force)+

lemma drain:
  assumes "conn_inv w" and "conn_state w = kDisconnecting" and "\<forall>n\<in>set ns. 0 < n"
    and "sum_list ns = length (Buffer_contents (output_buffer w))" and "ns \<noteq> []"
  shows "\<exists>w'. foldM (\<lambda>n. handleWrite (Wrote n)) ns w = Inr w' \<and> conn_inv w' \<and> shut_write w' \<and>
     sock_out w' = stream w \<and> Buffer_contents (output_buffer w') = []"
  using assms
proof (induction ns arbitrary: w)
  case Nil
  then show ?case by simp
next
  case (Cons n ns)
  let ?out = "Buffer_contents (output_buffer w)"
  have n: "0 < n" "n \<le> length ?out" "?out \<noteq> []" and lv: "live w" using Cons.prems by (auto simp: live_def)
  from handleWrite_ok [OF Cons.prems(1) lv n(3,1,2)] obtain w1 where
    w1: "handleWrite (Wrote n) w = Inr w1" "conn_inv w1" "conn_state w1 = kDisconnecting"
      "sock_out w1 = sock_out w @ take n ?out" "Buffer_contents (output_buffer w1) = drop n ?out"
      "shut_write w1 = (n = length ?out)"
    using Cons.prems(2) by auto
  show ?case
  proof (cases "ns = []")
    case True
    with Cons.prems(4) w1 show ?thesis by (auto simp: stream_def)
  next
    case False
    have "sum_list ns = length (Buffer_contents (output_buffer w1))" using Cons.prems(4) w1(5) by simp
    from Cons.IH [OF w1(2,3) _ this False] Cons.prems(3) w1 show ?thesis by (auto simp: stream_def)
  qed
qed

subsection \<open>Properties\<close>

text \<open>C1. Output integrity. Take a connection that was constructed, wired and established in a
  consistent loop, and any run of it: user calls (send, shutdown, forced close, start and stop of
  reading), channel events and queued functors in any order, with any outcomes of the socket
  calls. The bytes the kernel accepted followed by the bytes in the output buffer are exactly the
  messages the connection took over, whole and in order: nothing is lost, duplicated or
  reordered. The channel watches for writability exactly while a live connection has output
  waiting, and the write side is shut down only when all output is out and no more can come.\<close>

theorem output_stream_intact:
  assumes "EP_inv l" and "chans l c = None" and "channels l fd = None"
    and "TcpConnection_new name c fd l = Inr w" and "connectEstablished obj (wire wc hw w) = Inr w0"
    and "conn_run w0 ms w1"
  shows "sock_out w1 @ Buffer_contents (output_buffer w1) = concat ms \<and>
    (\<exists>ch. chan (conn_channel w1) w1 = Inr ch \<and>
       isWriting ch = ((conn_state w1 = kConnected \<or> conn_state w1 = kDisconnecting) \<and>
                       Buffer_contents (output_buffer w1) \<noteq> [])) \<and>
    (shut_write w1 \<longrightarrow> conn_state w1 = kDisconnected \<or>
       conn_state w1 = kDisconnecting \<and> Buffer_contents (output_buffer w1) = [])"
proof -
  have new: "conn_inv (wire wc hw w)" "conn_state w = kConnecting" "stream w = []"
    using TcpConnection_new_ok [OF assms(1-3), of name wc hw] assms(4) by auto
  then have "conn_state (wire wc hw w) = kConnecting" "stream (wire wc hw w) = []"
    by (simp_all add: wire_def stream_def)
  with connectEstablished_ok [OF new(1), of obj] assms(5) have w0: "conn_inv w0" "stream w0 = []" by auto
  from conn.run_inv [OF assms(6) w0(1)] conn.run_out [OF assms(6) w0(1)] w0(2)
  have w1: "conn_inv w1" "stream w1 = concat ms" by simp_all
  obtain r where cst: "chan_state w1 r (live w1 \<and> Buffer_contents (output_buffer w1) \<noteq> [])"
    using conn_invD(2) [OF w1(1)] by blast
  obtain ch where "chan (conn_channel w1) w1 = Inr ch"
    "isWriting ch = (live w1 \<and> Buffer_contents (output_buffer w1) \<noteq> [])"
    using cst by (rule chan_stateE)
  with w1 conn_invD(5) [OF w1(1)] show ?thesis by (auto simp: stream_def live_def)
qed

definition demo_conn_loop :: "conn_functor EventLoop" where
  "demo_conn_loop =
     \<lparr>chans = Map.empty, channels = Map.empty, events_size = 16, ctl_log = [], loop_thread = 1,
      current_thread = 1, loop_handling = False, active_channels = [], current_active_channel = None,
      looping = True, quit_flag = False, calling_pending_functors = False, iteration = 0,
      poll_return_time = 0, wakeup_channel = 9, pending_functors = [], eventfd = 0\<rparr>"

lemma demo_conn_loop_inv: "EP_inv demo_conn_loop" "chans demo_conn_loop 1 = None" "channels demo_conn_loop 5 = None"
  by (simp_all add: demo_conn_loop_def EP_inv_def interest_def wanted_def fun_eq_iff)

lemma demo_established:
  obtains w w0 where "TcpConnection_new ''c'' 1 5 demo_conn_loop = Inr w"
    "connectEstablished 1 (wire True True w) = Inr w0" "conn_inv w0" "conn_state w0 = kConnected" "stream w0 = []"
    "Buffer_used (output_buffer w0) = 8" "chan_state w0 True False"
proof -
  from TcpConnection_new_ok [OF demo_conn_loop_inv, of "''c''" True True] obtain w where
    w: "TcpConnection_new ''c'' 1 5 demo_conn_loop = Inr w" "conn_inv (wire True True w)"
      "conn_state w = kConnecting" "stream w = []" "Buffer_used (output_buffer w) = kCheapPrepend" by blast
  then have "conn_state (wire True True w) = kConnecting" by (simp add: wire_def)
  from connectEstablished_ok [OF w(2) this, of 1] obtain w0 wr where
    w0: "connectEstablished 1 (wire True True w) = Inr w0" "conn_inv w0" "conn_state w0 = kConnected"
      "stream w0 = stream (wire True True w)" "chan_state w0 True wr"
      "output_buffer w0 = output_buffer (wire True True w)" by blast
  have "stream w0 = []" using w0(4) w(4) by (simp add: wire_def stream_def)
  moreover have "wr = False"
  proof -
    have "Buffer_contents (output_buffer w0) = []" using \<open>stream w0 = []\<close> by (simp add: stream_def)
    then obtain r where "chan_state w0 r False" using conn_invD(2) [OF w0(2)] by auto
    with w0(5) show ?thesis by (elim chan_stateE) simp
  qed
  ultimately show ?thesis
    using that [OF w(1) w0(1-3)] w0(5,6) w(5) by (simp add: wire_def kCheapPrepend_def)
qed

theorem output_stream_intact_witness:
  "\<exists>w w0 w1. TcpConnection_new ''c'' 1 5 demo_conn_loop = Inr w \<and>
     connectEstablished 1 (wire True True w) = Inr w0 \<and> conn_run w0 [''hello''] w1 \<and>
     sock_out w1 @ Buffer_contents (output_buffer w1) = ''hello''"
proof -
  obtain w w0 where w: "TcpConnection_new ''c'' 1 5 demo_conn_loop = Inr w"
    "connectEstablished 1 (wire True True w) = Inr w0" "conn_inv w0" "conn_state w0 = kConnected"
    "Buffer_used (output_buffer w0) = 8"
    by (rule demo_established)
  let ?ev = "Send 3 ''hello'' (Wrote 2)"
  have ok: "event_ok ?ev w0" using w(5) by (simp add: send_room_def write_spec_def vector_max_def)
  from conn_step_ok [OF w(3) ok] obtain w1 where "conn_step ?ev w0 = Inr w1" by blast
  from machine_run.run_event [where step = conn_step and enabled = event_ok and out = taken, OF machine_run.run_start ok this] have "conn_run w0 [''hello''] w1"
    using w(4) by (simp add: taken_send_def dropped_def)
  with output_stream_intact [OF demo_conn_loop_inv w(1,2) this] w(1,2) show ?thesis by auto
qed





text \<open>Orderly end. Once the peer closes or a forced close runs, \<open>handleClose\<close> marks the connection
  disconnected, tells the user once, and then \<open>connectDestroyed\<close> takes the channel out of the
  poller and the destructors of connection and channel find nothing to complain about.\<close>

theorem close_then_destroy:
  assumes "conn_inv w" and "conn_state w = kConnected \<or> conn_state w = kDisconnecting"
    and "may_remove (conn_channel w) w"
  shows "\<exists>w1 w2. handleClose w = Inr w1 \<and> connectDestroyed w1 = Inr w2 \<and>
     calls w1 = calls w @ [ConnectionCall False, CloseCall] \<and> calls w2 = calls w1 \<and>
     (\<exists>ch. chan (conn_channel w) w2 = Inr ch \<and> channels w2 (ch_fd ch) = None \<and>
        interest (ctl_log w2) (ch_fd ch) = None \<and>
        (\<not> event_handling ch \<longrightarrow> is_ok (TcpConnection_destroy w2)))"
proof -
  have "live w" using assms(2) by (simp add: live_def)
  from handleClose_ok [OF assms(1) this] obtain w1 where w1: "handleClose w = Inr w1" "conn_inv w1"
    "conn_state w1 = kDisconnected" "calls w1 = calls w @ [ConnectionCall False, CloseCall]"
    "chan_state w1 False False" "registered w1" "conn_channel w1 = conn_channel w"
    and may: "may_remove (conn_channel w1) w1"
    using assms(3) by (elim exE conjE) simp
  note ep = conn_invD(1) [OF w1(2)]
  obtain ch where ch: "chans w1 (conn_channel w1) = Some ch" "isNoneEvent ch"
    using w1(5) by (rule chan_stateE) simp
  then have reg: "index ch \<noteq> kNew" using w1(6) by (simp add: registered_def)
  let ?w2 = "unregistered (conn_channel w1) ch w1"
  let ?ch = "ch\<lparr>added_to_loop := False, index := kNew\<rparr>"
  have ep2: "EP_inv ?w2" by (rule EP_inv_unregistered [OF ep ch(1) reg ch(2)])
  have cd: "connectDestroyed w1 = Inr ?w2"
    using w1(3) Channel_remove_eq [OF ep ch(1) reg ch(2) may] by (simp add: connectDestroyed_def in_loop [OF ep])
  have f: "chans ?w2 (conn_channel w) = Some ?ch" "channels ?w2 (ch_fd ch) = None" "calls ?w2 = calls w1"
    "conn_state ?w2 = kDisconnected" "conn_channel ?w2 = conn_channel w"
    using w1(3,7) by (simp_all add: unregistered_def)
  have "interest (ctl_log ?w2) (ch_fd ch) = None"
    using EP_invD(2) [OF ep2] f(2) by (simp add: wanted_def)
  moreover have "is_ok (TcpConnection_destroy ?w2)" if "\<not> event_handling ch"
    using that f EP_invD(5) [OF ep2]
    by (simp add: TcpConnection_destroy_def Channel_destroy_def EventLoop_hasChannel_def hasChannel_def
        assertInLoopThread_def chan_def)
  ultimately show ?thesis
    using w1(1,4) cd f by (intro exI [of _ w1] exI [of _ ?w2]) (simp add: chan_def)
qed

theorem close_then_destroy_witness:
  "\<exists>w w1 w2. conn_state w = kConnected \<and> handleClose w = Inr w1 \<and> connectDestroyed w1 = Inr w2"
proof -
  obtain w w0 where w: "TcpConnection_new ''c'' 1 5 demo_conn_loop = Inr w"
    "connectEstablished 1 (wire True True w) = Inr w0" "conn_inv w0" "conn_state w0 = kConnected"
    by (rule demo_established)
  let ?w = "w0\<lparr>loop_handling := False\<rparr>"
  have "EP_inv ?w" using conn_invD(1) [OF w(3)] EP_inv_cong [of ?w w0] by simp
  moreover have "chan_state ?w = chan_state w0" by (simp add: chan_state_def fun_eq_iff)
  ultimately have "conn_inv ?w" using w(3) by (simp add: conn_inv_def live_def)
  moreover have "may_remove (conn_channel ?w) ?w" by (simp add: may_remove_def)
  ultimately obtain w1 w2 where "handleClose ?w = Inr w1" "connectDestroyed w1 = Inr w2"
    using close_then_destroy [of ?w] w(4) by auto
  moreover have "conn_state ?w = kConnected" using w(4) by simp
  ultimately show ?thesis by (intro exI [of _ ?w] exI [of _ w1] exI [of _ w2] conjI)
qed

text \<open>C38. Destroying a connection that is still shutting down aborts: \<open>connectDestroyed\<close> disables the
  channel only in state \<open>kConnected\<close>, so after \<open>shutdown()\<close>, while the connection still reads and the
  peer has not closed, the assert in \<open>Channel::remove\<close> fails.\<close>

theorem destroy_while_disconnecting_aborts:
  assumes "conn_inv w" and "conn_state w = kConnected" and "chan_state w True wr"
  shows "\<exists>w1. TcpConnection_shutdown w = Inr w1 \<and> connectDestroyed w1 = Inl AssertFailed"
proof -
  let ?w = "setState kDisconnecting w"
  have inv: "conn_inv ?w" and st: "conn_state ?w = kDisconnecting"
    using conn_inv_disconnecting [OF assms(1)] assms(2) by (simp_all add: live_def setState_def)
  have "TcpConnection_shutdown w = shutdownInLoop ?w"
    using assms(2) isInLoopThread_inv [OF conn_invD(1) [OF inv]]
    by (simp add: TcpConnection_shutdown_def runInLoop_def)
  with shutdownInLoop_ok [OF inv st] obtain w1 where w1: "TcpConnection_shutdown w = Inr w1" "conn_inv w1"
    "w1 = ?w \<or> w1 = ?w\<lparr>shut_write := True\<rparr>"
    by (cases "Buffer_contents (output_buffer ?w) = []") simp_all
  have "chan_state w1 True wr" and st1: "conn_state w1 = kDisconnecting"
    using w1(3) assms(3) st by (auto simp: setState_def)
  then obtain ch where "chan (conn_channel w1) w1 = Inr ch" "\<not> isNoneEvent ch" by (elim chan_stateE) simp
  then have "connectDestroyed w1 = Inl AssertFailed"
    using st1 by (simp add: connectDestroyed_def in_loop [OF conn_invD(1) [OF w1(2)]] Channel_remove_def)
  with w1(1) show ?thesis by blast
qed

theorem destroy_while_disconnecting_aborts_witness:
  "\<exists>w w0 w1. TcpConnection_new ''c'' 1 5 demo_conn_loop = Inr w \<and>
     connectEstablished 1 (wire True True w) = Inr w0 \<and> TcpConnection_shutdown w0 = Inr w1 \<and>
     connectDestroyed w1 = Inl AssertFailed"
proof -
  obtain w w0 where w: "TcpConnection_new ''c'' 1 5 demo_conn_loop = Inr w"
    "connectEstablished 1 (wire True True w) = Inr w0" "conn_inv w0" "conn_state w0 = kConnected"
    "chan_state w0 True False"
    by (rule demo_established)
  from destroy_while_disconnecting_aborts [OF w(3-5)] w show ?thesis by blast
qed

text \<open>Sending from another thread keeps only a reference: when the caller's string is gone before
  the loop runs the queued lambda, the lambda reads a dead object.\<close>

theorem cross_thread_send_dangles:
  assumes "conn_state w = kConnected" and "\<not> isInLoopThread w" and "pending_functors w = []"
  shows "\<exists>w1. TcpConnection_send r msg wr w = Inr w1 \<and>
     run_pending wr' (w1\<lparr>current_thread := loop_thread w1, strings := (strings w1)(r := None)\<rparr>) = Inl UseAfterFree"
  using assms by (simp add: TcpConnection_send_def run_pending_def)

theorem cross_thread_send_dangles_witness:
  "\<exists>w w1. conn_state w = kConnected \<and> TcpConnection_send 3 ''hi'' (Wrote 0) w = Inr w1 \<and>
     run_pending (Wrote 2) (w1\<lparr>current_thread := loop_thread w1, strings := (strings w1)(3 := None)\<rparr>) = Inl UseAfterFree"
proof -
  obtain u w0 where "connectEstablished 1 (wire True True u) = Inr w0" and w0: "conn_state w0 = kConnected"
    by (rule demo_established)
  let ?w = "w0\<lparr>current_thread := loop_thread w0 + 1, pending_functors := []\<rparr>"
  have "conn_state ?w = kConnected" "\<not> isInLoopThread ?w" "pending_functors ?w = []"
    using w0 by (simp_all add: isInLoopThread_def)
  then obtain v :: TcpConnection where v: "conn_state v = kConnected" "\<not> isInLoopThread v" "pending_functors v = []" by blast
  from cross_thread_send_dangles [OF v, of 3 "''hi''" "Wrote 0" "Wrote 2"] v(1) show ?thesis by blast
qed

end
