(* ===== verification/ThreadPool.thy ===== *)
theory ThreadPool
  imports Prelude
begin

text \<open>
  The pool of worker threads: include/libfm/fmutil/ThreadPool.h and util/ThreadPool.cpp.

  \<^item> The pool is a record over an arbitrary type of tasks; a slot of \<open>threads_\<close> is empty, holds a
    running thread or one that was joined.
  \<^item> The critical sections of \<open>submit\<close> and \<open>take\<close> are functions to an option: \<open>None\<close> means that the
    predicate of the condition variable is false, so the call waits. \<open>pool_step\<close> lets a thread go on
    whenever the predicate holds, which covers every order of notifications and spurious wake-ups.
\<close>

datatype thread_slot = NoThread | Running | Joined

record 't ThreadPool =
  pool_name :: string
  task_queue :: "'t list"
  pool_threads :: "thread_slot list"
  pool_running :: bool
  max_size :: nat

definition ThreadPool_new :: "string \<Rightarrow> nat \<Rightarrow> 't ThreadPool" where
  "ThreadPool_new name n =
     \<lparr>pool_name = name, task_queue = [], pool_threads = [], pool_running = False, max_size = n\<rparr>"

text \<open>\<open>threads_.resize\<close>: a negative count becomes a huge \<open>size_t\<close>; dropping a running thread terminates.\<close>

definition ThreadPool_setThreadNum :: "int \<Rightarrow> 't ThreadPool \<Rightarrow> 't ThreadPool result" where
  "ThreadPool_setThreadNum n p =
     check LengthError (0 \<le> n)
       (check Terminated (Running \<notin> set (drop (nat n) (pool_threads p)))
         (Inr (p\<lparr>pool_threads := take (nat n) (pool_threads p) @
                   replicate (nat n - length (pool_threads p)) NoThread\<rparr>)))"

definition ThreadPool_start :: "'t ThreadPool \<Rightarrow> 't ThreadPool result" where
  "ThreadPool_start p =
     check Terminated (Running \<notin> set (pool_threads p))
       (Inr (p\<lparr>pool_running := True, pool_threads := map (\<lambda>_. Running) (pool_threads p)\<rparr>))"

text \<open>\<open>stop\<close>: its critical section, then the joins, which end when every worker has returned.\<close>

definition stop_section :: "'t ThreadPool \<Rightarrow> 't ThreadPool" where
  "stop_section p = p\<lparr>pool_running := False\<rparr>"

definition join_all :: "'t ThreadPool \<Rightarrow> 't ThreadPool result" where
  "join_all p =
     check NullCallback (NoThread \<notin> set (pool_threads p))
       (check Terminated (Joined \<notin> set (pool_threads p))
         (Inr (p\<lparr>pool_threads := map (\<lambda>_. Joined) (pool_threads p)\<rparr>)))"

definition ThreadPool_stop :: "'t ThreadPool \<Rightarrow> 't ThreadPool result" where
  "ThreadPool_stop p = join_all (stop_section p)"

definition ThreadPool_destroy :: "'t ThreadPool \<Rightarrow> unit result" where
  "ThreadPool_destroy p =
     result_bind (if pool_running p then ThreadPool_stop p else Inr p)
       (\<lambda>p'. check Terminated (Running \<notin> set (pool_threads p')) (Inr ()))"

definition submit_section :: "'t \<Rightarrow> 't ThreadPool \<Rightarrow> 't ThreadPool option" where
  "submit_section t p =
     (if length (task_queue p) \<ge> max_size p then Some (p\<lparr>task_queue := task_queue p @ [t]\<rparr>) else None)"

datatype 't submit_result = RunByCaller 't | Submitted "'t ThreadPool" | SubmitWaits

definition submit :: "'t \<Rightarrow> 't ThreadPool \<Rightarrow> 't submit_result" where
  "submit t p =
     (if pool_threads p = [] then RunByCaller t
      else case submit_section t p of None \<Rightarrow> SubmitWaits | Some p' \<Rightarrow> Submitted p')"

text \<open>The value of \<open>take\<close>: \<open>None\<close> inside is the empty \<open>std::function\<close>.\<close>

definition take_section :: "'t ThreadPool \<Rightarrow> ('t option \<times> 't ThreadPool) option" where
  "take_section p =
     (if task_queue p = [] \<and> pool_running p
      then Some (case task_queue p of [] \<Rightarrow> (None, p) | t # ts \<Rightarrow> (Some t, p\<lparr>task_queue := ts\<rparr>))
      else None)"

definition isEmptyQueue :: "'t ThreadPool \<Rightarrow> bool" where
  "isEmptyQueue p \<longleftrightarrow> task_queue p = []"

subsection \<open>The pool and its threads\<close>

text \<open>Where a worker stands in \<open>runInThread\<close>.\<close>

datatype 't worker = AtLoopTest | InTake | Executing 't | Finished

record 't pool_system =
  pool :: "'t ThreadPool"
  workers :: "'t worker list"
  callers :: "'t list"      \<comment> \<open>calls of \<open>submit\<close> that have not returned\<close>
  accepted :: "'t list"     \<comment> \<open>tasks whose \<open>submit\<close> returned\<close>
  executed :: "'t list"     \<comment> \<open>tasks run by a worker\<close>
  stop_returned :: bool

text \<open>One turn of \<open>runInThread\<close> by a worker: its new place, the pool and the task it has run.\<close>

definition runInThread :: "'t worker \<Rightarrow> 't ThreadPool \<Rightarrow> ('t worker \<times> 't ThreadPool \<times> 't list) option" where
  "runInThread k p =
     (case k of
        AtLoopTest \<Rightarrow> Some (if pool_running p \<or> \<not> isEmptyQueue p then InTake else Finished, p, [])
      | InTake \<Rightarrow>
          (case take_section p of
             None \<Rightarrow> None
           | Some (None, p') \<Rightarrow> Some (AtLoopTest, p', [])
           | Some (Some t, p') \<Rightarrow> Some (Executing t, p', []))
      | Executing t \<Rightarrow> Some (AtLoopTest, p, [t])
      | Finished \<Rightarrow> None)"

inductive pool_step :: "'t pool_system \<Rightarrow> 't pool_system \<Rightarrow> bool" where
  call: "pool_step s (s\<lparr>callers := t # callers s\<rparr>)"
| submits: "t \<in> set (callers s) \<Longrightarrow> submit t (pool s) = Submitted p \<Longrightarrow>
    pool_step s (s\<lparr>pool := p, callers := remove1 t (callers s), accepted := accepted s @ [t]\<rparr>)"
| work: "i < length (workers s) \<Longrightarrow> runInThread (workers s ! i) (pool s) = Some (k, p, ts) \<Longrightarrow>
    pool_step s (s\<lparr>pool := p, workers := (workers s)[i := k], executed := executed s @ ts\<rparr>)"
| stop: "pool_step s (s\<lparr>pool := stop_section (pool s)\<rparr>)"
| joined: "\<not> pool_running (pool s) \<Longrightarrow> \<forall>k\<in>set (workers s). k = Finished \<Longrightarrow> join_all (pool s) = Inr p \<Longrightarrow>
    pool_step s (s\<lparr>pool := p, stop_returned := True\<rparr>)"

text \<open>A pool of \<open>n\<close> workers, just started.\<close>

definition pool_started :: "nat \<Rightarrow> 't pool_system \<Rightarrow> bool" where
  "pool_started n s \<longleftrightarrow>
     (\<exists>name m p. ThreadPool_setThreadNum (int n) (ThreadPool_new name m) = Inr p \<and>
        ThreadPool_start p = Inr (pool s)) \<and>
     workers s = replicate n AtLoopTest \<and> callers s = [] \<and> accepted s = [] \<and> executed s = [] \<and>
     \<not> stop_returned s"

inductive pool_reach :: "nat \<Rightarrow> 't pool_system \<Rightarrow> bool" for n where
  start: "pool_started n s \<Longrightarrow> pool_reach n s"
| step: "pool_reach n s \<Longrightarrow> pool_step s s' \<Longrightarrow> pool_reach n s'"

inductive_cases pool_stepE: "pool_step s s'"

lemma take_section_value: "take_section p = Some (x, p') \<Longrightarrow> x = None \<and> p' = p"
  by (simp add: take_section_def split: if_splits)

lemma runInThread_executes:
  "runInThread k p = Some (k', p', ts) \<Longrightarrow> (\<forall>t. k \<noteq> Executing t) \<Longrightarrow>
     p' = p \<and> ts = [] \<and> (\<forall>t. k' \<noteq> Executing t)"
  by (cases k) (auto simp: runInThread_def dest!: take_section_value split: option.splits if_splits)

definition pool_inv :: "nat \<Rightarrow> 't pool_system \<Rightarrow> bool" where
  "pool_inv n s \<longleftrightarrow> length (pool_threads (pool s)) = n \<and> length (workers s) = n \<and> executed s = [] \<and>
     (\<forall>t. Executing t \<notin> set (workers s)) \<and>
     (0 < max_size (pool s) \<longrightarrow> task_queue (pool s) = [] \<and> accepted s = []) \<and>
     (stop_returned s \<longrightarrow> \<not> pool_running (pool s) \<and> (\<forall>k\<in>set (workers s). k = Finished))"

lemma pool_started_inv: "pool_started n s \<Longrightarrow> pool_inv n s"
  by (auto simp: pool_started_def pool_inv_def ThreadPool_setThreadNum_def ThreadPool_new_def
      ThreadPool_start_def check_def eq_commute [of _ "pool s"] split: if_splits)

lemma submit_Submitted:
  "submit t p = Submitted p' \<Longrightarrow> max_size p \<le> length (task_queue p) \<and> p' = p\<lparr>task_queue := task_queue p @ [t]\<rparr>"
  by (simp add: submit_def submit_section_def split: if_splits)

lemma join_all_frame: "join_all p = Inr p' \<Longrightarrow> \<exists>ts. p' = p\<lparr>pool_threads := ts\<rparr> \<and> length ts = length (pool_threads p)"
  by (auto simp: join_all_def check_eq_Inr intro: exI [of _ "map (\<lambda>_. Joined) (pool_threads p)"])

lemma pool_inv_step: "pool_step s s' \<Longrightarrow> pool_inv n s \<Longrightarrow> pool_inv n s'"
proof (induction rule: pool_step.induct)
  case (work i s k p ts)
  have "\<forall>t. workers s ! i \<noteq> Executing t"
    using nth_mem [OF work.hyps(1)] work.prems unfolding pool_inv_def by metis
  then have "p = pool s" "ts = []" "\<And>t. k \<noteq> Executing t"
    using runInThread_executes [OF work.hyps(2)] by simp_all
  moreover have "\<not> stop_returned s"
  proof
    assume "stop_returned s"
    with work.prems work.hyps(1) have "workers s ! i = Finished" by (simp add: pool_inv_def)
    with work.hyps(2) show False by (simp add: runInThread_def)
  qed
  ultimately show ?case
    using work.prems set_update_subset_insert [of "workers s" i k] by (auto simp: pool_inv_def)
next
  case (joined s p)
  then show ?case using join_all_frame [OF joined.hyps(3)] by (auto simp: pool_inv_def)
qed (auto simp: pool_inv_def stop_section_def dest!: submit_Submitted)

lemma pool_reach_inv: "pool_reach n s \<Longrightarrow> pool_inv n s"
  by (induction rule: pool_reach.induct) (auto intro: pool_started_inv pool_inv_step)

lemma stuck_in_take:
  assumes "pool_step s s'" and "\<not> pool_running (pool s)" and "i < length (workers s)" and "workers s ! i = InTake"
    and "\<not> stop_returned s"
  shows "\<not> pool_running (pool s') \<and> i < length (workers s') \<and> workers s' ! i = InTake \<and> \<not> stop_returned s'"
  using assms
proof (induction rule: pool_step.induct)
  case (work j s k p ts)
  have "j \<noteq> i"
    using work by (auto simp: runInThread_def take_section_def)
  moreover have "p = pool s \<or> (\<exists>q. p = (pool s)\<lparr>task_queue := q\<rparr>)"
    using work.hyps(2) by (auto simp: runInThread_def take_section_def split: worker.splits if_splits list.splits)
  ultimately show ?case
    using work.prems by auto
next
  case (joined s p)
  then have "Finished = workers s ! i" by (metis nth_mem)
  with joined show ?case by simp
qed (auto simp: stop_section_def dest!: submit_Submitted)

subsection \<open>Properties\<close>

text \<open>C36. A pool with workers runs no task. In every interleaving of workers, submitters and \<open>stop\<close>, no
  worker has run a task: the predicate of \<open>take\<close> waits until the queue is empty, so the value it
  returns is the empty function. With a positive bound no \<open>submit\<close> has returned either: its predicate
  waits until the queue is full, and nothing fills it.\<close>

theorem workers_run_nothing:
  assumes "pool_reach n s"
  shows "executed s = [] \<and> (0 < max_size (pool s) \<longrightarrow> accepted s = [] \<and> task_queue (pool s) = [])"
  using pool_reach_inv [OF assms] by (simp add: pool_inv_def)

definition demo_pool :: "nat \<Rightarrow> nat pool_system" where
  "demo_pool m =
     \<lparr>pool = \<lparr>pool_name = ''p'', task_queue = [], pool_threads = [Running], pool_running = True, max_size = m\<rparr>,
      workers = [AtLoopTest], callers = [], accepted = [], executed = [], stop_returned = False\<rparr>"

lemma demo_pool_started: "pool_started 1 (demo_pool m)"
proof -
  have "ThreadPool_setThreadNum (int 1) (ThreadPool_new ''p'' m) =
      Inr ((ThreadPool_new ''p'' m)\<lparr>pool_threads := [NoThread]\<rparr> :: nat ThreadPool)"
    by (simp add: ThreadPool_setThreadNum_def ThreadPool_new_def)
  moreover have "ThreadPool_start ((ThreadPool_new ''p'' m)\<lparr>pool_threads := [NoThread]\<rparr>) = Inr (pool (demo_pool m))"
    by (simp add: ThreadPool_start_def ThreadPool_new_def demo_pool_def)
  ultimately show ?thesis
    unfolding pool_started_def by (auto simp: demo_pool_def)
qed

theorem workers_run_nothing_witness:
  "\<exists>s :: nat pool_system. pool_reach 1 s \<and> callers s = [42] \<and> max_size (pool s) = 10240 \<and>
     executed s = [] \<and> accepted s = []"
proof -
  let ?s = "(demo_pool 10240)\<lparr>callers := 42 # callers (demo_pool 10240)\<rparr>"
  have "pool_reach 1 ?s"
    by (rule pool_reach.step [OF pool_reach.start [OF demo_pool_started] pool_step.call])
  with workers_run_nothing [OF this] show ?thesis
    by (intro exI [of _ ?s]) (simp add: demo_pool_def)
qed

text \<open>\<open>stop\<close> does not return. Once \<open>running_\<close> is cleared, a worker that is inside \<open>take\<close> stays there
  whatever happens afterwards, since the predicate it waits for requires \<open>running_\<close>; so \<open>stop\<close>, which
  joins the worker, never returns.\<close>

theorem stop_hangs:
  assumes "pool_reach n s" and "\<not> pool_running (pool s)" and "i < n" and "workers s ! i = InTake"
    and "pool_step\<^sup>*\<^sup>* s s'"
  shows "workers s' ! i = InTake \<and> \<not> stop_returned s'"
proof -
  have s: "i < length (workers s)" "\<not> stop_returned s"
    using pool_reach_inv [OF assms(1)] assms(3,4) nth_mem [of i "workers s"] by (fastforce simp: pool_inv_def)+
  from assms(5) have "\<not> pool_running (pool s') \<and> i < length (workers s') \<and> workers s' ! i = InTake \<and> \<not> stop_returned s'"
  proof (induction rule: rtranclp_induct)
    case base
    with s assms(2,4) show ?case by simp
  next
    case (step y z)
    with stuck_in_take show ?case by blast
  qed
  then show ?thesis by simp
qed

theorem stop_hangs_witness:
  "\<exists>s :: nat pool_system. pool_reach 1 s \<and> \<not> pool_running (pool s) \<and> workers s ! 0 = InTake \<and>
     (\<forall>s'. pool_step\<^sup>*\<^sup>* s s' \<longrightarrow> \<not> stop_returned s')"
proof -
  let ?s1 = "(demo_pool 1)\<lparr>workers := [InTake]\<rparr>"
  let ?s2 = "?s1\<lparr>pool := stop_section (pool ?s1)\<rparr>"
  have "pool_step (demo_pool 1) ?s1"
    using pool_step.work [of 0 "demo_pool 1" InTake "pool (demo_pool 1)" "[]"]
    by (simp add: demo_pool_def runInThread_def)
  then have "pool_reach 1 ?s2"
    by (metis pool_reach.start pool_reach.step demo_pool_started pool_step.stop)
  moreover have "\<not> pool_running (pool ?s2)" "workers ?s2 ! 0 = InTake"
    by (simp_all add: stop_section_def)
  ultimately have "pool_reach 1 ?s2 \<and> \<not> pool_running (pool ?s2) \<and> workers ?s2 ! 0 = InTake \<and>
      (\<forall>s'. pool_step\<^sup>*\<^sup>* ?s2 s' \<longrightarrow> \<not> stop_returned s')"
    using stop_hangs [of 1 ?s2 0] by simp
  then show ?thesis by (rule exI)
qed

end
