(* ===== verification/HttpServer.thy ===== *)
theory HttpServer
  imports HttpContext TcpConnection ThreadPool
begin

text \<open>
  Responses and the HTTP server: include/libfm/fmnet/http/HttpResponse.h, net/http/HttpResponse.cpp,
  include/libfm/fmnet/http/HttpServer.h and net/http/HttpServer.cpp.

  \<^item> The order in which an \<open>unordered_map\<close> is traversed is not specified, so \<open>appendToBuffer\<close> takes the
    keys of the header map in the order of the traversal.
  \<^item> The server is seen at one connection: its methods act on the connection, the \<open>HttpContext\<close> kept in it
    as user context and the pool, whose tasks are the requests of that connection.
\<close>

subsection \<open>HttpResponse\<close>

datatype HttpStatusCode = kInvalidStatus | k200OK | k301MovedPermanently | k400BadRequest | k404NotFound

fun status_number :: "HttpStatusCode \<Rightarrow> nat" where
  "status_number kInvalidStatus = 0" | "status_number k200OK = 200" | "status_number k301MovedPermanently = 301"
| "status_number k400BadRequest = 400" | "status_number k404NotFound = 404"

record HttpResponse =
  resp_version :: Version
  statusCode :: HttpStatusCode
  statusMessage :: string
  resp_headers :: "string \<rightharpoonup> string"
  closeConnection :: bool
  resp_body :: string

definition HttpResponse_new :: "bool \<Rightarrow> HttpResponse" where
  "HttpResponse_new close =
     \<lparr>resp_version = kUnknownVersion, statusCode = kInvalidStatus, statusMessage = [], resp_headers = Map.empty,
      closeConnection = close, resp_body = []\<rparr>"

definition HttpResponse_addHeader :: "string \<Rightarrow> string \<Rightarrow> HttpResponse \<Rightarrow> HttpResponse" where
  "HttpResponse_addHeader field val r = r\<lparr>resp_headers := (resp_headers r)(field \<mapsto> val)\<rparr>"

definition setContentType :: "string \<Rightarrow> HttpResponse \<Rightarrow> HttpResponse" where
  "setContentType t r = HttpResponse_addHeader ''Content-Type'' t r"

definition versionToStr :: "Version \<Rightarrow> string result" where
  "versionToStr v =
     assert_c (v \<noteq> kUnknownVersion)
       (Inr (case v of kHttp10 \<Rightarrow> ''HTTP/1.0'' | kHttp11 \<Rightarrow> ''HTTP/1.1'' | kHttp20 \<Rightarrow> ''HTTP/2.0'' | _ \<Rightarrow> []))"

definition appendToBuffer :: "string list \<Rightarrow> HttpResponse \<Rightarrow> Buffer \<Rightarrow> Buffer result" where
  "appendToBuffer order r b =
     result_bind (versionToStr (resp_version r)) (\<lambda>ver.
     result_bind (Buffer_append (snprintf 32 (ver @ '' '' @ show_nat (status_number (statusCode r)) @ '' '')) b) (\<lambda>b.
     result_bind (Buffer_append (statusMessage r) b) (\<lambda>b.
     result_bind (Buffer_append kCRLF b) (\<lambda>b.
     result_bind
       (if closeConnection r then Buffer_append (''Connection: close'' @ kCRLF) b
        else result_bind (Buffer_append (snprintf 32 (''Content-Length: '' @ show_nat (length (resp_body r)) @ kCRLF)) b)
               (Buffer_append (''Connection: keep-alive'' @ kCRLF))) (\<lambda>b.
     result_bind
       (foldM (\<lambda>k b. result_bind (Buffer_append k b) (\<lambda>b. result_bind (Buffer_append '': '' b) (\<lambda>b.
                result_bind (Buffer_append (the (resp_headers r k)) b) (Buffer_append kCRLF)))) order b) (\<lambda>b.
     result_bind (Buffer_append kCRLF b) (Buffer_append (resp_body r))))))))"

subsection \<open>HttpServer\<close>

definition defaultHttpCallback :: "HttpRequest \<Rightarrow> HttpResponse \<Rightarrow> HttpResponse" where
  "defaultHttpCallback request response =
     response\<lparr>statusCode := k404NotFound, statusMessage := ''Not Found'', closeConnection := True\<rparr>"

record HttpServer =
  http_pool :: "HttpRequest ThreadPool"
  httpCallback :: "HttpRequest \<Rightarrow> HttpResponse \<Rightarrow> HttpResponse"
  header_order :: "(string \<rightharpoonup> string) \<Rightarrow> string list"   \<comment> \<open>how a header map is traversed\<close>

definition HttpServer_new :: "nat \<Rightarrow> ((string \<rightharpoonup> string) \<Rightarrow> string list) \<Rightarrow> HttpServer" where
  "HttpServer_new poolMaxSize order =
     \<lparr>http_pool = ThreadPool_new ''ThreadPool'' poolMaxSize, httpCallback = defaultHttpCallback, header_order = order\<rparr>"

definition setHttpCallback :: "(HttpRequest \<Rightarrow> HttpResponse \<Rightarrow> HttpResponse) \<Rightarrow> HttpServer \<Rightarrow> HttpServer" where
  "setHttpCallback cb srv = srv\<lparr>httpCallback := cb\<rparr>"

text \<open>The part of \<open>setThreadNum\<close> and \<open>start\<close> that concerns the pool.\<close>

definition HttpServer_setThreadNum :: "int \<Rightarrow> HttpServer \<Rightarrow> HttpServer result" where
  "HttpServer_setThreadNum n srv =
     result_bind (ThreadPool_setThreadNum n (http_pool srv)) (\<lambda>p. Inr (srv\<lparr>http_pool := p\<rparr>))"

definition HttpServer_start :: "HttpServer \<Rightarrow> HttpServer result" where
  "HttpServer_start srv = result_bind (ThreadPool_start (http_pool srv)) (\<lambda>p. Inr (srv\<lparr>http_pool := p\<rparr>))"

definition HttpServer_onConnection :: "TcpConnection \<Rightarrow> HttpContext option \<Rightarrow> HttpContext option" where
  "HttpServer_onConnection w ctx = (if isConnected w then Some HttpContext_new else ctx)"

text \<open>\<open>onRequestInThreadPool\<close>; its local buffer lives at address \<open>r\<close> until it returns.\<close>

definition wants_close :: "HttpRequest \<Rightarrow> bool" where
  "wants_close request \<longleftrightarrow> getHeader ''Connection'' request = ''close'' \<or> req_version request = kHttp10"

definition http_response :: "HttpServer \<Rightarrow> HttpRequest \<Rightarrow> HttpResponse" where
  "http_response srv request = httpCallback srv request (HttpResponse_new (wants_close request))"

definition onRequestInThreadPool ::
  "HttpServer \<Rightarrow> addr \<Rightarrow> write_result \<Rightarrow> HttpRequest \<Rightarrow> TcpConnection \<Rightarrow> TcpConnection result" where
  "onRequestInThreadPool srv r wr request w =
     (let response = http_response srv request
      in result_bind (Buffer_new kInitialSize) (\<lambda>b.
         result_bind (appendToBuffer (header_order srv (resp_headers response)) response b) (\<lambda>b1.
         result_bind (send_buffer r b1 wr (w\<lparr>sent_buffers := (sent_buffers w)(r \<mapsto> b1)\<rparr>)) (\<lambda>(b2, w1).
         result_bind (if closeConnection response then TcpConnection_shutdown w1 else Inr w1) (\<lambda>w2.
           Inr (w2\<lparr>sent_buffers := (sent_buffers w2)(r := None)\<rparr>))))))"

text \<open>\<open>onRequest\<close>: \<open>None\<close> means that \<open>submit\<close> waits.\<close>

definition onRequest ::
  "addr \<Rightarrow> write_result \<Rightarrow> HttpRequest \<Rightarrow> HttpServer \<times> TcpConnection \<Rightarrow> (HttpServer \<times> TcpConnection) result option" where
  "onRequest r wr request s =
     (case s of (srv, w) \<Rightarrow>
       (case submit request (http_pool srv) of
          RunByCaller t \<Rightarrow> Some (result_bind (onRequestInThreadPool srv r wr t w) (\<lambda>w'. Inr (srv, w')))
        | Submitted p \<Rightarrow> Some (Inr (srv\<lparr>http_pool := p\<rparr>, w))
        | SubmitWaits \<Rightarrow> None))"

definition bad_request_reply :: string where
  "bad_request_reply = ''HTTP/1.1 400 Bad Request'' @ kCRLF @ kCRLF"

text \<open>\<open>onMessage\<close> on the connection's input buffer; the temporary string of the reply 400 is at address \<open>r\<close>.\<close>

definition HttpServer_onMessage ::
  "addr \<Rightarrow> write_result \<Rightarrow> TimeStamp \<Rightarrow> HttpServer \<times> TcpConnection \<times> HttpContext \<Rightarrow>
     (HttpServer \<times> TcpConnection \<times> HttpContext) result option" where
  "HttpServer_onMessage r wr now s =
     (case s of (srv, w, ctx) \<Rightarrow>
       (case parseRequest now ctx (input_buffer w) of
          None \<Rightarrow> None
        | Some (Inl e) \<Rightarrow> Some (Inl e)
        | Some (Inr (ok, ctx1, ib)) \<Rightarrow>
            (let w1 = w\<lparr>input_buffer := ib\<rparr>
             in case (if ok then Inr w1
                      else result_bind (TcpConnection_send r bad_request_reply wr w1) TcpConnection_shutdown) of
                  Inl e \<Rightarrow> Some (Inl e)
                | Inr w2 \<Rightarrow>
                    if isAllDone ctx1
                    then (case onRequest r wr (ctx_request ctx1) (srv, w2) of
                            None \<Rightarrow> None
                          | Some (Inl e) \<Rightarrow> Some (Inl e)
                          | Some (Inr (srv', w3)) \<Rightarrow>
                              Some (Inr (srv', w3,
                                HttpContext_reset (ctx1\<lparr>ctx_request := snd (HttpRequest_move (ctx_request ctx1))\<rparr>))))
                    else Some (Inr (srv, w2, ctx1)))))"

subsection \<open>The text of a response\<close>

definition response_text :: "string list \<Rightarrow> HttpResponse \<Rightarrow> string" where
  "response_text order r =
     version_text (resp_version r) @ '' '' @ show_nat (status_number (statusCode r)) @ '' '' @ statusMessage r @ kCRLF @
     (if closeConnection r then ''Connection: close'' @ kCRLF
      else ''Content-Length: '' @ show_nat (length (resp_body r)) @ kCRLF @ ''Connection: keep-alive'' @ kCRLF) @
     concat (map (\<lambda>k. k @ '': '' @ the (resp_headers r k) @ kCRLF) order) @ kCRLF @ resp_body r"

definition response_parts :: "string \<Rightarrow> string list \<Rightarrow> HttpResponse \<Rightarrow> string list" where
  "response_parts ver order r =
     [snprintf 32 (ver @ '' '' @ show_nat (status_number (statusCode r)) @ '' ''), statusMessage r, kCRLF] @
     (if closeConnection r then [''Connection: close'' @ kCRLF]
      else [snprintf 32 (''Content-Length: '' @ show_nat (length (resp_body r)) @ kCRLF), ''Connection: keep-alive'' @ kCRLF]) @
     concat (map (\<lambda>k. [k, '': '', the (resp_headers r k), kCRLF]) order) @ [kCRLF, resp_body r]"

lemma result_bind_return [simp]: "result_bind m Inr = m"
  by (cases m) simp_all

lemma foldM_Cons_bind: "foldM f (x # xs) = (\<lambda>s. result_bind (f x s) (foldM f xs))"
  by auto

lemma foldM_Nil_Inr: "foldM f [] = Inr"
  by auto

lemma foldM_append_bind: "foldM f (xs @ ys) = (\<lambda>s. result_bind (foldM f xs s) (foldM f ys))"
  by (rule ext) (rule foldM_append)

lemma header_parts:
  "foldM (\<lambda>k b. result_bind (Buffer_append k b) (\<lambda>b. result_bind (Buffer_append '': '' b) (\<lambda>b.
      result_bind (Buffer_append (the (h k)) b) (Buffer_append kCRLF)))) order =
   foldM Buffer_append (concat (map (\<lambda>k. [k, '': '', the (h k), kCRLF]) order))"
proof (induction order)
  case Nil
  then show ?case by (simp add: foldM_Nil_Inr)
next
  case (Cons k order)
  then show ?case by (simp add: result_bind_assoc foldM_Cons_bind)
qed

lemma appendToBuffer_parts:
  "appendToBuffer order r b =
     result_bind (versionToStr (resp_version r)) (\<lambda>ver. foldM Buffer_append (response_parts ver order r) b)"
  unfolding appendToBuffer_def header_parts response_parts_def
  by (cases "closeConnection r") (simp_all add: foldM_append_bind foldM_Cons_bind foldM_Nil_Inr result_bind_assoc)

lemma foldM_Buffer_append:
  assumes "Buffer_wf b" and "Buffer_used b + length (concat ds) \<le> vector_max"
  shows "\<exists>b'. foldM Buffer_append ds b = Inr b' \<and> Buffer_wf b' \<and> Buffer_contents b' = Buffer_contents b @ concat ds \<and>
     Buffer_used b' \<le> Buffer_used b + length (concat ds)"
  using assms
proof (induction ds arbitrary: b)
  case Nil
  then show ?case by simp
next
  case (Cons d ds)
  then obtain b1 where b1: "Buffer_append d b = Inr b1" "Buffer_wf b1" "Buffer_contents b1 = Buffer_contents b @ d"
    "Buffer_used b1 \<le> Buffer_used b + length d"
    using buf.put_law [of b d] by auto
  with Cons.IH [of b1] Cons.prems show ?case by fastforce
qed

lemma status_line_fits: "length (version_text v @ '' '' @ show_nat (status_number c) @ '' '') < 32"
proof -
  have "length (show_nat (status_number c)) \<le> 3" by (rule length_show_nat) (cases c; simp)+
  moreover have "length (version_text v) \<le> 8" by (cases v) simp_all
  ultimately show ?thesis by simp
qed

lemma snprintf_fits: "length s < n \<Longrightarrow> snprintf n s = s"
  by (simp add: snprintf_def)

lemma concat_response_parts:
  assumes "closeConnection r \<or> length (resp_body r) < 10 ^ 13"
  shows "concat (response_parts (version_text (resp_version r)) order r) = response_text order r"
proof -
  have "snprintf 32 (''Content-Length: '' @ show_nat (length (resp_body r)) @ kCRLF) =
      ''Content-Length: '' @ show_nat (length (resp_body r)) @ kCRLF" if "\<not> closeConnection r"
  proof (rule snprintf_fits)
    have "length (show_nat (length (resp_body r))) \<le> 13"
      using assms that by (intro length_show_nat) auto
    then show "length (''Content-Length: '' @ show_nat (length (resp_body r)) @ kCRLF) < 32" by (simp add: kCRLF_def)
  qed
  moreover note snprintf_fits [OF status_line_fits [of "resp_version r" "statusCode r"]]
  moreover have "concat (concat (map (\<lambda>k. [k, '': '', the (resp_headers r k), kCRLF]) order)) =
      concat (map (\<lambda>k. k @ '': '' @ the (resp_headers r k) @ kCRLF) order)"
    by (induction order) simp_all
  ultimately show ?thesis
    by (cases "closeConnection r") (simp_all add: response_parts_def response_text_def)
qed

lemma versionToStr_text: "v \<noteq> kUnknownVersion \<Longrightarrow> versionToStr v = Inr (version_text v)"
  by (cases v) (simp_all add: versionToStr_def)

lemma appendToBuffer_ok:
  assumes "Buffer_wf b" and "resp_version r \<noteq> kUnknownVersion" and "closeConnection r \<or> length (resp_body r) < 10 ^ 13"
    and "Buffer_used b + length (response_text order r) \<le> vector_max"
  shows "\<exists>b'. appendToBuffer order r b = Inr b' \<and> Buffer_wf b' \<and>
     Buffer_contents b' = Buffer_contents b @ response_text order r"
  using foldM_Buffer_append [OF assms(1), of "response_parts (version_text (resp_version r)) order r"] assms(4)
  unfolding concat_response_parts [OF assms(3)] by (auto simp: appendToBuffer_parts versionToStr_text [OF assms(2)])

lemma shutdown_connected:
  assumes "conn_inv w" and "conn_state w = kConnected"
  shows "\<exists>w'. TcpConnection_shutdown w = Inr w' \<and> conn_inv w' \<and> stream w' = stream w \<and>
     conn_state w' = kDisconnecting \<and> input_buffer w' = input_buffer w"
proof -
  let ?w = "setState kDisconnecting w"
  have w: "conn_inv ?w" "conn_state ?w = kDisconnecting" "stream ?w = stream w" "input_buffer ?w = input_buffer w"
    using conn_inv_disconnecting [OF assms(1)] assms(2) by (simp_all add: live_def setState_def stream_def)
  have "isInLoopThread ?w" by (rule isInLoopThread_inv [OF conn_invD(1) [OF w(1)]])
  then have "TcpConnection_shutdown w = shutdownInLoop ?w"
    using assms(2) by (simp add: TcpConnection_shutdown_def runInLoop_def)
  with shutdownInLoop_ok [OF w(1,2)] w show ?thesis by (auto simp: stream_def)
qed

lemma input_buffer_frame [simp]:
  "conn_inv (w\<lparr>input_buffer := b\<rparr>) = conn_inv w" "stream (w\<lparr>input_buffer := b\<rparr>) = stream w"
  "dropped wr (w\<lparr>input_buffer := b\<rparr>) = dropped wr w"
proof -
  have "EP_inv (w\<lparr>input_buffer := b\<rparr>) = EP_inv w" by (rule EP_inv_cong) simp_all
  moreover have "chan_state (w\<lparr>input_buffer := b\<rparr>) = chan_state w"
    by (simp add: chan_state_def fun_eq_iff)
  ultimately show "conn_inv (w\<lparr>input_buffer := b\<rparr>) = conn_inv w" by (simp add: conn_inv_def live_def)
qed (simp_all add: stream_def dropped_def)

lemma dropped_sent_buffers [simp]: "dropped wr (w\<lparr>sent_buffers := m\<rparr>) = dropped wr w"
  by (simp add: dropped_def)

lemma pending_queueInLoop: "pending_functors (queueInLoop f w) = pending_functors w @ [f]"
  by (simp add: queueInLoop_def push_functor_def wakeup_def Let_def)

lemma new_buffer:
  obtains b where "Buffer_new kInitialSize = Inr b" "Buffer_wf b" "Buffer_contents b = []" "Buffer_used b = kCheapPrepend"
  using Buffer_new_ok [of kInitialSize] by (auto simp: kCheapPrepend_def kInitialSize_def vector_max_def)

text \<open>Handling a request in the loop thread.\<close>

lemma onRequestInThreadPool_in_loop:
  assumes "conn_inv w" and "conn_state w = kConnected" and "resp = http_response srv request"
    and "t = response_text (header_order srv (resp_headers resp)) resp" and "resp_version resp \<noteq> kUnknownVersion"
    and "closeConnection resp \<or> length (resp_body resp) < 10 ^ 13"
    and "Buffer_used (output_buffer w) + length t \<le> vector_max" and "kCheapPrepend + length t \<le> vector_max"
    and "write_spec (length t) wr" and "\<not> dropped wr w"
  shows "\<exists>w'. onRequestInThreadPool srv r wr request w = Inr w' \<and> conn_inv w' \<and> stream w' = stream w @ t \<and>
     conn_state w' = (if closeConnection resp then kDisconnecting else kConnected) \<and>
     input_buffer w' = input_buffer w"
proof -
  obtain b where b: "Buffer_new kInitialSize = Inr b" "Buffer_wf b" "Buffer_contents b = []" "Buffer_used b = kCheapPrepend"
    by (rule new_buffer)
  obtain b1 where b1: "appendToBuffer (header_order srv (resp_headers resp)) resp b = Inr b1" "Buffer_wf b1"
    "Buffer_contents b1 = t"
    using appendToBuffer_ok [OF b(2) assms(5,6), of "header_order srv (resp_headers resp)"] assms(4,8) b(3,4) by auto
  let ?w = "w\<lparr>sent_buffers := (sent_buffers w)(r \<mapsto> b1)\<rparr>"
  have w: "conn_inv ?w" "conn_state ?w = kConnected" "isInLoopThread ?w"
    using assms(1,2) isInLoopThread_inv [of ?w] conn_invD(1) [of ?w] by simp_all
  obtain w1 where w1: "sendInLoop t wr ?w = Inr w1" "conn_inv w1" "conn_state w1 = kConnected"
    "stream w1 = stream w @ t" "input_buffer w1 = input_buffer w"
    using sendInLoop_ok [OF w(1,2), of t wr] assms(7,9,10) by auto
  have send: "send_buffer r b1 wr ?w = Inr (retrieveAll b1, w1)"
    using w w1(1) b1(3) by (simp add: send_buffer_def Buffer_toString_ok [OF b1(2)])
  obtain w2 where w2: "(if closeConnection resp then TcpConnection_shutdown w1 else Inr w1) = Inr w2" "conn_inv w2"
    "stream w2 = stream w @ t" "conn_state w2 = (if closeConnection resp then kDisconnecting else kConnected)"
    "input_buffer w2 = input_buffer w"
    using shutdown_connected [OF w1(2,3)] w1 by (cases "closeConnection resp") auto
  show ?thesis
    using b(1) b1(1) send w2 assms(3) by (simp add: onRequestInThreadPool_def Let_def)
qed

lemma request_answered:
  assumes "conn_inv w" and "conn_state w = kConnected" and "pool_threads (http_pool srv) = []"
    and "Buffer_wf (input_buffer w)" and "Buffer_contents (input_buffer w) = request_text mt path query v hs @ rest"
    and "mt \<noteq> kInvalidMethod" and "v \<noteq> kUnknownVersion" and "good_target path query" and "\<forall>h\<in>set hs. good_header h"
    and "request = \<lparr>req_method = mt, req_version = v, req_path = path, req_query = query, receivedTime = now,
           req_headers = map_of (rev hs)\<rparr>"
    and "resp = http_response srv request" and "t = response_text (header_order srv (resp_headers resp)) resp"
    and "resp_version resp \<noteq> kUnknownVersion" and "closeConnection resp \<or> length (resp_body resp) < 10 ^ 13"
    and "Buffer_used (output_buffer w) + length t \<le> vector_max" and "kCheapPrepend + length t \<le> vector_max"
    and "write_spec (length t) wr" and "\<not> dropped wr w"
  shows "\<exists>w' ctx'. HttpServer_onMessage r wr now (srv, w, HttpContext_new) = Some (Inr (srv, w', ctx')) \<and>
     stream w' = stream w @ t \<and> Buffer_contents (input_buffer w') = rest \<and>
     conn_state w' = (if closeConnection resp then kDisconnecting else kConnected) \<and> conn_inv w' \<and>
     parse_state ctx' = kParseRequestLine"
proof -
  obtain c1 ib where p: "parseRequest now HttpContext_new (input_buffer w) = Some (Inr (True, c1, ib))" "isAllDone c1"
    "ctx_request c1 = request" "Buffer_contents ib = rest"
    using parse_request_text [OF assms(4-9), of now] assms(10) by blast
  let ?w = "w\<lparr>input_buffer := ib\<rparr>"
  obtain w' where w': "onRequestInThreadPool srv r wr request ?w = Inr w'" "conn_inv w'" "stream w' = stream w @ t"
    "conn_state w' = (if closeConnection resp then kDisconnecting else kConnected)" "input_buffer w' = ib"
    using onRequestInThreadPool_in_loop [of ?w resp srv request t wr r] assms(1,2,11-18) by auto
  have "onRequest r wr request (srv, ?w) = Some (Inr (srv, w'))"
    using assms(3) w'(1) by (simp add: onRequest_def submit_def)
  with p w' show ?thesis
    by (simp add: HttpServer_onMessage_def HttpContext_reset_def)
qed

subsection \<open>Properties\<close>

text \<open>C18. A request is answered. On a connection whose input starts with the text of a request, with no
  worker threads, \<open>onMessage\<close> parses the request, calls the user's callback with it and puts the text of
  the response, whole, at the end of the connection's output; the bytes after the request stay in the
  input, the parser is ready for the next one, and the connection is shut down exactly when the response
  says so. The callback must set the version.\<close>

theorem http_request_answered:
  assumes "conn_inv w" and "conn_state w = kConnected" and "pool_threads (http_pool srv) = []"
    and "Buffer_wf (input_buffer w)" and "Buffer_contents (input_buffer w) = request_text mt path query v hs @ rest"
    and "mt \<noteq> kInvalidMethod" and "v \<noteq> kUnknownVersion" and "good_target path query" and "\<forall>h\<in>set hs. good_header h"
    and "request = \<lparr>req_method = mt, req_version = v, req_path = path, req_query = query, receivedTime = now,
           req_headers = map_of (rev hs)\<rparr>"
    and "resp = http_response srv request" and "t = response_text (header_order srv (resp_headers resp)) resp"
    and "resp_version resp \<noteq> kUnknownVersion" and "closeConnection resp \<or> length (resp_body resp) < 10 ^ 13"
    and "Buffer_used (output_buffer w) + length t \<le> vector_max" and "kCheapPrepend + length t \<le> vector_max"
    and "write_spec (length t) wr" and "\<not> dropped wr w"
  shows "\<exists>w' ctx'. HttpServer_onMessage r wr now (srv, w, HttpContext_new) = Some (Inr (srv, w', ctx')) \<and>
     stream w' = stream w @ t \<and> Buffer_contents (input_buffer w') = rest \<and>
     conn_state w' = (if closeConnection resp then kDisconnecting else kConnected) \<and> conn_inv w' \<and>
     parse_state ctx' = kParseRequestLine"
  using assms by (rule request_answered)

text \<open>C37. A response made by a worker thread is never sent. There \<open>send\<close> only queues a lambda with the address
  of the worker's local buffer, so when the loop runs the lambda the buffer is gone.\<close>

theorem worker_reply_dangles:
  assumes "conn_state w = kConnected" and "\<not> isInLoopThread w" and "pending_functors w = []"
    and "resp_version (http_response srv request) \<noteq> kUnknownVersion"
    and "closeConnection (http_response srv request) \<or> length (resp_body (http_response srv request)) < 10 ^ 13"
    and "kCheapPrepend + length (response_text (header_order srv (resp_headers (http_response srv request)))
           (http_response srv request)) \<le> vector_max"
  shows "\<exists>w1. onRequestInThreadPool srv r wr request w = Inr w1 \<and> sock_out w1 = sock_out w \<and>
     run_pending wr' (w1\<lparr>current_thread := loop_thread w1\<rparr>) = Inl UseAfterFree"
proof -
  let ?resp = "http_response srv request"
  obtain b where b: "Buffer_new kInitialSize = Inr b" "Buffer_wf b" "Buffer_used b = kCheapPrepend"
    by (rule new_buffer)
  obtain b1 where b1: "appendToBuffer (header_order srv (resp_headers ?resp)) ?resp b = Inr b1"
    using appendToBuffer_ok [OF b(2) assms(4,5), of "header_order srv (resp_headers ?resp)"] assms(6) b(3) by auto
  let ?w = "w\<lparr>sent_buffers := (sent_buffers w)(r \<mapsto> b1)\<rparr>"
  have send: "send_buffer r b1 wr ?w = Inr (b1, queueInLoop (SendBuf r) ?w)"
    using assms(1,2) by (simp add: send_buffer_def isInLoopThread_def)
  define w1 where "w1 = (if closeConnection ?resp
      then queueInLoop ShutdownInLoop (setState kDisconnecting (queueInLoop (SendBuf r) ?w))
      else queueInLoop (SendBuf r) ?w)"
  have "(if closeConnection ?resp then TcpConnection_shutdown (queueInLoop (SendBuf r) ?w)
      else Inr (queueInLoop (SendBuf r) ?w)) = Inr w1"
    using assms(1,2)
    by (simp add: w1_def TcpConnection_shutdown_def runInLoop_def isInLoopThread_def setState_def)
  then have "onRequestInThreadPool srv r wr request w = Inr (w1\<lparr>sent_buffers := (sent_buffers w1)(r := None)\<rparr>)"
    using b(1) b1 send by (simp add: onRequestInThreadPool_def Let_def)
  moreover have "pending_functors w1 = SendBuf r # (if closeConnection ?resp then [ShutdownInLoop] else [])"
    "sock_out w1 = sock_out w"
    using assms(3) by (simp_all add: w1_def setState_def pending_queueInLoop)
  ultimately show ?thesis by (simp add: run_pending_def)
qed

text \<open>The server's own callback aborts the program: it sets no version, so printing the response fails
  the assertion in \<open>versionToStr\<close>, for every request.\<close>

theorem default_callback_aborts:
  "onRequestInThreadPool (HttpServer_new n order) r wr request w = Inl AssertFailed"
proof -
  obtain b where b: "Buffer_new kInitialSize = Inr b" by (rule new_buffer)
  have "resp_version (http_response (HttpServer_new n order) request) = kUnknownVersion"
    by (simp add: http_response_def HttpServer_new_def defaultHttpCallback_def HttpResponse_new_def)
  with b show ?thesis by (simp add: onRequestInThreadPool_def appendToBuffer_def versionToStr_def Let_def)
qed

subsection \<open>Examples\<close>

definition demo_server :: HttpServer where
  "demo_server =
     \<lparr>http_pool = ThreadPool_new ''ThreadPool'' 1,
      httpCallback = (\<lambda>request response. response\<lparr>resp_version := kHttp11, statusCode := k200OK,
        statusMessage := ''OK'', resp_body := ''hi''\<rparr>),
      header_order = (\<lambda>h. [])\<rparr>"

definition demo_answer :: string where
  "demo_answer = ''HTTP/1.1 200 OK'' @ kCRLF @ ''Content-Length: 2'' @ kCRLF @ ''Connection: keep-alive'' @ kCRLF @ kCRLF @ ''hi''"

definition demo_parsed :: HttpRequest where
  "demo_parsed = \<lparr>req_method = kGet, req_version = kHttp11, req_path = ''/a'', req_query = ''?x'', receivedTime = 7,
     req_headers = map_of (rev [(''Host'', ''h'')])\<rparr>"

lemma show_nat_numbers: "show_nat 2 = ''2''" "show_nat (Suc (Suc 0)) = ''2''" "show_nat 200 = ''200''"
  by code_simp+

lemma demo_response:
  "resp_version (http_response demo_server demo_parsed) = kHttp11"
  "closeConnection (http_response demo_server demo_parsed) = False"
  "length (resp_body (http_response demo_server demo_parsed)) = 2"
  "header_order demo_server h = []"
  "response_text [] (http_response demo_server demo_parsed) = demo_answer"
  by (simp_all add: http_response_def demo_server_def demo_parsed_def HttpResponse_new_def wants_close_def getHeader_def
      response_text_def demo_answer_def show_nat_numbers)

theorem http_request_answered_witness:
  "\<exists>w w' ctx'. Buffer_contents (input_buffer w) = request_text kGet ''/a'' ''?x'' kHttp11 [(''Host'', ''h'')] @ ''zz'' \<and>
     HttpServer_onMessage 1 (Wrote 0) 7 (demo_server, w, HttpContext_new) = Some (Inr (demo_server, w', ctx')) \<and>
     stream w' = stream w @ demo_answer \<and> Buffer_contents (input_buffer w') = ''zz''"
proof -
  obtain u w0 where "TcpConnection_new ''c'' 1 5 demo_conn_loop = Inr u"
    and "connectEstablished 1 (wire True True u) = Inr w0" and w0: "conn_inv w0" "conn_state w0 = kConnected"
      "Buffer_used (output_buffer w0) = 8"
    by (rule demo_established)
  let ?w = "w0\<lparr>input_buffer := demo_request\<rparr>"
  have pre: "conn_inv ?w" "conn_state ?w = kConnected" "pool_threads (http_pool demo_server) = []"
    "Buffer_wf (input_buffer ?w)"
    "Buffer_contents (input_buffer ?w) = request_text kGet ''/a'' ''?x'' kHttp11 [(''Host'', ''h'')] @ ''zz''"
    using w0 demo_request_facts by (simp_all add: demo_server_def ThreadPool_new_def)
  have "\<exists>w' ctx'. HttpServer_onMessage 1 (Wrote 0) 7 (demo_server, ?w, HttpContext_new) = Some (Inr (demo_server, w', ctx')) \<and>
     stream w' = stream ?w @ demo_answer \<and> Buffer_contents (input_buffer w') = ''zz'' \<and>
     conn_state w' = (if closeConnection (http_response demo_server demo_parsed) then kDisconnecting else kConnected) \<and>
     conn_inv w' \<and> parse_state ctx' = kParseRequestLine"
    by (rule http_request_answered [OF pre, where request = demo_parsed])
       (use demo_request_facts w0(3) in \<open>simp_all add: demo_parsed_def [symmetric] demo_response write_spec_def
          dropped_def demo_answer_def kCRLF_def vector_max_def kCheapPrepend_def\<close>, simp add: demo_parsed_def)
  with pre(5) show ?thesis by blast
qed

theorem worker_reply_dangles_witness:
  "\<exists>w w1. conn_state w = kConnected \<and> onRequestInThreadPool demo_server 1 (Wrote 0) demo_parsed w = Inr w1 \<and>
     run_pending (Wrote 0) (w1\<lparr>current_thread := loop_thread w1\<rparr>) = Inl UseAfterFree"
proof -
  obtain u w0 where "connectEstablished 1 (wire True True u) = Inr w0" and w0: "conn_state w0 = kConnected"
    by (rule demo_established)
  let ?w = "w0\<lparr>current_thread := loop_thread w0 + 1, pending_functors := []\<rparr>"
  have "conn_state ?w = kConnected" "\<not> isInLoopThread ?w" "pending_functors ?w = []"
    using w0 by (simp_all add: isInLoopThread_def)
  then obtain v :: TcpConnection where v: "conn_state v = kConnected" "\<not> isInLoopThread v" "pending_functors v = []" by blast
  have "\<exists>w1. onRequestInThreadPool demo_server 1 (Wrote 0) demo_parsed v = Inr w1 \<and> sock_out w1 = sock_out v \<and>
     run_pending (Wrote 0) (w1\<lparr>current_thread := loop_thread w1\<rparr>) = Inl UseAfterFree"
    by (rule worker_reply_dangles [OF v])
       (simp_all add: demo_response demo_answer_def kCRLF_def vector_max_def kCheapPrepend_def)
  with v(1) show ?thesis by blast
qed

end
