(* ===== verification/LogLine.thy ===== *)
theory LogLine
  imports Endian TimeStamp
begin

text \<open>
  One line of the log: include/libfm/fmutil/LogLine.h and util/LogLine.cpp. A line is encoded into bytes
  by the thread that logs, and turned into text later, perhaps by another thread.

  \<^item> Memory is a list of bytes; the host's byte order is a parameter, as in Endian. The bytes of a fresh
    \<open>new char[n]\<close> are indeterminate in C++; they are zero here, and no operation reads them before
    writing them (\<open>line_bytes\<close> is all that \<open>stringify\<close> depends on).
  \<^item> A \<open>string_view\<close> is a length and a pointer. What the pointers point to is the map \<open>env_text\<close>: the
    characters from that address to the end of the string there, and nothing for an address whose
    string is gone, so reading it is \<open>UseAfterFree\<close>.
  \<^item> \<open>strftime\<close>, \<open>strerror\<close> and the printing of a \<open>double\<close> are functions of the environment.
\<close>

datatype LogLevel = kCLOSE | kFATAL | kINFO | kWARN | kERROR | kDEBUG

fun level_code :: "LogLevel \<Rightarrow> nat" where
  "level_code kCLOSE = 0" | "level_code kFATAL = 1" | "level_code kINFO = 2"
| "level_code kWARN = 3" | "level_code kERROR = 4" | "level_code kDEBUG = 5"

definition level_of_code :: "nat \<Rightarrow> LogLevel option" where
  "level_of_code n = map_of [(0, kCLOSE), (1, kFATAL), (2, kINFO), (3, kWARN), (4, kERROR), (5, kDEBUG)] n"

datatype SupportedTypes = kChar | kUInt32 | kUInt64 | kInt32 | kInt64 | kDouble | kStrView | kRawStr

fun type_code :: "SupportedTypes \<Rightarrow> nat" where
  "type_code kChar = 0" | "type_code kUInt32 = 1" | "type_code kUInt64 = 2" | "type_code kInt32 = 3"
| "type_code kInt64 = 4" | "type_code kDouble = 5" | "type_code kStrView = 6" | "type_code kRawStr = 7"

definition type_of_code :: "nat \<Rightarrow> SupportedTypes option" where
  "type_of_code n =
     map_of [(0, kChar), (1, kUInt32), (2, kUInt64), (3, kInt32), (4, kInt64), (5, kDouble), (6, kStrView),
             (7, kRawStr)] n"

definition logLevelToString :: "LogLevel option \<Rightarrow> string" where
  "logLevelToString lv =
     (case lv of
        Some kINFO \<Rightarrow> ''INFO'' | Some kWARN \<Rightarrow> ''WARN'' | Some kERROR \<Rightarrow> ''ERROR'' | Some kDEBUG \<Rightarrow> ''DEBUG''
      | Some kFATAL \<Rightarrow> ''FATAL'' | Some kCLOSE \<Rightarrow> ''CLOSE'' | None \<Rightarrow> ''UNKNOWN'')"

record string_view =
  view_len :: "64 word"
  view_ptr :: "64 word"

record log_env =
  env_order :: byte_order
  env_strftime :: "string \<Rightarrow> int \<Rightarrow> string"
  env_strerror :: "int \<Rightarrow> string"
  env_show_double :: "64 word \<Rightarrow> string"
  env_text :: "64 word \<rightharpoonup> string"

record LogLine =
  used_bytes :: nat
  line_buffer_size :: nat
  heap_buffer :: "char list option"
  stack_buffer :: "char list"

abbreviation NUL :: char where "NUL \<equiv> CHR 0x00"

definition kStackSize :: nat where "kStackSize = 128 - 8 * 2 - 8"

definition LogLine_empty :: LogLine where
  "LogLine_empty =
     \<lparr>used_bytes = 0, line_buffer_size = kStackSize, heap_buffer = None, stack_buffer = replicate kStackSize NUL\<rparr>"

text \<open>The defaulted move: the pointer is taken over, the other members are copied. The value and what is left.\<close>

definition LogLine_move :: "LogLine \<Rightarrow> LogLine \<times> LogLine" where
  "LogLine_move l = (l, l\<lparr>heap_buffer := None\<rparr>)"

subsection \<open>Encoding\<close>

text \<open>The bytes that \<open>buffer()\<close> points into.\<close>

definition line_memory :: "LogLine \<Rightarrow> char list" where
  "line_memory l = (case heap_buffer l of Some h \<Rightarrow> h | None \<Rightarrow> stack_buffer l)"

definition set_line_memory :: "char list \<Rightarrow> LogLine \<Rightarrow> LogLine" where
  "set_line_memory bs l = (case heap_buffer l of Some h \<Rightarrow> l\<lparr>heap_buffer := Some bs\<rparr> | None \<Rightarrow> l\<lparr>stack_buffer := bs\<rparr>)"

definition encode :: "char list \<Rightarrow> LogLine \<Rightarrow> LogLine result" where
  "encode bs l =
     result_bind (mem_write (line_memory l) (used_bytes l) bs) (\<lambda>m.
       Inr ((set_line_memory m l)\<lparr>used_bytes := used_bytes l + length bs\<rparr>))"

definition new_chars :: "nat \<Rightarrow> char list result" where
  "new_chars n = check LengthError (n \<le> vector_max) (Inr (replicate n NUL))"

definition resizeBufferIfNeeded :: "nat \<Rightarrow> LogLine \<Rightarrow> LogLine result" where
  "resizeBufferIfNeeded needed l =
     (let required = sz_add (used_bytes l) needed
      in if required \<le> line_buffer_size l then Inr l
         else case heap_buffer l of
           None \<Rightarrow>
             (let n = max 512 required
              in result_bind (new_chars n) (\<lambda>h.
                 result_bind (mem_read (stack_buffer l) 0 (used_bytes l)) (\<lambda>old.
                 result_bind (mem_write h 0 old) (\<lambda>h'.
                   Inr (l\<lparr>line_buffer_size := n, heap_buffer := Some h'\<rparr>)))))
         | Some g \<Rightarrow>
             (let n = max ((2 * line_buffer_size l) mod 2 ^ 64) required
              in result_bind (new_chars n) (\<lambda>h.
                 result_bind (mem_read g 0 (used_bytes l)) (\<lambda>old.
                 result_bind (mem_write h 0 old) (\<lambda>h'.
                   Inr (l\<lparr>line_buffer_size := n, heap_buffer := Some h'\<rparr>))))))"

definition encode_typed :: "SupportedTypes \<Rightarrow> char list \<Rightarrow> LogLine \<Rightarrow> LogLine result" where
  "encode_typed ty bs l =
     result_bind (resizeBufferIfNeeded (1 + length bs) l) (\<lambda>l1.
       result_bind (encode [char_of (type_code ty)] l1) (encode bs))"

definition view_bytes :: "byte_order \<Rightarrow> string_view \<Rightarrow> char list" where
  "view_bytes e sv = mem_store e 8 (unat (view_len sv)) @ mem_store e 8 (unat (view_ptr sv))"

definition encodeStrView :: "byte_order \<Rightarrow> string_view \<Rightarrow> LogLine \<Rightarrow> LogLine result" where
  "encodeStrView e sv = encode_typed kStrView (view_bytes e sv)"

text \<open>\<open>encodeString\<close> of a view of a C string: the copy takes the terminating zero too.\<close>

definition encodeString :: "string \<Rightarrow> LogLine \<Rightarrow> LogLine result" where
  "encodeString cs l =
     (if cs = [] then Inr l
      else result_bind (resizeBufferIfNeeded (1 + length cs + 1) l) (\<lambda>l1.
             encode (char_of (type_code kRawStr) # cs @ [NUL]) l1))"

text \<open>The operands of \<open>operator<<\<close>: one constructor for each overload. The overloads for literals,
  \<open>const char *\<close> and \<open>char *\<close> pass a view, as the one for \<open>string_view\<close> does.\<close>

datatype log_item =
    ItChar char
  | ItInt32 "32 word" | ItInt64 "64 word" | ItUInt32 "32 word" | ItUInt64 "64 word"
  | ItDouble "64 word"
  | ItString string
  | ItView string_view
  | ItPointer "64 word"

definition c_str :: "string \<Rightarrow> string" where
  "c_str s = takeWhile (\<lambda>c. c \<noteq> NUL) s"

fun log_put :: "byte_order \<Rightarrow> log_item \<Rightarrow> LogLine \<Rightarrow> LogLine result" where
  "log_put e (ItChar c) = encode_typed kChar [c]"
| "log_put e (ItInt32 i) = encode_typed kInt32 (mem_store e 4 (unat i))"
| "log_put e (ItInt64 i) = encode_typed kInt64 (mem_store e 8 (unat i))"
| "log_put e (ItUInt32 i) = encode_typed kUInt32 (mem_store e 4 (unat i))"
| "log_put e (ItUInt64 i) = encode_typed kUInt64 (mem_store e 8 (unat i))"
| "log_put e (ItDouble d) = encode_typed kDouble (mem_store e 8 (unat d))"
| "log_put e (ItString s) = encodeString (c_str s)"
| "log_put e (ItView sv) = encodeStrView e sv"
| "log_put e (ItPointer p) = encode_typed kUInt64 (mem_store e 8 (unat p))"

record log_header =
  hd_time :: "64 word"
  hd_tid :: "32 word"
  hd_level :: LogLevel
  hd_file :: string_view
  hd_func :: string_view
  hd_line :: "32 word"
  hd_errno :: "32 word"

text \<open>The constructor; \<open>now\<close> and the thread's id are part of the header that is passed.\<close>

definition LogLine_new :: "byte_order \<Rightarrow> log_header \<Rightarrow> LogLine result" where
  "LogLine_new e h =
     result_bind (encode (mem_store e 8 (unat (hd_time h))) LogLine_empty) (\<lambda>l.
     result_bind (encode (mem_store e 4 (unat (hd_tid h))) l) (\<lambda>l.
     result_bind (encode [char_of (level_code (hd_level h))] l) (\<lambda>l.
     result_bind (encode (view_bytes e (hd_file h)) l) (\<lambda>l.
     result_bind (encode (view_bytes e (hd_func h)) l) (\<lambda>l.
     result_bind (encode (mem_store e 4 (unat (hd_line h))) l) (\<lambda>l.
     encode (mem_store e 4 (unat (hd_errno h))) l))))))"

subsection \<open>Decoding\<close>

definition fetch :: "char list \<Rightarrow> nat \<Rightarrow> nat \<Rightarrow> char list result" where
  "fetch buf b n = mem_read buf b (b + n)"

definition fetch32 :: "byte_order \<Rightarrow> char list \<Rightarrow> nat \<Rightarrow> 32 word result" where
  "fetch32 e buf b = result_bind (fetch buf b 4) (\<lambda>bs. Inr (of_nat (mem_load e bs)))"

definition fetch64 :: "byte_order \<Rightarrow> char list \<Rightarrow> nat \<Rightarrow> 64 word result" where
  "fetch64 e buf b = result_bind (fetch buf b 8) (\<lambda>bs. Inr (of_nat (mem_load e bs)))"

definition fetch_view :: "byte_order \<Rightarrow> char list \<Rightarrow> nat \<Rightarrow> string_view result" where
  "fetch_view e buf b =
     result_bind (fetch64 e buf b) (\<lambda>n. result_bind (fetch64 e buf (b + 8)) (\<lambda>p.
       Inr \<lparr>view_len = n, view_ptr = p\<rparr>))"

text \<open>The characters of a view, and the C string its pointer points to.\<close>

definition c_string_at :: "log_env \<Rightarrow> 64 word \<Rightarrow> string result" where
  "c_string_at env p = (case env_text env p of None \<Rightarrow> Inl UseAfterFree | Some s \<Rightarrow> Inr s)"

definition view_text :: "log_env \<Rightarrow> string_view \<Rightarrow> string result" where
  "view_text env sv =
     result_bind (c_string_at env (view_ptr sv)) (\<lambda>s.
       check OutOfBounds (unat (view_len sv) \<le> length s) (Inr (take (unat (view_len sv)) s)))"

text \<open>\<open>decodeRawStr\<close>: from \<open>b\<close> to the next zero byte, which must lie inside the buffer.\<close>

definition decodeRawStr :: "char list \<Rightarrow> nat \<Rightarrow> (string \<times> nat) result" where
  "decodeRawStr buf b =
     check OutOfBounds (NUL \<in> set (drop b buf))
       (let s = c_str (drop b buf) in Inr (s, b + length s + 1))"

definition decodeStrView :: "log_env \<Rightarrow> char list \<Rightarrow> nat \<Rightarrow> (string \<times> nat) result" where
  "decodeStrView env buf b =
     result_bind (fetch_view (env_order env) buf b) (\<lambda>sv. result_bind (view_text env sv) (\<lambda>s. Inr (s, b + 16)))"

text \<open>\<open>decode<T>\<close> for the integral types and \<open>double\<close>.\<close>

definition decode32 :: "(32 word \<Rightarrow> string) \<Rightarrow> byte_order \<Rightarrow> char list \<Rightarrow> nat \<Rightarrow> (string \<times> nat) result" where
  "decode32 put e buf b = result_bind (fetch32 e buf b) (\<lambda>w. Inr (put w, b + 4))"

definition decode64 :: "(64 word \<Rightarrow> string) \<Rightarrow> byte_order \<Rightarrow> char list \<Rightarrow> nat \<Rightarrow> (string \<times> nat) result" where
  "decode64 put e buf b = result_bind (fetch64 e buf b) (\<lambda>w. Inr (put w, b + 8))"

fun decode_item :: "log_env \<Rightarrow> SupportedTypes \<Rightarrow> char list \<Rightarrow> nat \<Rightarrow> (string \<times> nat) result" where
  "decode_item env kChar buf b = result_bind (fetch buf b 1) (\<lambda>cs. Inr (cs, b + 1))"
| "decode_item env kInt32 buf b = decode32 (\<lambda>w. show_int (sint w)) (env_order env) buf b"
| "decode_item env kInt64 buf b = decode64 (\<lambda>w. show_int (sint w)) (env_order env) buf b"
| "decode_item env kUInt32 buf b = decode32 (\<lambda>w. show_nat (unat w)) (env_order env) buf b"
| "decode_item env kUInt64 buf b = decode64 (\<lambda>w. show_nat (unat w)) (env_order env) buf b"
| "decode_item env kDouble buf b = decode64 (env_show_double env) (env_order env) buf b"
| "decode_item env kStrView buf b = decodeStrView env buf b"
| "decode_item env kRawStr buf b = decodeRawStr buf b"

lemma decode_item_advances: "decode_item env ty buf b = Inr (s, b') \<Longrightarrow> b < b'"
  by (cases ty) (auto simp: decode32_def decode64_def decodeStrView_def decodeRawStr_def Let_def result_eqs)

text \<open>The loop of the private \<open>stringify\<close>. An unknown type code ends it.\<close>

function stringify_items :: "log_env \<Rightarrow> char list \<Rightarrow> nat \<Rightarrow> nat \<Rightarrow> string result" where
  "stringify_items env buf b e =
     (if b < e
      then case fetch buf b 1 of
             Inl f \<Rightarrow> Inl f
           | Inr cs \<Rightarrow>
               (case type_of_code (of_char (hd cs)) of
                  None \<Rightarrow> Inr []
                | Some ty \<Rightarrow>
                    (case decode_item env ty buf (b + 1) of
                       Inl f \<Rightarrow> Inl f
                     | Inr (s, b') \<Rightarrow> result_bind (stringify_items env buf b' e) (\<lambda>rest. Inr (s @ rest))))
      else Inr [])"
  by pat_completeness auto

termination
  by (relation "measure (\<lambda>(env, buf, b, e). e - b)") (auto dest!: decode_item_advances)

declare stringify_items.simps [simp del]

text \<open>GNU \<open>basename\<close>.\<close>

definition basename :: "string \<Rightarrow> string" where
  "basename path = rev (takeWhile (\<lambda>c. c \<noteq> CHR ''/'') (rev path))"

text \<open>\<open>stringify\<close>: the text, the value of \<open>errno\<close> afterwards and whether the program is aborted.\<close>

definition stringify :: "log_env \<Rightarrow> int \<Rightarrow> LogLine \<Rightarrow> (string \<times> int \<times> bool) result" where
  "stringify env errno0 l =
     (let buf = line_memory l; e = env_order env
      in result_bind (fetch64 e buf 0) (\<lambda>tm.
         result_bind (fetch32 e buf 8) (\<lambda>tid.
         result_bind (fetch buf 12 1) (\<lambda>lv.
         result_bind (fetch_view e buf 13) (\<lambda>file.
         result_bind (fetch_view e buf 29) (\<lambda>func.
         result_bind (fetch32 e buf 45) (\<lambda>line.
         result_bind (fetch32 e buf 49) (\<lambda>old_errno.
         result_bind (view_text env func) (\<lambda>fname.
         result_bind (stringify_items env buf 53 (used_bytes l)) (\<lambda>body.
         result_bind (c_string_at env (view_ptr file)) (\<lambda>path.
           let level = level_of_code (of_char (hd lv)) in
           Inr (TimeStamp_toString (env_strftime env) True (sint tm) @ '' '' @ show_int (sint tid) @
                '' ['' @ logLevelToString level @ ''] <'' @ fname @ ''> '' @
                (if old_errno \<noteq> 0 then ''('' @ env_strerror env (sint old_errno) @ '') '' else []) @
                body @ '' - '' @ basename path @ '':'' @ show_nat (unat line) @ [CHR 0x0A],
                if old_errno \<noteq> 0 then 0 else errno0,
                level = Some kFATAL))))))))))))"

subsection \<open>What a line holds\<close>

definition line_bytes :: "LogLine \<Rightarrow> char list" where
  "line_bytes l = take (used_bytes l) (line_memory l)"

definition line_ok :: "LogLine \<Rightarrow> bool" where
  "line_ok l \<longleftrightarrow> length (line_memory l) = line_buffer_size l \<and> used_bytes l \<le> line_buffer_size l \<and>
     line_buffer_size l \<le> 2 ^ 62"

lemma line_memory_set [simp]: "line_memory (set_line_memory bs l) = bs"
  by (simp add: line_memory_def set_line_memory_def split: option.splits)

lemma set_line_memory_frame [simp]:
  "used_bytes (set_line_memory bs l) = used_bytes l" "line_buffer_size (set_line_memory bs l) = line_buffer_size l"
  by (simp_all add: set_line_memory_def split: option.splits)

lemma line_memory_used [simp]: "line_memory (l\<lparr>used_bytes := n\<rparr>) = line_memory l"
  by (cases "heap_buffer l") (simp_all add: line_memory_def)

lemma encode_ok:
  assumes "line_ok l" and "used_bytes l + length bs \<le> line_buffer_size l"
  shows "\<exists>l'. encode bs l = Inr l' \<and> line_ok l' \<and> line_bytes l' = line_bytes l @ bs \<and>
     used_bytes l' = used_bytes l + length bs \<and> line_buffer_size l' = line_buffer_size l"
  using assms by (simp add: encode_def mem_write_ok line_ok_def line_bytes_def)

lemma mem_copy_prefix:
  "n \<le> length old \<Longrightarrow> n \<le> m \<Longrightarrow> mem_write (replicate m NUL) 0 (take n old) = Inr (take n old @ replicate (m - n) NUL)"
  by (simp add: mem_write_def)

lemma resize_ok:
  assumes "line_ok l" and "used_bytes l + k \<le> 2 ^ 61"
  shows "\<exists>l'. resizeBufferIfNeeded k l = Inr l' \<and> line_ok l' \<and> line_bytes l' = line_bytes l \<and>
     used_bytes l' = used_bytes l \<and> used_bytes l + k \<le> line_buffer_size l'"
proof (cases "used_bytes l + k \<le> line_buffer_size l")
  case True
  with assms show ?thesis by (simp add: resizeBufferIfNeeded_def)
next
  case False
  define old where "old = line_memory l"
  have len: "used_bytes l \<le> length old" using assms(1) by (simp add: line_ok_def old_def)
  have req: "sz_add (used_bytes l) k = used_bytes l + k" using assms(2) by simp
  have dbl: "(2 * line_buffer_size l) mod 2 ^ 64 = 2 * line_buffer_size l" "2 * line_buffer_size l \<le> 2 ^ 62"
    using False assms(2) by simp_all
  define n where "n = (case heap_buffer l of None \<Rightarrow> max 512 (used_bytes l + k)
      | Some g \<Rightarrow> max (2 * line_buffer_size l) (used_bytes l + k))"
  have n: "used_bytes l + k \<le> n" "n \<le> 2 ^ 62" using assms(2) dbl by (auto simp: n_def split: option.split)
  then have nc: "new_chars n = Inr (replicate n NUL)" by (simp add: new_chars_def vector_max_def)
  have wr: "mem_write (replicate n NUL) 0 (take (used_bytes l) old) =
      Inr (take (used_bytes l) old @ replicate (n - used_bytes l) NUL)"
    using len n by (intro mem_copy_prefix) simp_all
  have rd: "mem_read old 0 (used_bytes l) = Inr (take (used_bytes l) old)"
    using len by (simp add: mem_read_def)
  let ?l = "l\<lparr>line_buffer_size := n, heap_buffer := Some (take (used_bytes l) old @ replicate (n - used_bytes l) NUL)\<rparr>"
  have "resizeBufferIfNeeded k l = Inr ?l"
  proof (cases "heap_buffer l")
    case None
    with False req nc rd wr show ?thesis
      by (simp add: resizeBufferIfNeeded_def n_def old_def line_memory_def Let_def)
  next
    case (Some g)
    with False req nc rd wr dbl(1) show ?thesis
      by (simp add: resizeBufferIfNeeded_def n_def old_def line_memory_def Let_def)
  qed
  moreover have "line_ok ?l" "line_bytes ?l = line_bytes l"
    using n len by (simp_all add: line_ok_def line_memory_def line_bytes_def old_def [unfolded line_memory_def])
  ultimately show ?thesis using n by simp
qed

text \<open>The bytes of an operand.\<close>

fun item_bytes :: "byte_order \<Rightarrow> log_item \<Rightarrow> char list" where
  "item_bytes e (ItChar c) = char_of (type_code kChar) # [c]"
| "item_bytes e (ItInt32 i) = char_of (type_code kInt32) # mem_store e 4 (unat i)"
| "item_bytes e (ItInt64 i) = char_of (type_code kInt64) # mem_store e 8 (unat i)"
| "item_bytes e (ItUInt32 i) = char_of (type_code kUInt32) # mem_store e 4 (unat i)"
| "item_bytes e (ItUInt64 i) = char_of (type_code kUInt64) # mem_store e 8 (unat i)"
| "item_bytes e (ItDouble d) = char_of (type_code kDouble) # mem_store e 8 (unat d)"
| "item_bytes e (ItString s) = (if c_str s = [] then [] else char_of (type_code kRawStr) # c_str s @ [NUL])"
| "item_bytes e (ItView sv) = char_of (type_code kStrView) # view_bytes e sv"
| "item_bytes e (ItPointer p) = char_of (type_code kUInt64) # mem_store e 8 (unat p)"

lemma length_view_bytes [simp]: "length (view_bytes e sv) = 16"
  by (simp add: view_bytes_def)

definition appended :: "char list \<Rightarrow> LogLine \<Rightarrow> LogLine result \<Rightarrow> bool" where
  "appended bs l r \<longleftrightarrow> (\<exists>l'. r = Inr l' \<and> line_ok l' \<and> line_bytes l' = line_bytes l @ bs \<and>
     used_bytes l' = used_bytes l + length bs)"

lemma resize_then_encode:
  assumes "line_ok l" and "used_bytes l + length bs \<le> 2 ^ 61"
  shows "appended bs l (result_bind (resizeBufferIfNeeded (length bs) l) (encode bs))"
proof -
  obtain l1 where l1: "resizeBufferIfNeeded (length bs) l = Inr l1" "line_ok l1" "line_bytes l1 = line_bytes l"
    "used_bytes l1 = used_bytes l" "used_bytes l + length bs \<le> line_buffer_size l1"
    using resize_ok [OF assms] by blast
  with encode_ok [of l1 bs] show ?thesis by (auto simp: appended_def)
qed

lemma encode_Cons:
  assumes "line_ok l" and "used_bytes l + 1 + length bs \<le> line_buffer_size l"
  shows "result_bind (encode [c] l) (encode bs) = encode (c # bs) l"
proof -
  have "encode [c] l = Inr ((set_line_memory (take (used_bytes l) (line_memory l) @ c #
      drop (used_bytes l + 1) (line_memory l)) l)\<lparr>used_bytes := used_bytes l + 1\<rparr>)"
    using assms by (simp add: encode_def mem_write_ok line_ok_def)
  moreover have "set_line_memory a (set_line_memory b l) = set_line_memory a l" for a b
    by (simp add: set_line_memory_def split: option.splits)
  moreover have "set_line_memory a (l'\<lparr>used_bytes := n\<rparr>) = (set_line_memory a l')\<lparr>used_bytes := n\<rparr>" for a l' n
    by (simp add: set_line_memory_def split: option.splits)
  ultimately show ?thesis
    using assms by (simp add: encode_def mem_write_ok line_ok_def add.commute)
qed

lemma encode_typed_appends:
  assumes "line_ok l" and "used_bytes l + 1 + length bs \<le> 2 ^ 61"
  shows "appended (char_of (type_code ty) # bs) l (encode_typed ty bs l)"
proof -
  obtain l1 where l1: "resizeBufferIfNeeded (1 + length bs) l = Inr l1" "line_ok l1"
    "used_bytes l1 = used_bytes l" "used_bytes l + (1 + length bs) \<le> line_buffer_size l1"
    using resize_ok [OF assms(1), of "1 + length bs"] assms(2) by auto
  then have "encode_typed ty bs l = result_bind (resizeBufferIfNeeded (length (char_of (type_code ty) # bs)) l)
      (encode (char_of (type_code ty) # bs))"
    by (simp add: encode_typed_def encode_Cons)
  with resize_then_encode [OF assms(1), of "char_of (type_code ty) # bs"] assms(2) show ?thesis by simp
qed

lemma log_put_appends:
  assumes "line_ok l" and "used_bytes l + length (item_bytes e it) \<le> 2 ^ 61"
  shows "appended (item_bytes e it) l (log_put e it l)"
proof (cases it)
  case (ItString s)
  show ?thesis
  proof (cases "c_str s = []")
    case True
    with ItString assms show ?thesis by (simp add: encodeString_def appended_def)
  next
    case False
    with resize_then_encode [OF assms] ItString show ?thesis by (simp add: encodeString_def)
  qed
qed (use assms in \<open>auto simp: encodeStrView_def simp del: type_code.simps intro!: encode_typed_appends\<close>)

lemma log_puts_append:
  assumes "line_ok l" and "used_bytes l + length (concat (map (item_bytes e) its)) \<le> 2 ^ 61"
  shows "appended (concat (map (item_bytes e) its)) l (foldM (log_put e) its l)"
  using assms
proof (induction its arbitrary: l)
  case Nil
  then show ?case by (simp add: appended_def)
next
  case (Cons it its)
  then obtain l1 where l1: "log_put e it l = Inr l1" "line_ok l1" "line_bytes l1 = line_bytes l @ item_bytes e it"
    "used_bytes l1 = used_bytes l + length (item_bytes e it)"
    using log_put_appends [OF Cons.prems(1), of e it] by (auto simp: appended_def)
  with Cons.prems Cons.IH [OF l1(2)] show ?case by (auto simp: appended_def)
qed

definition header_bytes :: "byte_order \<Rightarrow> log_header \<Rightarrow> char list" where
  "header_bytes e h =
     mem_store e 8 (unat (hd_time h)) @ mem_store e 4 (unat (hd_tid h)) @ [char_of (level_code (hd_level h))] @
     view_bytes e (hd_file h) @ view_bytes e (hd_func h) @ mem_store e 4 (unat (hd_line h)) @
     mem_store e 4 (unat (hd_errno h))"

definition room :: "nat \<Rightarrow> char list \<Rightarrow> LogLine \<Rightarrow> bool" where
  "room n bs l \<longleftrightarrow> line_ok l \<and> line_bytes l = bs \<and> used_bytes l = length bs \<and> line_buffer_size l = length bs + n"

lemma encode_in_room:
  assumes "room n done l" and "length bs \<le> n"
  shows "\<exists>l'. encode bs l = Inr l' \<and> room (n - length bs) (done @ bs) l'"
  using encode_ok [of l bs] assms by (auto simp: room_def)

lemma LogLine_new_bytes:
  "\<exists>l. LogLine_new e h = Inr l \<and> line_ok l \<and> line_bytes l = header_bytes e h \<and> used_bytes l = 53"
proof -
  have r0: "room 104 [] LogLine_empty"
    by (simp add: room_def line_ok_def line_memory_def line_bytes_def LogLine_empty_def kStackSize_def)
  obtain l1 where l1: "encode (mem_store e 8 (unat (hd_time h))) LogLine_empty = Inr l1"
    and r1: "room 96 (mem_store e 8 (unat (hd_time h))) l1"
    using encode_in_room [OF r0, of "mem_store e 8 (unat (hd_time h))"] by auto
  obtain l2 where l2: "encode (mem_store e 4 (unat (hd_tid h))) l1 = Inr l2"
    and r2: "room 92 (mem_store e 8 (unat (hd_time h)) @ mem_store e 4 (unat (hd_tid h))) l2"
    using encode_in_room [OF r1, of "mem_store e 4 (unat (hd_tid h))"] by auto
  obtain l3 where l3: "encode [char_of (level_code (hd_level h))] l2 = Inr l3"
    and r3: "room 91 (mem_store e 8 (unat (hd_time h)) @ mem_store e 4 (unat (hd_tid h)) @
      [char_of (level_code (hd_level h))]) l3"
    using encode_in_room [OF r2, of "[char_of (level_code (hd_level h))]"] by auto
  obtain l4 where l4: "encode (view_bytes e (hd_file h)) l3 = Inr l4"
    and r4: "room 75 ((mem_store e 8 (unat (hd_time h)) @ mem_store e 4 (unat (hd_tid h)) @
      [char_of (level_code (hd_level h))]) @ view_bytes e (hd_file h)) l4"
    using encode_in_room [OF r3, of "view_bytes e (hd_file h)"] by auto
  obtain l5 where l5: "encode (view_bytes e (hd_func h)) l4 = Inr l5"
    and r5: "room 59 (((mem_store e 8 (unat (hd_time h)) @ mem_store e 4 (unat (hd_tid h)) @
      [char_of (level_code (hd_level h))]) @ view_bytes e (hd_file h)) @ view_bytes e (hd_func h)) l5"
    using encode_in_room [OF r4, of "view_bytes e (hd_func h)"] by auto
  obtain l6 where l6: "encode (mem_store e 4 (unat (hd_line h))) l5 = Inr l6"
    and r6: "room 55 ((((mem_store e 8 (unat (hd_time h)) @ mem_store e 4 (unat (hd_tid h)) @
      [char_of (level_code (hd_level h))]) @ view_bytes e (hd_file h)) @ view_bytes e (hd_func h)) @
      mem_store e 4 (unat (hd_line h))) l6"
    using encode_in_room [OF r5, of "mem_store e 4 (unat (hd_line h))"] by auto
  obtain l7 where l7: "encode (mem_store e 4 (unat (hd_errno h))) l6 = Inr l7" and r7: "room 51 (header_bytes e h) l7"
    using encode_in_room [OF r6, of "mem_store e 4 (unat (hd_errno h))"] by (auto simp: header_bytes_def)
  from r7 have "line_ok l7" "line_bytes l7 = header_bytes e h" "used_bytes l7 = 53"
    by (auto simp: room_def header_bytes_def)
  with l1 l2 l3 l4 l5 l6 l7 show ?thesis by (simp add: LogLine_new_def)
qed

subsection \<open>Reading it back\<close>

text \<open>\<open>ahead buf b xs\<close>: from position \<open>b\<close> on, the buffer holds \<open>xs\<close>.\<close>

definition ahead :: "char list \<Rightarrow> nat \<Rightarrow> char list \<Rightarrow> bool" where
  "ahead buf b xs \<longleftrightarrow> b \<le> length buf \<and> drop b buf = xs"

lemma ahead_length: "ahead buf b xs \<Longrightarrow> length buf = b + length xs"
  using length_drop [of b buf] by (auto simp: ahead_def)

lemma ahead_fetch: "ahead buf b (bs @ rest) \<Longrightarrow> length bs = n \<Longrightarrow> fetch buf b n = Inr bs"
  using ahead_length [of buf b "bs @ rest"] by (simp add: fetch_def mem_read_def) (simp add: ahead_def)

lemma ahead_advance: "ahead buf b (bs @ rest) \<Longrightarrow> length bs = n \<Longrightarrow> ahead buf (b + n) rest"
proof -
  assume a: "ahead buf b (bs @ rest)" and n: "length bs = n"
  then have "drop n (drop b buf) = rest" by (simp add: ahead_def)
  with ahead_length [OF a] n show ?thesis by (simp add: ahead_def add.commute)
qed

lemma load_store_word:
  "of_nat (mem_load e (mem_store e 4 (unat (w :: 32 word)))) = w"
  "of_nat (mem_load e (mem_store e 8 (unat (v :: 64 word)))) = v"
proof -
  have "unat w < 256 ^ 4" using unsigned_less [of w] by simp
  then have "mem_load e (mem_store e 4 (unat w)) = unat w"
    by (cases e) (simp_all only: mem_load_def mem_store_def le_value_le_bytes be_value_be_bytes byte_order.case mod_less)
  then show "of_nat (mem_load e (mem_store e 4 (unat w))) = w" by simp
  have "unat v < 256 ^ 8" using unsigned_less [of v] by simp
  then have "mem_load e (mem_store e 8 (unat v)) = unat v"
    by (cases e) (simp_all only: mem_load_def mem_store_def le_value_le_bytes be_value_be_bytes byte_order.case mod_less)
  then show "of_nat (mem_load e (mem_store e 8 (unat v))) = v" by simp
qed

lemma ahead_fetch32: "ahead buf b (mem_store e 4 (unat w) @ rest) \<Longrightarrow> fetch32 e buf b = Inr w"
  by (simp add: fetch32_def ahead_fetch load_store_word)

lemma ahead_fetch64: "ahead buf b (mem_store e 8 (unat w) @ rest) \<Longrightarrow> fetch64 e buf b = Inr w"
  by (simp add: fetch64_def ahead_fetch load_store_word)

lemma ahead_fetch_view:
  assumes "ahead buf b (view_bytes e sv @ rest)"
  shows "fetch_view e buf b = Inr sv"
proof -
  from assms have 1: "ahead buf b (mem_store e 8 (unat (view_len sv)) @ mem_store e 8 (unat (view_ptr sv)) @ rest)"
    by (simp add: view_bytes_def)
  from ahead_advance [OF 1] have 2: "ahead buf (b + 8) (mem_store e 8 (unat (view_ptr sv)) @ rest)" by simp
  from ahead_fetch64 [OF 1] ahead_fetch64 [OF 2] show ?thesis by (simp add: fetch_view_def)
qed

text \<open>What an operand is printed as, and when it can be printed.\<close>

definition view_chars :: "log_env \<Rightarrow> string_view \<Rightarrow> string" where
  "view_chars env sv = take (unat (view_len sv)) (the (env_text env (view_ptr sv)))"

definition view_valid :: "log_env \<Rightarrow> string_view \<Rightarrow> bool" where
  "view_valid env sv \<longleftrightarrow>
     (case env_text env (view_ptr sv) of None \<Rightarrow> False | Some s \<Rightarrow> unat (view_len sv) \<le> length s)"

fun item_text :: "log_env \<Rightarrow> log_item \<Rightarrow> string" where
  "item_text env (ItChar c) = [c]"
| "item_text env (ItInt32 i) = show_int (sint i)"
| "item_text env (ItInt64 i) = show_int (sint i)"
| "item_text env (ItUInt32 i) = show_nat (unat i)"
| "item_text env (ItUInt64 i) = show_nat (unat i)"
| "item_text env (ItDouble d) = env_show_double env d"
| "item_text env (ItString s) = c_str s"
| "item_text env (ItView sv) = view_chars env sv"
| "item_text env (ItPointer p) = show_nat (unat p)"

fun item_valid :: "log_env \<Rightarrow> log_item \<Rightarrow> bool" where
  "item_valid env (ItView sv) = view_valid env sv"
| "item_valid env it = True"

lemma view_text_valid: "view_valid env sv \<Longrightarrow> view_text env sv = Inr (view_chars env sv)"
  by (simp add: view_valid_def view_text_def view_chars_def c_string_at_def split: option.splits)

lemma c_str_no_NUL: "NUL \<notin> set (c_str s)"
  using set_takeWhileD unfolding c_str_def by fastforce

lemma c_str_append: "NUL \<notin> set cs \<Longrightarrow> c_str (cs @ NUL # rest) = cs"
  by (induction cs) (auto simp: c_str_def)

lemma type_of_code_code: "type_of_code (type_code ty) = Some ty" "type_code ty < 256"
  by (cases ty; simp add: type_of_code_def)+

text \<open>One turn of the loop.\<close>

lemma stringify_items_step:
  assumes "ahead buf b (char_of (type_code ty) # rest)" and "b < e"
    and "decode_item env ty buf (b + 1) = Inr (s, b')"
  shows "stringify_items env buf b e = result_bind (stringify_items env buf b' e) (\<lambda>r. Inr (s @ r))"
proof -
  have "fetch buf b 1 = Inr [char_of (type_code ty)]"
    using ahead_fetch [of buf b "[char_of (type_code ty)]" rest] assms(1) by simp
  moreover have "(of_char (char_of (type_code ty) :: char) :: nat) = type_code ty"
    using type_of_code_code(2) [of ty] by simp
  ultimately show ?thesis
    using assms(2,3) by (simp add: stringify_items.simps [of env buf b e] type_of_code_code)
qed

text \<open>The type code of an operand that leaves bytes, and the payload after it.\<close>

fun item_type :: "log_item \<Rightarrow> SupportedTypes" where
  "item_type (ItChar c) = kChar"
| "item_type (ItInt32 i) = kInt32"
| "item_type (ItInt64 i) = kInt64"
| "item_type (ItUInt32 i) = kUInt32"
| "item_type (ItUInt64 i) = kUInt64"
| "item_type (ItDouble d) = kDouble"
| "item_type (ItString s) = kRawStr"
| "item_type (ItView sv) = kStrView"
| "item_type (ItPointer p) = kUInt64"

lemma item_bytes_nonempty:
  "item_bytes e it \<noteq> [] \<Longrightarrow> item_bytes e it = char_of (type_code (item_type it)) # tl (item_bytes e it)"
  by (cases it) (auto split: if_splits)

lemma decode_item_text:
  assumes "ahead buf b (tl (item_bytes (env_order env) it) @ rest)" and "item_bytes (env_order env) it \<noteq> []"
    and "item_valid env it"
  shows "decode_item env (item_type it) buf b = Inr (item_text env it, b + length (tl (item_bytes (env_order env) it)))"
proof (cases it)
  case (ItChar c)
  with assms ahead_fetch [of buf b "[c]" rest] show ?thesis by simp
next
  case (ItString s)
  with assms have "drop b buf = c_str s @ NUL # rest" by (simp add: ahead_def split: if_splits)
  with ItString assms(2) c_str_no_NUL [of s] show ?thesis
    by (auto simp: decodeRawStr_def Let_def c_str_append split: if_splits)
next
  case (ItView sv)
  with assms ahead_fetch_view [of buf b "env_order env" sv rest] view_text_valid [of env sv] show ?thesis
    by (simp add: decodeStrView_def)
qed (use assms in \<open>simp_all add: decode32_def decode64_def ahead_fetch32 ahead_fetch64\<close>)

lemma stringify_items_text:
  assumes "ahead buf b (concat (map (item_bytes (env_order env)) its) @ rest)" and "list_all (item_valid env) its"
  shows "stringify_items env buf b (b + length (concat (map (item_bytes (env_order env)) its))) =
     Inr (concat (map (item_text env) its))"
  using assms
proof (induction its arbitrary: b)
  case Nil
  then show ?case by (simp add: stringify_items.simps)
next
  case (Cons it its)
  let ?bs = "item_bytes (env_order env) it"
  let ?e = "b + length ?bs + length (concat (map (item_bytes (env_order env)) its))"
  have adv: "ahead buf (b + length ?bs) (concat (map (item_bytes (env_order env)) its) @ rest)"
    by (rule ahead_advance [of _ _ ?bs]) (use Cons.prems in simp_all)
  have IH: "stringify_items env buf (b + length ?bs) ?e = Inr (concat (map (item_text env) its))"
    using Cons.IH [OF adv] Cons.prems(2) by simp
  show ?case
  proof (cases "?bs = []")
    case True
    then have "item_text env it = []" by (cases it) (auto split: if_splits)
    with True IH show ?thesis by simp
  next
    case False
    let ?more = "concat (map (item_bytes (env_order env)) its) @ rest"
    have bs: "?bs = char_of (type_code (item_type it)) # tl ?bs" using False by (rule item_bytes_nonempty)
    have here: "ahead buf b (char_of (type_code (item_type it)) # tl ?bs @ ?more)"
      using Cons.prems(1) bs by (metis append_Cons append_assoc concat.simps(2) list.simps(9))
    then have "ahead buf (b + 1) (tl ?bs @ ?more)"
      using ahead_advance [of buf b "[char_of (type_code (item_type it))]" "tl ?bs @ ?more" 1] by simp
    from decode_item_text [OF this False] Cons.prems(2)
    have dec: "decode_item env (item_type it) buf (b + 1) = Inr (item_text env it, b + 1 + length (tl ?bs))" by simp
    have len: "b + 1 + length (tl ?bs) = b + length ?bs" using False by (cases ?bs) simp_all
    from stringify_items_step [OF here _ dec, of ?e] len IH False show ?thesis by (simp add: add.assoc)
  qed
qed

text \<open>The whole line as text.\<close>

definition line_text :: "log_env \<Rightarrow> log_header \<Rightarrow> log_item list \<Rightarrow> string" where
  "line_text env h its =
     TimeStamp_toString (env_strftime env) True (sint (hd_time h)) @ '' '' @ show_int (sint (hd_tid h)) @
     '' ['' @ logLevelToString (Some (hd_level h)) @ ''] <'' @ view_chars env (hd_func h) @ ''> '' @
     (if hd_errno h \<noteq> 0 then ''('' @ env_strerror env (sint (hd_errno h)) @ '') '' else []) @
     concat (map (item_text env) its) @ '' - '' @ basename (the (env_text env (view_ptr (hd_file h)))) @ '':'' @
     show_nat (unat (hd_line h)) @ [CHR 0x0A]"

lemma level_of_code_code: "level_of_code (level_code lv) = Some lv" "level_code lv < 256"
  by (cases lv; simp add: level_of_code_def)+

lemma stringify_text:
  assumes "line_ok l" and "line_bytes l = header_bytes (env_order env) h @ concat (map (item_bytes (env_order env)) its)"
    and "used_bytes l = 53 + length (concat (map (item_bytes (env_order env)) its))"
    and "view_valid env (hd_file h)" and "view_valid env (hd_func h)" and "list_all (item_valid env) its"
  shows "stringify env errno0 l =
     Inr (line_text env h its, if hd_errno h \<noteq> 0 then 0 else errno0, hd_level h = kFATAL)"
proof -
  let ?e = "env_order env" and ?buf = "line_memory l"
  let ?body = "concat (map (item_bytes ?e) its) @ drop (used_bytes l) ?buf"
  have "?buf = line_bytes l @ drop (used_bytes l) ?buf" by (simp add: line_bytes_def)
  then have "?buf = header_bytes ?e h @ ?body" using assms(2) by (metis append_assoc)
  then have p0: "ahead ?buf 0 (mem_store ?e 8 (unat (hd_time h)) @ mem_store ?e 4 (unat (hd_tid h)) @
      [char_of (level_code (hd_level h))] @ view_bytes ?e (hd_file h) @ view_bytes ?e (hd_func h) @
      mem_store ?e 4 (unat (hd_line h)) @ mem_store ?e 4 (unat (hd_errno h)) @ ?body)"
    by (simp add: ahead_def header_bytes_def)
  note p1 = ahead_advance [OF p0, of 8, simplified]
  note p2 = ahead_advance [OF p1, of 4, simplified]
  have p3: "ahead ?buf 13 (view_bytes ?e (hd_file h) @ view_bytes ?e (hd_func h) @
      mem_store ?e 4 (unat (hd_line h)) @ mem_store ?e 4 (unat (hd_errno h)) @ ?body)"
    using ahead_advance [of ?buf 12 "[char_of (level_code (hd_level h))]" _ 1] p2 by simp
  note p4 = ahead_advance [OF p3, of 16, simplified]
  note p5 = ahead_advance [OF p4, of 16, simplified]
  note p6 = ahead_advance [OF p5, of 4, simplified]
  note p7 = ahead_advance [OF p6, of 4, simplified]
  have lv: "fetch ?buf 12 1 = Inr [char_of (level_code (hd_level h))]"
    using ahead_fetch [of ?buf 12 "[char_of (level_code (hd_level h))]" _ 1] p2 by simp
  have lc: "level_of_code (of_char (char_of (level_code (hd_level h)) :: char)) = Some (hd_level h)"
    using level_of_code_code [of "hd_level h"] by simp
  have path: "c_string_at env (view_ptr (hd_file h)) = Inr (the (env_text env (view_ptr (hd_file h))))"
    using assms(4) by (simp add: view_valid_def c_string_at_def split: option.splits)
  have body: "stringify_items env ?buf 53 (used_bytes l) = Inr (concat (map (item_text env) its))"
    using stringify_items_text [OF p7 assms(6)] assms(3) by simp
  show ?thesis
    by (simp add: stringify_def ahead_fetch64 [OF p0] ahead_fetch32 [OF p1] lv [unfolded One_nat_def] ahead_fetch_view [OF p3]
        ahead_fetch_view [OF p4] ahead_fetch32 [OF p5] ahead_fetch32 [OF p6] view_text_valid [OF assms(5)] body
        path lc [simplified] line_text_def Let_def)
qed

subsection \<open>Properties\<close>

text \<open>C11. Encoding and decoding a log line. A line is constructed, any operands are put into it with
  \<open>operator<<\<close> (the buffer moves to the heap and grows as needed) and it is printed: no step reads or
  writes outside the buffer, and the text is exactly the time, thread, level, function, error message,
  the text of every operand in order (a \<open>std::string\<close> up to its first zero byte), file and line number.
  The program is aborted exactly for the level \<open>kFATAL\<close>. The strings that views refer to must still
  exist when the line is printed.\<close>

theorem log_line_roundtrip:
  assumes "length (concat (map (item_bytes (env_order env)) its)) \<le> 2 ^ 60"
    and "view_valid env (hd_file h)" and "view_valid env (hd_func h)" and "list_all (item_valid env) its"
  shows "\<exists>l0 l. LogLine_new (env_order env) h = Inr l0 \<and> foldM (log_put (env_order env)) its l0 = Inr l \<and>
     stringify env errno0 l = Inr (line_text env h its, if hd_errno h \<noteq> 0 then 0 else errno0, hd_level h = kFATAL)"
proof -
  obtain l0 where l0: "LogLine_new (env_order env) h = Inr l0" "line_ok l0"
    "line_bytes l0 = header_bytes (env_order env) h" "used_bytes l0 = 53"
    using LogLine_new_bytes by blast
  then obtain l where l: "foldM (log_put (env_order env)) its l0 = Inr l" "line_ok l"
    "line_bytes l = line_bytes l0 @ concat (map (item_bytes (env_order env)) its)"
    "used_bytes l = used_bytes l0 + length (concat (map (item_bytes (env_order env)) its))"
    using log_puts_append [OF l0(2), of "env_order env" its] assms(1) by (auto simp: appended_def)
  from stringify_text [OF l(2) _ _ assms(2-4), of errno0] l l0 show ?thesis by auto
qed

definition demo_env :: log_env where
  "demo_env = \<lparr>env_order = LittleEndian, env_strftime = (\<lambda>f t. ''T''), env_strerror = (\<lambda>n. ''E''),
     env_show_double = (\<lambda>d. ''D''), env_text = [100 \<mapsto> ''a/b.cpp'', 200 \<mapsto> ''main'']\<rparr>"

definition demo_header :: log_header where
  "demo_header = \<lparr>hd_time = 5, hd_tid = 7, hd_level = kINFO, hd_file = \<lparr>view_len = 7, view_ptr = 100\<rparr>,
     hd_func = \<lparr>view_len = 4, view_ptr = 200\<rparr>, hd_line = 9, hd_errno = 0\<rparr>"

theorem log_line_roundtrip_witness:
  "\<exists>l0 l. LogLine_new LittleEndian demo_header = Inr l0 \<and>
     foldM (log_put LittleEndian) [ItString ''x='', ItInt32 (-3)] l0 = Inr l \<and>
     stringify demo_env 4 l = Inr (''T.000005 7 [INFO] <main> x=-3 - b.cpp:9'' @ [CHR 0x0A], 4, False)"
proof -
  have "line_text demo_env demo_header [ItString ''x='', ItInt32 (-3)] =
      ''T.000005 7 [INFO] <main> x=-3 - b.cpp:9'' @ [CHR 0x0A]"
    by code_simp
  with log_line_roundtrip [of demo_env "[ItString ''x='', ItInt32 (-3)]" demo_header 4] show ?thesis
    by (simp add: demo_env_def demo_header_def view_valid_def c_str_def)
qed

end
