(* ===== verification/LogBufferQueue.thy ===== *)
theory LogBufferQueue
  imports LogLine
begin

text \<open>
  The queue between the logging threads and the writer thread: util/LogBufferQueue.h,
  util/LogBufferQueue.cpp and the lock of util/SpinLock.h.

  \<^item> \<open>RingQueue\<close> is the pool of used buffers, an array with one free slot and two indices. Its interface
    is the locale \<open>bounded_queue\<close>, which the ring satisfies for every size.
  \<^item> A \<open>LogBuffer\<close> has \<open>kSize\<close> slots with a flag each; the last element of \<open>write_states_\<close> counts the
    writes. Buffers live in a heap, \<open>unique_ptr\<close>s and raw pointers are addresses or null.
  \<^item> The spin lock makes the operations on the ring and on the list of buffers atomic, so each is one
    function here. \<open>push\<close> is given for one producer at a time: the value \<open>None\<close> means that the call
    spins, waiting for another producer to install the next buffer. The debug counters are left out.
\<close>

subsection \<open>SpinLock\<close>

text \<open>\<open>test_and_set\<close> and \<open>clear\<close> on the flag: the constructor returns when it finds the flag clear.\<close>

definition SpinLock_acquire :: "bool \<Rightarrow> bool option" where
  "SpinLock_acquire flag = (if flag then None else Some True)"

definition SpinLock_release :: "bool \<Rightarrow> bool" where
  "SpinLock_release flag = False"

subsection \<open>RingQueue\<close>

type_synonym pointer = "addr option"

record RingQueue =
  ring_slots :: "pointer list"
  ring_write :: nat
  ring_read :: nat

definition RingQueue_new :: "nat \<Rightarrow> RingQueue" where
  "RingQueue_new SIZE = \<lparr>ring_slots = replicate (SIZE + 1) None, ring_write = 0, ring_read = 0\<rparr>"

definition RingQueue_push :: "pointer \<Rightarrow> RingQueue \<Rightarrow> bool \<times> RingQueue" where
  "RingQueue_push p q =
     (let next_write = (ring_write q + 1) mod length (ring_slots q)
      in if next_write = ring_read q then (False, q)
         else (True, q\<lparr>ring_slots := (ring_slots q)[ring_write q := p], ring_write := next_write\<rparr>))"

definition RingQueue_pop :: "RingQueue \<Rightarrow> pointer option \<times> RingQueue" where
  "RingQueue_pop q =
     (if ring_write q = ring_read q then (None, q)
      else (Some (ring_slots q ! ring_read q),
            q\<lparr>ring_slots := (ring_slots q)[ring_read q := None],
              ring_read := (ring_read q + 1) mod length (ring_slots q)\<rparr>))"

definition ring_inv :: "nat \<Rightarrow> RingQueue \<Rightarrow> bool" where
  "ring_inv SIZE q \<longleftrightarrow> length (ring_slots q) = SIZE + 1 \<and> ring_read q < SIZE + 1 \<and> ring_write q < SIZE + 1"

definition ring_count :: "RingQueue \<Rightarrow> nat" where
  "ring_count q =
     (if ring_read q \<le> ring_write q then ring_write q - ring_read q
      else ring_write q + length (ring_slots q) - ring_read q)"

definition ring_contents :: "RingQueue \<Rightarrow> pointer list" where
  "ring_contents q = map (\<lambda>i. ring_slots q ! ((ring_read q + i) mod length (ring_slots q))) [0..<ring_count q]"

subsection \<open>The interface of a bounded queue\<close>

datatype 'a bq_op = BPush 'a | BPop

datatype 'a bq_out = Pushed bool | Popped "'a option"

fun bq_run ::
  "('a \<Rightarrow> 'q \<Rightarrow> bool \<times> 'q) \<Rightarrow> ('q \<Rightarrow> 'a option \<times> 'q) \<Rightarrow> 'a bq_op list \<Rightarrow> 'q \<Rightarrow> 'a bq_out list \<times> 'q" where
  "bq_run push pop [] q = ([], q)"
| "bq_run push pop (BPush x # ops) q =
     (case push x q of (b, q1) \<Rightarrow> case bq_run push pop ops q1 of (outs, q2) \<Rightarrow> (Pushed b # outs, q2))"
| "bq_run push pop (BPop # ops) q =
     (case pop q of (y, q1) \<Rightarrow> case bq_run push pop ops q1 of (outs, q2) \<Rightarrow> (Popped y # outs, q2))"

text \<open>The reference: a list of at most \<open>n\<close> elements.\<close>

definition list_push :: "nat \<Rightarrow> 'a \<Rightarrow> 'a list \<Rightarrow> bool \<times> 'a list" where
  "list_push n x xs = (if length xs < n then (True, xs @ [x]) else (False, xs))"

definition list_pop :: "'a list \<Rightarrow> 'a option \<times> 'a list" where
  "list_pop xs = (case xs of [] \<Rightarrow> (None, []) | y # ys \<Rightarrow> (Some y, ys))"

locale bounded_queue =
  fixes inv :: "'q \<Rightarrow> bool" and contents :: "'q \<Rightarrow> 'a list" and capacity :: nat
    and push :: "'a \<Rightarrow> 'q \<Rightarrow> bool \<times> 'q" and pop :: "'q \<Rightarrow> 'a option \<times> 'q"
  assumes push_inv: "inv q \<Longrightarrow> inv (snd (push x q))"
    and pop_inv: "inv q \<Longrightarrow> inv (snd (pop q))"
    and push_refines: "inv q \<Longrightarrow> (fst (push x q), contents (snd (push x q))) = list_push capacity x (contents q)"
    and pop_refines: "inv q \<Longrightarrow> (fst (pop q), contents (snd (pop q))) = list_pop (contents q)"
begin

lemma run_refines:
  assumes "inv q"
  shows "inv (snd (bq_run push pop ops q)) \<and>
    (fst (bq_run push pop ops q), contents (snd (bq_run push pop ops q))) =
       bq_run (list_push capacity) list_pop ops (contents q)"
  using assms
proof (induction ops arbitrary: q)
  case Nil
  then show ?case by simp
next
  case (Cons a ops)
  show ?case
  proof (cases a)
    case (BPush x)
    obtain b q1 where p: "push x q = (b, q1)" by (cases "push x q")
    with push_inv [OF Cons.prems, of x] push_refines [OF Cons.prems, of x]
    have "inv q1" "list_push capacity x (contents q) = (b, contents q1)" by simp_all
    with BPush p Cons.IH [of q1] show ?thesis by (auto split: prod.splits)
  next
    case BPop
    obtain y q1 where p: "pop q = (y, q1)" by (cases "pop q")
    with pop_inv [OF Cons.prems] pop_refines [OF Cons.prems]
    have "inv q1" "list_pop (contents q) = (y, contents q1)" by simp_all
    with BPop p Cons.IH [of q1] show ?thesis by (auto split: prod.splits)
  qed
qed

end

lemma mod_once: "r < n \<Longrightarrow> i \<le> n \<Longrightarrow> (r + i) mod n = (if r + i < n then r + i else r + i - n)" for r :: nat
  by (auto simp: mod_if)

lemma ring_count_less: "ring_inv n q \<Longrightarrow> ring_count q < length (ring_slots q)"
  by (auto simp: ring_inv_def ring_count_def)

lemma ring_contents_eq:
  assumes "ring_inv n q" and "length xs = ring_count q"
    and "\<And>i. i < ring_count q \<Longrightarrow> ring_slots q ! ((ring_read q + i) mod length (ring_slots q)) = xs ! i"
  shows "ring_contents q = xs"
  by (rule nth_equalityI) (use assms in \<open>simp_all add: ring_contents_def\<close>)

lemma nth_ring_contents:
  "i < ring_count q \<Longrightarrow> ring_contents q ! i = ring_slots q ! ((ring_read q + i) mod length (ring_slots q))"
  by (simp add: ring_contents_def)

lemma length_ring_contents [simp]: "length (ring_contents q) = ring_count q"
  by (simp add: ring_contents_def)

lemma ring_push_inv: "ring_inv n q \<Longrightarrow> ring_inv n (snd (RingQueue_push x q))"
  by (auto simp: ring_inv_def RingQueue_push_def Let_def)

lemma ring_pop_inv: "ring_inv n q \<Longrightarrow> ring_inv n (snd (RingQueue_pop q))"
  by (auto simp: ring_inv_def RingQueue_pop_def)

lemma ring_full_iff:
  "ring_inv n q \<Longrightarrow> (ring_write q + 1) mod length (ring_slots q) = ring_read q \<longleftrightarrow> ring_count q = n"
  using mod_once [of "ring_write q" "n + 1" 1] by (auto simp: ring_inv_def ring_count_def)

lemma ring_push_refines:
  assumes "ring_inv n q"
  shows "(fst (RingQueue_push x q), ring_contents (snd (RingQueue_push x q))) = list_push n x (ring_contents q)"
proof (cases "ring_count q = n")
  case True
  then show ?thesis using ring_full_iff [OF assms] by (simp add: RingQueue_push_def list_push_def)
next
  case False
  let ?q = "snd (RingQueue_push x q)"
  let ?n = "length (ring_slots q)"
  from False have push: "fst (RingQueue_push x q)" and
    q': "?q = q\<lparr>ring_slots := (ring_slots q)[ring_write q := x], ring_write := (ring_write q + 1) mod ?n\<rparr>"
    using ring_full_iff [OF assms] by (simp_all add: RingQueue_push_def Let_def)
  have lt: "ring_count q < n" using False ring_count_less [OF assms] assms by (simp add: ring_inv_def)
  have count: "ring_count ?q = ring_count q + 1"
    using assms False mod_once [of "ring_write q" ?n 1] unfolding q'
    by (auto simp: ring_inv_def ring_count_def split: if_splits)
  have "ring_contents ?q = ring_contents q @ [x]"
  proof (rule ring_contents_eq)
    show "ring_inv n ?q" by (rule ring_push_inv) (rule assms)
    show "length (ring_contents q @ [x]) = ring_count ?q" by (simp add: count)
    fix i assume "i < ring_count ?q"
    then have i: "i \<le> ring_count q" by (simp add: count)
    have pos: "(ring_read q + i) mod ?n = ring_write q \<longleftrightarrow> i = ring_count q"
      using assms i ring_count_less [OF assms] mod_once [of "ring_read q" ?n i]
      by (auto simp: ring_inv_def ring_count_def split: if_splits)
    have "(ring_read q + i) mod ?n < ?n" using assms by (intro mod_less_divisor) (simp add: ring_inv_def)
    with pos i assms show "ring_slots ?q ! ((ring_read ?q + i) mod length (ring_slots ?q)) = (ring_contents q @ [x]) ! i"
      unfolding q' by (cases "i = ring_count q") (auto simp: nth_append nth_ring_contents ring_inv_def)
  qed
  with push lt show ?thesis by (simp add: list_push_def)
qed

lemma ring_pop_refines:
  assumes "ring_inv n q"
  shows "(fst (RingQueue_pop q), ring_contents (snd (RingQueue_pop q))) = list_pop (ring_contents q)"
proof (cases "ring_write q = ring_read q")
  case True
  then have "ring_contents q = []" by (simp add: ring_contents_def ring_count_def)
  with True show ?thesis by (simp add: RingQueue_pop_def list_pop_def)
next
  case False
  let ?q = "snd (RingQueue_pop q)"
  let ?n = "length (ring_slots q)"
  have pop: "fst (RingQueue_pop q) = Some (ring_slots q ! ring_read q)" and
    q': "?q = q\<lparr>ring_slots := (ring_slots q)[ring_read q := None], ring_read := (ring_read q + 1) mod ?n\<rparr>"
    using False by (simp_all add: RingQueue_pop_def)
  have count: "ring_count q = ring_count ?q + 1"
    using assms False mod_once [of "ring_read q" ?n 1] unfolding q'
    by (auto simp: ring_inv_def ring_count_def split: if_splits)
  have first: "ring_contents q ! 0 = ring_slots q ! ring_read q"
    using assms count nth_ring_contents [of 0 q] by (simp add: ring_inv_def)
  have "ring_contents ?q = tl (ring_contents q)"
  proof (rule ring_contents_eq)
    show "ring_inv n ?q" by (rule ring_pop_inv) (rule assms)
    show "length (tl (ring_contents q)) = ring_count ?q" by (simp add: count)
    fix i assume i: "i < ring_count ?q"
    have pos: "((ring_read q + 1) mod ?n + i) mod ?n = (ring_read q + (i + 1)) mod ?n"
      by (metis add.assoc add.commute mod_add_left_eq)
    have "(ring_read q + (i + 1)) mod ?n \<noteq> ring_read q"
      using assms i count ring_count_less [OF assms] mod_once [of "ring_read q" ?n "i + 1"]
      by (auto simp: ring_inv_def)
    with pos i count show "ring_slots ?q ! ((ring_read ?q + i) mod length (ring_slots ?q)) = tl (ring_contents q) ! i"
      unfolding q' by (simp add: nth_tl nth_ring_contents)
  qed
  moreover have "ring_contents q = ring_slots q ! ring_read q # tl (ring_contents q)"
    using first count by (cases "ring_contents q") (auto simp flip: length_0_conv)
  ultimately show ?thesis unfolding pop list_pop_def by (metis list.simps(5))
qed

interpretation ring: bounded_queue "ring_inv n" ring_contents n RingQueue_push RingQueue_pop for n
  by unfold_locales (rule ring_push_inv ring_pop_inv ring_push_refines ring_pop_refines; assumption)+

lemma RingQueue_new_ok: "ring_inv n (RingQueue_new n)" "ring_contents (RingQueue_new n) = []"
  by (simp_all add: ring_inv_def RingQueue_new_def ring_contents_def ring_count_def)

subsection \<open>LogBuffer\<close>

definition kSize :: nat where "kSize = 4096 * 8"

lemma kSize_pos: "0 < kSize" by (simp add: kSize_def)

record LogBuffer =
  write_states :: "nat list"
  buf_items :: "LogLine option list"   \<comment> \<open>\<open>None\<close>: memory without an object\<close>

definition LogBuffer_new :: LogBuffer where
  "LogBuffer_new = \<lparr>write_states = replicate (kSize + 1) 0, buf_items = replicate (kSize + 1) None\<rparr>"

text \<open>The destructor destroys the first \<open>write_count\<close> items; an item without an object must not be among them.\<close>

definition LogBuffer_destroy :: "LogBuffer \<Rightarrow> unit result" where
  "LogBuffer_destroy b = check OutOfBounds (None \<notin> set (take (write_states b ! kSize) (buf_items b))) (Inr ())"

definition LogBuffer_push :: "LogLine \<Rightarrow> nat \<Rightarrow> LogBuffer \<Rightarrow> (bool \<times> LogBuffer) result" where
  "LogBuffer_push line i b =
     check OutOfBounds (i < length (buf_items b) \<and> i < length (write_states b))
       (let states = (write_states b)[i := 1];
            full = (states ! kSize + 1 = kSize)
        in Inr (full, \<lparr>write_states = states[kSize := if full then 0 else states ! kSize + 1],
                       buf_items = (buf_items b)[i := Some line]\<rparr>))"

definition LogBuffer_pop :: "nat \<Rightarrow> LogBuffer \<Rightarrow> (LogLine option \<times> LogBuffer) result" where
  "LogBuffer_pop i b =
     check OutOfBounds (i < length (buf_items b) \<and> i < length (write_states b))
       (if write_states b ! i \<noteq> 0
        then case buf_items b ! i of
               None \<Rightarrow> Inl OutOfBounds
             | Some l \<Rightarrow> (case LogLine_move l of (line, rest) \<Rightarrow>
                           Inr (Some line, b\<lparr>buf_items := (buf_items b)[i := Some rest]\<rparr>))
        else Inr (None, b))"

subsection \<open>LogBufferQueue\<close>

record LogBufferQueue =
  buffer_heap :: "addr \<rightharpoonup> LogBuffer"
  next_addr :: addr     \<comment> \<open>the allocator\<close>
  log_buffers :: "pointer list"
  current_write :: pointer
  current_read :: pointer
  lq_write_index :: nat
  lq_read_index :: nat
  backups :: RingQueue

definition setupNextWriteLogBuffer :: "LogBufferQueue \<Rightarrow> LogBufferQueue" where
  "setupNextWriteLogBuffer q =
     (case (case RingQueue_pop (backups q) of
              (None, r) \<Rightarrow> (Some (next_addr q), q\<lparr>buffer_heap := (buffer_heap q)(next_addr q \<mapsto> LogBuffer_new),
                                                next_addr := next_addr q + 1, backups := r\<rparr>)
            | (Some p, r) \<Rightarrow> (p, q\<lparr>backups := r\<rparr>)) of
        (p, q1) \<Rightarrow> q1\<lparr>current_write := p, log_buffers := log_buffers q1 @ [p], lq_write_index := 0\<rparr>)"

definition LogBufferQueue_new :: LogBufferQueue where
  "LogBufferQueue_new =
     setupNextWriteLogBuffer
       \<lparr>buffer_heap = Map.empty, next_addr = 0, log_buffers = [], current_write = None, current_read = None,
        lq_write_index = 0, lq_read_index = 0, backups = RingQueue_new 4\<rparr>"

definition getNextReadLogBuffer :: "LogBufferQueue \<Rightarrow> pointer" where
  "getNextReadLogBuffer q = (case log_buffers q of [] \<Rightarrow> None | p # ps \<Rightarrow> p)"

definition LogBufferQueue_push :: "LogLine \<Rightarrow> LogBufferQueue \<Rightarrow> LogBufferQueue result option" where
  "LogBufferQueue_push line q =
     (case current_write q of
        None \<Rightarrow> Some (Inl AssertFailed)
      | Some a \<Rightarrow>
          (let i = lq_write_index q; q1 = q\<lparr>lq_write_index := i + 1\<rparr>
           in if i < kSize
              then Some (case buffer_heap q1 a of
                     None \<Rightarrow> Inl UseAfterFree
                   | Some b \<Rightarrow>
                       result_bind (LogBuffer_push line i b) (\<lambda>(full, b').
                         let q2 = q1\<lparr>buffer_heap := (buffer_heap q1)(a \<mapsto> b')\<rparr>
                         in Inr (if full then setupNextWriteLogBuffer q2 else q2)))
              else None))"

text \<open>When the reader has finished a buffer it goes to the ring, or is destroyed when the ring is full.\<close>

definition retire_front :: "LogBufferQueue \<Rightarrow> LogBufferQueue result" where
  "retire_front q =
     (case log_buffers q of
        [] \<Rightarrow> Inl OutOfBounds
      | up # rest \<Rightarrow>
          (case RingQueue_push up (backups q) of (kept, r) \<Rightarrow>
             let q1 = q\<lparr>log_buffers := rest, backups := r\<rparr>
             in if kept then Inr q1
                else case up of
                  None \<Rightarrow> Inr q1
                | Some a \<Rightarrow>
                    (case buffer_heap q1 a of
                       None \<Rightarrow> Inl UseAfterFree
                     | Some b \<Rightarrow> result_bind (LogBuffer_destroy b) (\<lambda>_. Inr (q1\<lparr>buffer_heap := (buffer_heap q1)(a := None)\<rparr>)))))"

definition LogBufferQueue_pop :: "LogBufferQueue \<Rightarrow> (LogLine option \<times> LogBufferQueue) result" where
  "LogBufferQueue_pop q0 =
     (let q = (if current_read q0 = None then q0\<lparr>current_read := getNextReadLogBuffer q0\<rparr> else q0)
      in case current_read q of
           None \<Rightarrow> Inr (None, q)
         | Some a \<Rightarrow>
             (case buffer_heap q a of
                None \<Rightarrow> Inl UseAfterFree
              | Some b \<Rightarrow>
                  result_bind (LogBuffer_pop (lq_read_index q) b) (\<lambda>(line, b').
                    case line of
                      None \<Rightarrow> Inr (None, q)
                    | Some l \<Rightarrow>
                        (let q1 = q\<lparr>buffer_heap := (buffer_heap q)(a \<mapsto> b'), lq_read_index := lq_read_index q + 1\<rparr>
                         in if lq_read_index q1 = kSize
                            then result_bind (retire_front (q1\<lparr>lq_read_index := 0, current_read := None\<rparr>))
                                   (\<lambda>q2. Inr (Some l, q2))
                            else Inr (Some l, q1)))))"

subsection \<open>The queue before a buffer is used again\<close>

text \<open>Of the lines \<open>L\<close> pushed so far, \<open>m\<close> have been popped. Lines \<open>k * kSize\<close> and on are in buffer \<open>k\<close>;
  the writer is in buffer \<open>W\<close> at slot \<open>j\<close>.\<close>

definition block :: "LogLine list \<Rightarrow> nat \<Rightarrow> nat \<Rightarrow> nat \<Rightarrow> nat \<Rightarrow> LogBuffer \<Rightarrow> bool" where
  "block L W j m k b \<longleftrightarrow>
     length (write_states b) = kSize + 1 \<and> length (buf_items b) = kSize + 1 \<and>
     write_states b ! kSize = (if k = W then j else 0) \<and>
     (\<forall>i < kSize. write_states b ! i = (if k * kSize + i < length L then 1 else 0)) \<and>
     (\<forall>i < kSize. k * kSize + i < length L \<longrightarrow>
        buf_items b ! i = Some (if k * kSize + i < m then snd (LogLine_move (L ! (k * kSize + i)))
                                else L ! (k * kSize + i)))"

definition queue_holds :: "LogLine list \<Rightarrow> nat \<Rightarrow> nat \<Rightarrow> nat \<Rightarrow> nat \<Rightarrow> LogBufferQueue \<Rightarrow> bool" where
  "queue_holds L W j R r q \<longleftrightarrow>
     j < kSize \<and> r < kSize \<and> length L = W * kSize + j \<and> R * kSize + r \<le> length L \<and> (R = 0 \<or> R = 1 \<and> W = 1) \<and>
     log_buffers q = map Some [R..<W + 1] \<and> current_write q = Some W \<and> lq_write_index q = j \<and>
     next_addr q = W + 1 \<and> lq_read_index q = r \<and> (current_read q = None \<or> current_read q = Some R) \<and>
     ring_inv 4 (backups q) \<and> ring_contents (backups q) = map Some [0..<R] \<and>
     (\<forall>k \<le> W. \<exists>b. buffer_heap q k = Some b \<and> block L W j (R * kSize + r) k b)"

lemma block_index: "k * kSize + i = R * kSize + r \<Longrightarrow> i < kSize \<Longrightarrow> r < kSize \<Longrightarrow> k = R \<and> i = r"
  by (metis add.commute add_left_cancel div_mult_self1 div_less mult.commute add_cancel_right_left kSize_pos less_nat_zero_code)

lemma block_before: "k < W \<Longrightarrow> i < kSize \<Longrightarrow> k * kSize + i < W * kSize"
proof -
  assume "k < W" "i < kSize"
  then have "k * kSize + i < (k + 1) * kSize" by simp
  also have "\<dots> \<le> W * kSize" using \<open>k < W\<close> by (intro mult_le_mono1) simp
  finally show ?thesis .
qed

lemma block_fresh: "length L = W * kSize \<Longrightarrow> block L W 0 m W LogBuffer_new"
  by (simp add: block_def LogBuffer_new_def del: replicate_Suc)

lemma block_older:
  assumes "block L W j m k b" and "k < W" and "W \<le> W'" and "W * kSize \<le> length L"
  shows "block (L @ [x]) W' j' m k b"
  using assms block_before [OF assms(2)] unfolding block_def
  by (simp add: nth_append) (meson less_SucI less_le_trans)

lemma block_push:
  assumes "block L W j m W b" and "j < kSize" and "length L = W * kSize + j" and "m \<le> length L"
  shows "\<exists>b'. LogBuffer_push x j b = Inr (j + 1 = kSize, b') \<and>
     block (L @ [x]) (if j + 1 = kSize then W + 1 else W) (if j + 1 = kSize then 0 else j + 1) m W b'"
proof -
  let ?s = "(write_states b)[j := 1]"
  let ?b = "\<lparr>write_states = ?s[kSize := if j + 1 = kSize then 0 else j + 1],
             buf_items = (buf_items b)[j := Some x]\<rparr>"
  have "LogBuffer_push x j b = Inr (j + 1 = kSize, ?b)"
    using assms by (simp add: LogBuffer_push_def block_def Let_def)
  moreover have "block (L @ [x]) (if j + 1 = kSize then W + 1 else W) (if j + 1 = kSize then 0 else j + 1) m W ?b"
    using assms unfolding block_def by (auto simp: nth_append nth_list_update)
  ultimately show ?thesis by blast
qed

lemma block_pop:
  assumes "block L W j (R * kSize + r) R b" and "r < kSize" and "R * kSize + r < length L"
  shows "\<exists>b'. LogBuffer_pop r b = Inr (Some (L ! (R * kSize + r)), b') \<and> block L W j (R * kSize + r + 1) R b'"
proof -
  let ?l = "L ! (R * kSize + r)"
  let ?b = "b\<lparr>buf_items := (buf_items b)[r := Some (snd (LogLine_move ?l))]\<rparr>"
  have "LogBuffer_pop r b = Inr (Some ?l, ?b)"
    using assms by (simp add: LogBuffer_pop_def block_def LogLine_move_def)
  moreover have "block L W j (R * kSize + r + 1) R ?b"
    using assms unfolding block_def by (auto simp: nth_list_update)
  ultimately show ?thesis by blast
qed

lemma block_pop_other:
  assumes "block L W j (R * kSize + r) k b" and "k \<noteq> R" and "r < kSize"
  shows "block L W j (R * kSize + r + 1) k b"
proof -
  have "k * kSize + i < R * kSize + r + 1 \<longleftrightarrow> k * kSize + i < R * kSize + r" if "i < kSize" for i
    using block_index [of k i R r] that assms(2,3) by (auto simp: less_Suc_eq)
  with assms(1) show ?thesis unfolding block_def by auto
qed

lemma block_pop_empty:
  assumes "block L W j m R b" and "r < kSize" and "R * kSize + r = length L"
  shows "LogBuffer_pop r b = Inr (None, b)"
  using assms by (simp add: LogBuffer_pop_def block_def)

lemma queue_new: "queue_holds [] 0 0 0 0 LogBufferQueue_new"
  using kSize_pos RingQueue_new_ok [of 4]
  by (simp add: queue_holds_def LogBufferQueue_new_def setupNextWriteLogBuffer_def RingQueue_pop_def
      block_fresh) (simp add: RingQueue_new_def)

lemma queue_push:
  assumes "queue_holds L W j R r q" and "j + 1 = kSize \<Longrightarrow> R = 0"
  shows "\<exists>q'. LogBufferQueue_push x q = Some (Inr q') \<and>
     queue_holds (L @ [x]) (if j + 1 = kSize then W + 1 else W) (if j + 1 = kSize then 0 else j + 1) R r q'"
proof -
  let ?m = "R * kSize + r"
  let ?W = "if j + 1 = kSize then W + 1 else W" and ?j = "if j + 1 = kSize then 0 else j + 1"
  obtain b where b: "buffer_heap q W = Some b" "block L W j ?m W b"
    using assms(1) by (auto simp: queue_holds_def)
  have q: "j < kSize" "length L = W * kSize + j" "?m \<le> length L" "current_write q = Some W" "lq_write_index q = j"
    using assms(1) by (simp_all add: queue_holds_def)
  obtain b' where b': "LogBuffer_push x j b = Inr (j + 1 = kSize, b')" "block (L @ [x]) ?W ?j ?m W b'"
    using block_push [OF b(2) q(1-3)] by blast
  define q2 where "q2 = q\<lparr>lq_write_index := j + 1, buffer_heap := (buffer_heap q)(W \<mapsto> b')\<rparr>"
  have push: "LogBufferQueue_push x q = Some (Inr (if j + 1 = kSize then setupNextWriteLogBuffer q2 else q2))"
    using q b(1) b'(1) by (simp add: LogBufferQueue_push_def q2_def)
  have old: "\<exists>b. buffer_heap q2 k = Some b \<and> block (L @ [x]) ?W ?j ?m k b" if "k \<le> W" for k
  proof (cases "k = W")
    case True
    with b' show ?thesis by (simp add: q2_def)
  next
    case False
    with that obtain c where "buffer_heap q k = Some c" "block L W j ?m k c"
      using assms(1) by (auto simp: queue_holds_def)
    with False that q(2) block_older [of L W j ?m k c ?W x ?j] show ?thesis by (simp add: q2_def)
  qed
  show ?thesis
  proof (cases "j + 1 = kSize")
    case False
    have "queue_holds (L @ [x]) W (j + 1) R r q2"
      using assms(1) False old unfolding queue_holds_def by (simp add: q2_def)
    with False push show ?thesis by simp
  next
    case True
    then have R: "R = 0" by (rule assms(2))
    then have "ring_contents (backups q2) = []" "ring_inv 4 (backups q2)"
      using assms(1) by (simp_all add: queue_holds_def q2_def)
    with ring.pop_refines [of 4 "backups q2"] have "fst (RingQueue_pop (backups q2)) = None" by (simp add: list_pop_def)
    then have "RingQueue_pop (backups q2) = (None, backups q2)" by (simp add: RingQueue_pop_def split: if_splits)
    then have set: "setupNextWriteLogBuffer q2 = q2\<lparr>buffer_heap := (buffer_heap q2)(W + 1 \<mapsto> LogBuffer_new),
        next_addr := W + 2, backups := backups q2, current_write := Some (W + 1),
        log_buffers := log_buffers q2 @ [Some (W + 1)], lq_write_index := 0\<rparr>" (is "_ = ?q")
      using assms(1) by (simp add: setupNextWriteLogBuffer_def queue_holds_def q2_def)
    have new: "\<exists>b. buffer_heap ?q k = Some b \<and> block (L @ [x]) (W + 1) 0 ?m k b" if "k \<le> W + 1" for k
    proof (cases "k = W + 1")
      case k: True
      have "length (L @ [x]) = (W + 1) * kSize" using q(2) True by simp
      from block_fresh [OF this] k show ?thesis by simp
    next
      case False
      with old [of k] that True show ?thesis by simp
    qed
    have "queue_holds (L @ [x]) (W + 1) 0 R r ?q"
      using assms(1) R True new kSize_pos unfolding queue_holds_def by (simp add: q2_def)
    with True push set show ?thesis by simp
  qed
qed

text \<open>The state of the queue once the reader has its buffer.\<close>

definition attached :: "LogBufferQueue \<Rightarrow> LogBufferQueue" where
  "attached q = (if current_read q = None then q\<lparr>current_read := getNextReadLogBuffer q\<rparr> else q)"

lemma queue_attached:
  assumes "queue_holds L W j R r q"
  shows "queue_holds L W j R r (attached q)" and "current_read (attached q) = Some R"
proof -
  have "R \<le> W" using assms by (auto simp: queue_holds_def)
  then have "getNextReadLogBuffer q = Some R"
    using assms by (simp add: getNextReadLogBuffer_def queue_holds_def upt_rec)
  with assms show "queue_holds L W j R r (attached q)" "current_read (attached q) = Some R"
    by (auto simp: attached_def queue_holds_def)
qed

lemma attached_None: "current_read q = None \<Longrightarrow> attached q = q\<lparr>current_read := getNextReadLogBuffer q\<rparr>"
  by (simp add: attached_def)

lemma pop_attached:
  assumes "current_read (attached q) = Some a" and "buffer_heap (attached q) a = Some b"
  shows "LogBufferQueue_pop q =
     result_bind (LogBuffer_pop (lq_read_index (attached q)) b) (\<lambda>(line, b').
       case line of
         None \<Rightarrow> Inr (None, attached q)
       | Some l \<Rightarrow>
           (let q1 = (attached q)\<lparr>buffer_heap := (buffer_heap (attached q))(a \<mapsto> b'),
                                  lq_read_index := lq_read_index (attached q) + 1\<rparr>
            in if lq_read_index q1 = kSize
               then result_bind (retire_front (q1\<lparr>lq_read_index := 0, current_read := None\<rparr>)) (\<lambda>q2. Inr (Some l, q2))
               else Inr (Some l, q1)))"
  using assms unfolding LogBufferQueue_pop_def attached_def [symmetric] by (simp only: Let_def option.case)

lemma queue_pop_empty:
  assumes "queue_holds L W j R r q" and "R * kSize + r = length L"
  shows "\<exists>q'. LogBufferQueue_pop q = Inr (None, q') \<and> queue_holds L W j R r q'"
proof -
  note at = queue_attached [OF assms(1)]
  have "R \<le> W" using assms(1) by (auto simp: queue_holds_def)
  then obtain b where b: "buffer_heap (attached q) R = Some b" "block L W j (R * kSize + r) R b"
    using at(1) by (auto simp: queue_holds_def)
  have "lq_read_index (attached q) = r" "r < kSize" using at(1) by (simp_all add: queue_holds_def)
  with block_pop_empty [OF b(2) _ assms(2)] pop_attached [OF at(2) b(1)] at(1) show ?thesis by simp
qed

lemma queue_pop:
  assumes "queue_holds L W j R r q" and "R * kSize + r < length L" and "r + 1 = kSize \<Longrightarrow> R = 0 \<and> W = 1"
  shows "\<exists>q'. LogBufferQueue_pop q = Inr (Some (L ! (R * kSize + r)), q') \<and>
     queue_holds L W j (if r + 1 = kSize then R + 1 else R) (if r + 1 = kSize then 0 else r + 1) q'"
proof -
  note at = queue_attached [OF assms(1)]
  have "R \<le> W" using assms(1) by (auto simp: queue_holds_def)
  then obtain b where b: "buffer_heap (attached q) R = Some b" "block L W j (R * kSize + r) R b"
    using at(1) by (auto simp: queue_holds_def)
  have r: "lq_read_index (attached q) = r" "r < kSize" using at(1) by (simp_all add: queue_holds_def)
  obtain b' where b': "LogBuffer_pop r b = Inr (Some (L ! (R * kSize + r)), b')" "block L W j (R * kSize + r + 1) R b'"
    using block_pop [OF b(2) r(2) assms(2)] by blast
  define q1 where "q1 = (attached q)\<lparr>buffer_heap := (buffer_heap (attached q))(R \<mapsto> b'), lq_read_index := r + 1\<rparr>"
  have bufs: "\<exists>b. buffer_heap q1 k = Some b \<and> block L W j (R * kSize + r + 1) k b" if "k \<le> W" for k
  proof (cases "k = R")
    case True
    with b'(2) show ?thesis by (simp add: q1_def)
  next
    case False
    with that at(1) obtain c where "buffer_heap (attached q) k = Some c" "block L W j (R * kSize + r) k c"
      by (auto simp: queue_holds_def)
    with False block_pop_other [OF this(2) False r(2)] show ?thesis by (simp add: q1_def)
  qed
  show ?thesis
  proof (cases "r + 1 = kSize")
    case False
    have "LogBufferQueue_pop q = Inr (Some (L ! (R * kSize + r)), q1)"
      using pop_attached [OF at(2) b(1)] b'(1) r False by (simp add: q1_def)
    moreover have "queue_holds L W j R (r + 1) q1"
      using at(1) bufs assms(2) False unfolding queue_holds_def by (simp add: q1_def)
    ultimately show ?thesis using False by simp
  next
    case True
    then have RW: "R = 0" "W = 1" using assms(3) by simp_all
    let ?q = "q1\<lparr>lq_read_index := 0, current_read := None\<rparr>"
    have lb: "log_buffers ?q = [Some 0, Some 1]" "ring_inv 4 (backups ?q)" "ring_contents (backups ?q) = []"
      using at(1) RW by (simp_all add: queue_holds_def q1_def upt_rec)
    obtain s r' where sr: "RingQueue_push (Some 0) (backups ?q) = (s, r')" by (cases "RingQueue_push (Some 0) (backups ?q)")
    have "list_push 4 (Some 0) (ring_contents (backups ?q)) = (True, [Some 0])"
      unfolding lb(3) by (simp add: list_push_def)
    with ring.push_refines [OF lb(2), of "Some 0"] ring.push_inv [OF lb(2), of "Some 0"] sr
    have r': "s" "ring_contents r' = [Some 0]" "ring_inv 4 r'" by simp_all
    have "retire_front ?q = Inr (?q\<lparr>log_buffers := [Some 1], backups := r'\<rparr>)"
      using lb(1) sr r'(1) by (simp add: retire_front_def)
    then have "LogBufferQueue_pop q = Inr (Some (L ! (R * kSize + r)), ?q\<lparr>log_buffers := [Some 1], backups := r'\<rparr>)"
      using pop_attached [OF at(2) b(1)] b'(1) r True by (simp add: q1_def)
    moreover have "queue_holds L W j 1 0 (?q\<lparr>log_buffers := [Some 1], backups := r'\<rparr>)"
      using at(1) bufs assms(2) True RW r' kSize_pos unfolding queue_holds_def by (simp add: q1_def upt_rec)
    ultimately show ?thesis using True RW by auto
  qed
qed

subsection \<open>Runs\<close>

datatype lq_op = LPush LogLine | LPop

fun lq_run :: "lq_op list \<Rightarrow> LogBufferQueue \<Rightarrow> (LogLine option list \<times> LogBufferQueue) result option" where
  "lq_run [] q = Some (Inr ([], q))"
| "lq_run (LPush l # ops) q =
     (case LogBufferQueue_push l q of
        None \<Rightarrow> None | Some (Inl e) \<Rightarrow> Some (Inl e) | Some (Inr q1) \<Rightarrow> lq_run ops q1)"
| "lq_run (LPop # ops) q =
     (case LogBufferQueue_pop q of
        Inl e \<Rightarrow> Some (Inl e)
      | Inr (y, q1) \<Rightarrow>
          (case lq_run ops q1 of Some (Inr (ys, q2)) \<Rightarrow> Some (Inr (y # ys, q2)) | other \<Rightarrow> other))"

fun pushed :: "lq_op list \<Rightarrow> LogLine list" where
  "pushed [] = []" | "pushed (LPush l # ops) = l # pushed ops" | "pushed (LPop # ops) = pushed ops"

fun pop_count :: "lq_op list \<Rightarrow> nat" where
  "pop_count [] = 0" | "pop_count (LPush l # ops) = pop_count ops" | "pop_count (LPop # ops) = 1 + pop_count ops"

text \<open>The reference: what the pops of an unbounded queue return, and what stays in it.\<close>

fun fifo_outs :: "lq_op list \<Rightarrow> LogLine list \<Rightarrow> LogLine option list \<times> LogLine list" where
  "fifo_outs [] xs = ([], xs)"
| "fifo_outs (LPush l # ops) xs = fifo_outs ops (xs @ [l])"
| "fifo_outs (LPop # ops) [] = (case fifo_outs ops [] of (ys, zs) \<Rightarrow> (None # ys, zs))"
| "fifo_outs (LPop # ops) (x # xs) = (case fifo_outs ops xs of (ys, zs) \<Rightarrow> (Some x # ys, zs))"

lemma lq_run_append:
  "lq_run a q = Some (Inr (ys, q1)) \<Longrightarrow>
     lq_run (a @ b) q = (case lq_run b q1 of Some (Inr (zs, q2)) \<Rightarrow> Some (Inr (ys @ zs, q2)) | other \<Rightarrow> other)"
proof (induction a q arbitrary: ys rule: lq_run.induct)
  case (1 q)
  then show ?case by (auto split: option.splits sum.splits)
next
  case (2 l ops q)
  then show ?case by (simp split: option.splits sum.splits)
next
  case (3 ops q)
  then obtain y q1' ys' where y: "LogBufferQueue_pop q = Inr (y, q1')" "lq_run ops q1' = Some (Inr (ys', q1))" "ys = y # ys'"
    by (auto split: option.splits sum.splits)
  from "3.IH" [OF y(1) _ y(2)] y show ?case by (auto split: option.splits sum.splits)
qed

lemma queue_run:
  assumes "queue_holds L W j R r q"
    and "length L + length (pushed ops) < 2 * kSize \<or> R * kSize + r + pop_count ops < kSize"
  shows "\<exists>q' W' j' R' r'. lq_run ops q = Some (Inr (fst (fifo_outs ops (drop (R * kSize + r) L)), q')) \<and>
     queue_holds (L @ pushed ops) W' j' R' r' q' \<and>
     snd (fifo_outs ops (drop (R * kSize + r) L)) = drop (R' * kSize + r') (L @ pushed ops)"
  using assms
proof (induction ops arbitrary: L W j R r q)
  case Nil
  then show ?case by auto
next
  case (Cons a ops)
  have h: "j < kSize" "r < kSize" "length L = W * kSize + j" "R * kSize + r \<le> length L" "R = 0 \<or> R = 1 \<and> W = 1"
    using Cons.prems(1) by (simp_all add: queue_holds_def)
  show ?case
  proof (cases a)
    case (LPush l)
    have "j + 1 = kSize \<Longrightarrow> R = 0"
      using Cons.prems(2) LPush h by auto
    then obtain q1 where q1: "LogBufferQueue_push l q = Some (Inr q1)"
      "queue_holds (L @ [l]) (if j + 1 = kSize then W + 1 else W) (if j + 1 = kSize then 0 else j + 1) R r q1"
      using queue_push [OF Cons.prems(1)] by blast
    have "length (L @ [l]) + length (pushed ops) < 2 * kSize \<or> R * kSize + r + pop_count ops < kSize"
      using Cons.prems(2) LPush by auto
    from Cons.IH [OF q1(2) this] q1(1) LPush h(4) show ?thesis by simp
  next
    case LPop
    show ?thesis
    proof (cases "R * kSize + r = length L")
      case True
      obtain q1 where q1: "LogBufferQueue_pop q = Inr (None, q1)" "queue_holds L W j R r q1"
        using queue_pop_empty [OF Cons.prems(1) True] by blast
      have "length L + length (pushed ops) < 2 * kSize \<or> R * kSize + r + pop_count ops < kSize"
        using Cons.prems(2) LPop by auto
      from Cons.IH [OF q1(2) this] q1(1) LPop True show ?thesis by (auto split: prod.splits) blast
    next
      case False
      then have less: "R * kSize + r < length L" using h(4) by simp
      have "r + 1 = kSize \<Longrightarrow> R = 0 \<and> W = 1"
      proof -
        assume r: "r + 1 = kSize"
        then have "length L < 2 * kSize" using Cons.prems(2) LPop by auto
        moreover from less r have "R * kSize + kSize \<le> length L" by simp
        ultimately have "R = 0" "kSize \<le> length L" using h(5) by auto
        have "W \<noteq> 0" using h(1,3) \<open>kSize \<le> length L\<close> by (intro notI) simp
        moreover have "W < 2"
        proof (rule ccontr)
          assume "\<not> W < 2"
          then have "2 * kSize \<le> W * kSize" by (intro mult_le_mono1) simp
          with h(3) \<open>length L < 2 * kSize\<close> show False by simp
        qed
        ultimately show ?thesis using \<open>R = 0\<close> by simp
      qed
      then obtain q1 where q1: "LogBufferQueue_pop q = Inr (Some (L ! (R * kSize + r)), q1)"
        "queue_holds L W j (if r + 1 = kSize then R + 1 else R) (if r + 1 = kSize then 0 else r + 1) q1"
        using queue_pop [OF Cons.prems(1) less] by blast
      have m: "(if r + 1 = kSize then R + 1 else R) * kSize + (if r + 1 = kSize then 0 else r + 1) = R * kSize + r + 1"
        by (simp add: algebra_simps)
      have "length L + length (pushed ops) < 2 * kSize \<or>
          (if r + 1 = kSize then R + 1 else R) * kSize + (if r + 1 = kSize then 0 else r + 1) + pop_count ops < kSize"
        using Cons.prems(2) LPop unfolding m by auto
      from Cons.IH [OF q1(2) this] q1(1) LPop show ?thesis
        unfolding m Cons_nth_drop_Suc [OF less, symmetric] by (auto split: prod.splits) blast
    qed
  qed
qed

subsection \<open>Properties\<close>

text \<open>C26. The pool of buffers is a bounded queue. From an empty ring of any size, every sequence of pushes
  and pops answers as a list of at most that many elements does: pushes fail exactly when it is full,
  pops exactly when it is empty, and elements come out in the order they went in.\<close>

theorem ring_is_bounded_queue:
  "fst (bq_run RingQueue_push RingQueue_pop ops (RingQueue_new n)) = fst (bq_run (list_push n) list_pop ops [])"
  using ring.run_refines [OF RingQueue_new_ok(1), of n ops] unfolding RingQueue_new_ok(2) by (metis fst_conv)

text \<open>C6. The log queue is a queue as long as no buffer is used twice: while fewer than two buffers have
  been filled or the reader has not finished the first, every pop returns the oldest line not yet
  popped, or nothing when there is none; no call spins and nothing outside a buffer is touched.\<close>

theorem log_queue_fifo:
  assumes "length (pushed ops) < 2 * kSize \<or> pop_count ops < kSize"
  shows "\<exists>q. lq_run ops LogBufferQueue_new = Some (Inr (fst (fifo_outs ops []), q))"
  using queue_run [OF queue_new, of ops] assms by auto

theorem log_queue_fifo_witness:
  "\<exists>q. lq_run [LPush LogLine_empty, LPop, LPop] LogBufferQueue_new = Some (Inr ([Some LogLine_empty, None], q))"
  using log_queue_fifo [of "[LPush LogLine_empty, LPop, LPop]"] by (simp add: kSize_def)

text \<open>A run that pops every line right after it was pushed.\<close>

definition lockstep :: "LogLine list \<Rightarrow> lq_op list" where
  "lockstep L = concat (map (\<lambda>l. [LPush l, LPop]) L)"

lemma lockstep_facts:
  "pushed (lockstep L) = L" "fifo_outs (lockstep L) [] = (map Some L, [])"
  by (induction L) (simp_all add: lockstep_def)

text \<open>Both positions are at the last slot of the second buffer.\<close>

lemma lockstep_state:
  assumes "length L = 2 * kSize - 1"
  shows "\<exists>q. lq_run (lockstep L) LogBufferQueue_new = Some (Inr (map Some L, q)) \<and>
     queue_holds L 1 (kSize - 1) 1 (kSize - 1) q"
proof -
  have "length ([] :: LogLine list) + length (pushed (lockstep L)) < 2 * kSize"
    using assms kSize_pos by (simp add: lockstep_facts)
  then obtain q W j R r where q: "lq_run (lockstep L) LogBufferQueue_new = Some (Inr (map Some L, q))"
    "queue_holds L W j R r q" "drop (R * kSize + r) L = []"
    using queue_run [OF queue_new, of "lockstep L"] by (auto simp: lockstep_facts)
  from q(2,3) have h: "j < kSize" "r < kSize" "length L = W * kSize + j" "R * kSize + r = length L"
    by (simp_all add: queue_holds_def)
  have "length L = 1 * kSize + (kSize - 1)" using assms kSize_pos by simp
  then have "W = 1 \<and> j = kSize - 1" "R = 1 \<and> r = kSize - 1"
    using h block_index [of W j 1 "kSize - 1"] block_index [of R r 1 "kSize - 1"] by simp_all
  with q show ?thesis by blast
qed

lemma ring_pop_single:
  assumes "ring_inv 4 rg" and "ring_contents rg = [p]"
  shows "\<exists>rg'. RingQueue_pop rg = (Some p, rg') \<and> ring_inv 4 rg' \<and> ring_contents rg' = []"
proof -
  obtain y rg' where "RingQueue_pop rg = (y, rg')" by (cases "RingQueue_pop rg")
  with ring.pop_refines [OF assms(1)] ring.pop_inv [OF assms(1)] assms(2) show ?thesis
    by (auto simp: list_pop_def)
qed

text \<open>The buffer that is used again still has all its flags set.\<close>

lemma reused_buffer_state:
  assumes "queue_holds L 1 (kSize - 1) 1 (kSize - 1) q"
  shows "\<exists>q1 b0 b1. LogBufferQueue_push x q = Some (Inr q1) \<and> log_buffers q1 = [Some 1, Some 0] \<and>
     buffer_heap q1 0 = Some b0 \<and> block L 1 (kSize - 1) (length L) 0 b0 \<and>
     buffer_heap q1 1 = Some b1 \<and> block (L @ [x]) 2 0 (length L) 1 b1 \<and>
     lq_read_index q1 = kSize - 1 \<and> (current_read q1 = None \<or> current_read q1 = Some 1) \<and>
     ring_inv 4 (backups q1) \<and> ring_contents (backups q1) = []"
proof -
  have K: "kSize - 1 < kSize" "kSize - 1 + 1 = kSize" using kSize_pos by simp_all
  have h: "length L = 1 * kSize + (kSize - 1)" "current_write q = Some 1" "lq_write_index q = kSize - 1"
    "log_buffers q = [Some 1]" "ring_inv 4 (backups q)" "ring_contents (backups q) = [Some 0]"
    using assms by (simp_all add: queue_holds_def upt_rec)
  obtain b0 where b0: "buffer_heap q 0 = Some b0" "block L 1 (kSize - 1) (length L) 0 b0"
    using assms h(1) unfolding queue_holds_def by (metis zero_le)
  obtain b where b: "buffer_heap q 1 = Some b" "block L 1 (kSize - 1) (length L) 1 b"
    using assms h(1) unfolding queue_holds_def by (metis order_refl)
  obtain b1 where b1: "LogBuffer_push x (kSize - 1) b = Inr (True, b1)" "block (L @ [x]) 2 0 (length L) 1 b1"
    using block_push [OF b(2) K(1) h(1) order_refl, of x] K(2) by (auto simp: numeral_2_eq_2)
  obtain rg where rg: "RingQueue_pop (backups q) = (Some (Some 0), rg)" "ring_inv 4 rg" "ring_contents rg = []"
    using ring_pop_single [OF h(5,6)] by blast
  let ?q = "q\<lparr>lq_write_index := 0, buffer_heap := (buffer_heap q)(1 \<mapsto> b1), backups := rg, current_write := Some 0,
      log_buffers := [Some 1, Some 0]\<rparr>"
  have "LogBufferQueue_push x q = Some (Inr ?q)"
    using h(2-4) K b(1) b1(1) rg(1) by (simp add: LogBufferQueue_push_def setupNextWriteLogBuffer_def)
  moreover have "lq_read_index ?q = kSize - 1" "current_read ?q = None \<or> current_read ?q = Some 1"
    using assms by (simp_all add: queue_holds_def)
  ultimately show ?thesis using b0 b1(2) rg(2,3) by (intro exI [of _ ?q] exI [of _ b0] exI [of _ b1]) simp
qed

lemma pop_reused:
  assumes "log_buffers q = [Some 1, Some 0]" and "buffer_heap q 0 = Some b0" and "block L 1 j (length L) 0 b0"
    and "buffer_heap q 1 = Some b1" and "block (L @ [x]) 2 0 (length L) 1 b1" and "length L = 2 * kSize - 1"
    and "lq_read_index q = kSize - 1" and "current_read q = None \<or> current_read q = Some 1"
    and "ring_inv 4 (backups q)" and "ring_contents (backups q) = []"
  shows "\<exists>q1 q2. LogBufferQueue_pop q = Inr (Some x, q1) \<and>
     LogBufferQueue_pop q1 = Inr (Some (snd (LogLine_move (L ! 0))), q2)"
proof -
  have K: "kSize - 1 < kSize" "kSize - 1 + 1 = kSize" "1 * kSize + (kSize - 1) = length L" "0 < length L"
    using kSize_pos assms(6) by simp_all
  have cr: "current_read (attached q) = Some 1"
    using assms(1,8) by (auto simp: attached_def getNextReadLogBuffer_def)
  have frame: "buffer_heap (attached q) = buffer_heap q" "lq_read_index (attached q) = lq_read_index q"
    "log_buffers (attached q) = log_buffers q" "backups (attached q) = backups q"
    by (simp_all add: attached_def)
  obtain b1' where b1': "LogBuffer_pop (kSize - 1) b1 = Inr (Some x, b1')"
    using block_pop [of "L @ [x]" 2 0 1 "kSize - 1" b1, unfolded K(3)] assms(5) K(1) by auto
  let ?q = "(attached q)\<lparr>buffer_heap := (buffer_heap q)(1 \<mapsto> b1'), lq_read_index := 0, current_read := None\<rparr>"
  obtain s rg where sr: "RingQueue_push (Some 1) (backups q) = (s, rg)" by (cases "RingQueue_push (Some 1) (backups q)")
  have "list_push 4 (Some 1) (ring_contents (backups q)) = (True, [Some 1])"
    unfolding assms(10) by (simp add: list_push_def)
  with ring.push_refines [OF assms(9), of "Some 1"] sr have s: "s" by simp
  let ?q1 = "?q\<lparr>log_buffers := [Some 0], backups := rg\<rparr>"
  have "retire_front ?q = Inr ?q1"
    using assms(1) sr s by (simp add: retire_front_def frame)
  then have first: "LogBufferQueue_pop q = Inr (Some x, ?q1)"
    using pop_attached [OF cr, of b1] assms(4,7) b1' K(2) by (simp add: frame)
  have at: "current_read (attached ?q1) = Some 0" "lq_read_index (attached ?q1) = 0"
    "buffer_heap (attached ?q1) 0 = Some b0"
    using assms(2) by (simp_all add: attached_None getNextReadLogBuffer_def)
  let ?l = "snd (LogLine_move (L ! 0))"
  have "write_states b0 ! 0 = 1" "buf_items b0 ! 0 = Some ?l" "0 < length (buf_items b0)" "0 < length (write_states b0)"
    using assms(3) K(4) kSize_pos by (auto simp: block_def)
  then have "LogBuffer_pop 0 b0 = Inr (Some ?l, b0\<lparr>buf_items := (buf_items b0)[0 := Some (snd (LogLine_move ?l))]\<rparr>)"
    by (simp add: LogBuffer_pop_def LogLine_move_def)
  with pop_attached [OF at(1,3)] at(2) have "\<exists>q2. LogBufferQueue_pop ?q1 = Inr (Some ?l, q2)"
    by (simp add: kSize_def)
  with first show ?thesis by blast
qed

text \<open>C34. A buffer that is used again returns old lines. After two buffers' worth of lines, each popped
  before the next is pushed, the queue is empty; but the third buffer is the first one, whose flags are
  still set, so a further pop succeeds and returns what is left of the first line.\<close>

theorem reused_buffer_stale:
  assumes "length L = 2 * kSize"
  shows "snd (fifo_outs (lockstep L) []) = [] \<and>
    (\<exists>q. lq_run (lockstep L @ [LPop]) LogBufferQueue_new =
       Some (Inr (map Some L @ [Some (snd (LogLine_move (L ! 0)))], q)))"
proof -
  obtain L0 x where L: "L = L0 @ [x]" "length L0 = 2 * kSize - 1"
    using assms kSize_pos by (cases L rule: rev_cases) auto
  obtain q where q: "lq_run (lockstep L0) LogBufferQueue_new = Some (Inr (map Some L0, q))"
    "queue_holds L0 1 (kSize - 1) 1 (kSize - 1) q"
    using lockstep_state [OF L(2)] by blast
  obtain q1 b0 b1 where q1: "LogBufferQueue_push x q = Some (Inr q1)" "log_buffers q1 = [Some 1, Some 0]"
    "buffer_heap q1 0 = Some b0" "block L0 1 (kSize - 1) (length L0) 0 b0"
    "buffer_heap q1 1 = Some b1" "block (L0 @ [x]) 2 0 (length L0) 1 b1"
    "lq_read_index q1 = kSize - 1" "current_read q1 = None \<or> current_read q1 = Some 1"
    "ring_inv 4 (backups q1)" "ring_contents (backups q1) = []"
    using reused_buffer_state [OF q(2)] by blast
  obtain q2 q3 where q2: "LogBufferQueue_pop q1 = Inr (Some x, q2)"
    "LogBufferQueue_pop q2 = Inr (Some (snd (LogLine_move (L0 ! 0))), q3)"
    using pop_reused [OF q1(2-6) L(2) q1(7-10)] by blast
  have "lq_run [LPush x, LPop, LPop] q = Some (Inr ([Some x, Some (snd (LogLine_move (L0 ! 0)))], q3))"
    using q1(1) q2 by simp
  from lq_run_append [OF q(1), of "[LPush x, LPop, LPop]"] this
  have "lq_run (lockstep L @ [LPop]) LogBufferQueue_new =
      Some (Inr (map Some L0 @ [Some x, Some (snd (LogLine_move (L0 ! 0)))], q3))"
    by (simp add: L(1) lockstep_def)
  moreover have "L ! 0 = L0 ! 0" using L kSize_pos by (simp add: nth_append)
  ultimately show ?thesis using L(1) by (auto simp: lockstep_facts)
qed

theorem reused_buffer_stale_witness:
  "\<exists>q. lq_run (lockstep (replicate (2 * kSize) LogLine_empty) @ [LPop]) LogBufferQueue_new =
     Some (Inr (replicate (2 * kSize) (Some LogLine_empty) @ [Some LogLine_empty], q))"
proof -
  let ?L = "replicate (2 * kSize) LogLine_empty"
  have "?L ! 0 = LogLine_empty" by (simp add: kSize_def)
  moreover have "snd (LogLine_move LogLine_empty) = LogLine_empty" by (simp add: LogLine_move_def LogLine_empty_def)
  ultimately show ?thesis using reused_buffer_stale [of ?L] by (simp add: map_replicate)
qed

end
