(* ===== verification/Logger.thy ===== *)
theory Logger
  imports LogBufferQueue
begin

text \<open>
  The loggers: util/Log.cpp, util/StdLogger.cpp, util/AsyncLogger.cpp and util/LogFile.cpp with their
  headers.

  \<^item> The files of the host are a map from names to contents; opening with \<open>trunc\<close> empties a file. The
    buffering of \<open>ofstream\<close> is not visible: what is written is in the file. Whether a file can be opened,
    the host's name and \<open>strftime\<close> are functions of \<open>file_env\<close>.
  \<^item> Readings of \<open>time(nullptr)\<close> are arguments; the asynchronous logger takes its \<open>n\<close>-th reading from
    \<open>clock\<close>.
  \<^item> The final loop of \<open>popThread\<close> need not end, so it is a \<open>partial_function\<close>.
\<close>

subsection \<open>Levels and the global logger\<close>

text \<open>The enumerators compare by their numbers.\<close>

definition isLowerThanOrEqualToCurr :: "LogLevel \<Rightarrow> LogLevel \<Rightarrow> bool" where
  "isLowerThanOrEqualToCurr current level \<longleftrightarrow> level_code level \<le> level_code current"

definition default_log_level :: LogLevel where "default_log_level = kINFO"

datatype 'a any_logger = NoLogger | TheLogger 'a

text \<open>\<open>FmLog::operator==\<close> hands the line to the logger, if there is one; the macros test the level first.\<close>

definition FmLog_add :: "(LogLine \<Rightarrow> 'a \<Rightarrow> 'a result) \<Rightarrow> LogLine \<Rightarrow> 'a any_logger \<Rightarrow> (bool \<times> 'a any_logger) result" where
  "FmLog_add add line lg =
     (case lg of
        NoLogger \<Rightarrow> Inr (False, NoLogger)
      | TheLogger a \<Rightarrow> result_bind (add line a) (\<lambda>a'. Inr (True, TheLogger a')))"

definition LOG ::
  "(LogLine \<Rightarrow> 'a \<Rightarrow> 'a result) \<Rightarrow> LogLevel \<Rightarrow> LogLevel \<Rightarrow> LogLine result \<Rightarrow> 'a any_logger \<Rightarrow> (bool \<times> 'a any_logger) result" where
  "LOG add current level line lg =
     (if isLowerThanOrEqualToCurr current level then result_bind line (\<lambda>l. FmLog_add add l lg) else Inr (False, lg))"

text \<open>The logger that prints on the standard output: its state is the text printed so far.\<close>

definition StdLogger_add :: "log_env \<Rightarrow> LogLine \<Rightarrow> string \<Rightarrow> string result" where
  "StdLogger_add env line out =
     result_bind (stringify env 0 line) (\<lambda>(s, errno, aborts).
       check FatalLog (\<not> aborts) (Inr (out @ s)))"

subsection \<open>LogFile\<close>

record file_env =
  fe_strftime :: "string \<Rightarrow> int \<Rightarrow> string"
  fe_hostname :: string
  fe_opens :: "string \<Rightarrow> bool"

record LogFile =
  log_file_name :: string
  log_file_max_size :: nat
  check_lines :: nat
  flush_interval :: int
  writen_bytes :: int
  line_counts :: nat
  log_stream :: "string option"   \<comment> \<open>the file the stream is open on\<close>
  start_log_time :: int
  last_flush_time :: int
  files :: "string \<rightharpoonup> string"
  file_names :: "string list"     \<comment> \<open>every name opened, in order\<close>

definition kRollPerSeconds :: int where "kRollPerSeconds = 60 * 60 * 24"

definition thisHostName :: "file_env \<Rightarrow> string" where "thisHostName fe = take 31 (fe_hostname fe)"

definition timeToString :: "file_env \<Rightarrow> int \<Rightarrow> string" where
  "timeToString fe now = take 31 (fe_strftime fe ''.%Y%m%d-%H%M%S.'' now)"

definition getLogFileName :: "file_env \<Rightarrow> int \<Rightarrow> LogFile \<Rightarrow> string" where
  "getLogFileName fe now f = log_file_name f @ timeToString fe now @ thisHostName fe @ ''.log''"

definition rollFile :: "file_env \<Rightarrow> int \<Rightarrow> LogFile \<Rightarrow> LogFile" where
  "rollFile fe now f =
     (let name = getLogFileName fe now f;
          f1 = f\<lparr>start_log_time := now sdiv kRollPerSeconds * kRollPerSeconds, last_flush_time := now,
                 writen_bytes := 0, line_counts := 0\<rparr>
      in if fe_opens fe name
         then f1\<lparr>log_stream := Some name, files := (files f)(name \<mapsto> []), file_names := file_names f @ [name]\<rparr>
         else f1\<lparr>log_stream := None\<rparr>)"

definition LogFile_new :: "file_env \<Rightarrow> string \<Rightarrow> string \<Rightarrow> nat \<Rightarrow> nat \<Rightarrow> int \<Rightarrow> int \<Rightarrow> LogFile" where
  "LogFile_new fe directory name max_size every flush now =
     rollFile fe now
       \<lparr>log_file_name = directory @ name, log_file_max_size = max_size, check_lines = every, flush_interval = flush,
        writen_bytes = 0, line_counts = 0, log_stream = None, start_log_time = 0, last_flush_time = 0,
        files = Map.empty, file_names = []\<rparr>"

text \<open>\<open>log_line.stringify(*log_file_)\<close> and the bytes it adds: nothing on a stream that is not open.\<close>

definition stream_put :: "string \<Rightarrow> LogFile \<Rightarrow> LogFile" where
  "stream_put s f =
     (case log_stream f of
        None \<Rightarrow> f
      | Some name \<Rightarrow> f\<lparr>files := (files f)(name \<mapsto> the (files f name) @ s), writen_bytes := writen_bytes f + int (length s)\<rparr>)"

text \<open>What \<open>write\<close> does after the line is out; \<open>now1\<close> is its own reading of the clock, \<open>now2\<close> that of \<open>rollFile\<close>.\<close>

definition after_write :: "file_env \<Rightarrow> int \<Rightarrow> int \<Rightarrow> LogFile \<Rightarrow> LogFile" where
  "after_write fe now1 now2 f =
     (if writen_bytes f \<ge> int (log_file_max_size f) then rollFile fe now2 f
      else let n = (line_counts f + 1) mod 2 ^ 32
           in if n \<ge> check_lines f
              then if now1 sdiv kRollPerSeconds * kRollPerSeconds \<noteq> start_log_time f
                   then rollFile fe now2 (f\<lparr>line_counts := 0\<rparr>)
                   else if now1 - last_flush_time f > flush_interval f
                   then f\<lparr>line_counts := 0, last_flush_time := now1\<rparr>
                   else f\<lparr>line_counts := 0\<rparr>
              else f\<lparr>line_counts := n\<rparr>)"

definition LogFile_write :: "log_env \<Rightarrow> file_env \<Rightarrow> int \<Rightarrow> int \<Rightarrow> LogLine \<Rightarrow> LogFile \<Rightarrow> LogFile result" where
  "LogFile_write env fe now1 now2 line f =
     result_bind (stringify env 0 line) (\<lambda>(s, errno, aborts).
       check FatalLog (\<not> aborts) (Inr (after_write fe now1 now2 (stream_put s f))))"

subsection \<open>AsyncLogger\<close>

datatype STATE = kINIT | kREADY | kSHUTDOWN

record AsyncLogger =
  async_state :: STATE
  buffer_queue :: LogBufferQueue
  log_file :: LogFile
  clock_reads :: nat

definition AsyncLogger_new :: "file_env \<Rightarrow> (nat \<Rightarrow> int) \<Rightarrow> string \<Rightarrow> string \<Rightarrow> nat \<Rightarrow> AsyncLogger" where
  "AsyncLogger_new fe clock directory name max_size =
     \<lparr>async_state = kREADY, buffer_queue = LogBufferQueue_new,
      log_file = LogFile_new fe directory name max_size 1000 3 (clock 0), clock_reads = 1\<rparr>"

definition AsyncLogger_add :: "LogLine \<Rightarrow> AsyncLogger \<Rightarrow> AsyncLogger result option" where
  "AsyncLogger_add line a =
     map_option (\<lambda>r. result_bind r (\<lambda>q. Inr (a\<lparr>buffer_queue := q\<rparr>))) (LogBufferQueue_push line (buffer_queue a))"

text \<open>A turn of either loop of \<open>popThread\<close>: whether a line was popped, and the state after writing it.\<close>

definition pop_turn :: "log_env \<Rightarrow> file_env \<Rightarrow> (nat \<Rightarrow> int) \<Rightarrow> AsyncLogger \<Rightarrow> (bool \<times> AsyncLogger) result" where
  "pop_turn env fe clock a =
     result_bind (LogBufferQueue_pop (buffer_queue a)) (\<lambda>(line, q).
       case line of
         None \<Rightarrow> Inr (False, a\<lparr>buffer_queue := q\<rparr>)
       | Some l \<Rightarrow>
           result_bind (LogFile_write env fe (clock (clock_reads a)) (clock (clock_reads a + 1)) l (log_file a)) (\<lambda>f.
             Inr (True, a\<lparr>buffer_queue := q, log_file := f, clock_reads := clock_reads a + 2\<rparr>)))"

partial_function (option) drain ::
  "log_env \<Rightarrow> file_env \<Rightarrow> (nat \<Rightarrow> int) \<Rightarrow> AsyncLogger \<Rightarrow> AsyncLogger result option" where
  "drain env fe clock a =
     (case pop_turn env fe clock a of
        Inl e \<Rightarrow> Some (Inl e)
      | Inr (got, a') \<Rightarrow> if got then drain env fe clock a' else Some (Inr a'))"

text \<open>The destructor: the state, then the join, which returns when the last loop has ended.\<close>

definition AsyncLogger_destroy :: "log_env \<Rightarrow> file_env \<Rightarrow> (nat \<Rightarrow> int) \<Rightarrow> AsyncLogger \<Rightarrow> AsyncLogger result option" where
  "AsyncLogger_destroy env fe clock a = drain env fe clock (a\<lparr>async_state := kSHUTDOWN\<rparr>)"

subsection \<open>What the files hold\<close>

text \<open>\<open>T\<close> was written, in lines of at most \<open>B\<close> bytes.\<close>

definition file_text :: "LogFile \<Rightarrow> string \<Rightarrow> string" where
  "file_text f name = the (files f name)"

definition all_text :: "LogFile \<Rightarrow> string" where
  "all_text f = concat (map (file_text f) (file_names f))"

definition file_holds :: "nat \<Rightarrow> string \<Rightarrow> LogFile \<Rightarrow> bool" where
  "file_holds B T f \<longleftrightarrow>
     (\<exists>old name. file_names f = old @ [name] \<and> log_stream f = Some name \<and>
        (distinct (file_names f) \<longrightarrow>
           all_text f = T \<and> writen_bytes f = int (length (file_text f name)) \<and>
           length (file_text f name) < log_file_max_size f \<and>
           (\<forall>n \<in> set old. length (file_text f n) < log_file_max_size f + B)))"

lemma file_text_cong: "files f' = files f \<Longrightarrow> file_text f' = file_text f"
  by (simp add: fun_eq_iff file_text_def)

lemma file_holds_cong:
  assumes "file_holds B T f" and "files f' = files f" and "file_names f' = file_names f" and "log_stream f' = log_stream f"
    and "writen_bytes f' = writen_bytes f" and "log_file_max_size f' = log_file_max_size f"
  shows "file_holds B T f'"
  using assms by (simp add: file_holds_def all_text_def file_text_cong [OF assms(2)])

text \<open>The state between the output of a line and the checks after it: the current file may be over the limit.\<close>

definition file_over :: "nat \<Rightarrow> string \<Rightarrow> LogFile \<Rightarrow> bool" where
  "file_over B T f \<longleftrightarrow>
     (\<exists>old name. file_names f = old @ [name] \<and> log_stream f = Some name \<and>
        (distinct (file_names f) \<longrightarrow>
           all_text f = T \<and> writen_bytes f = int (length (file_text f name)) \<and>
           (\<forall>n \<in> set (file_names f). length (file_text f n) < log_file_max_size f + B)))"

lemma stream_put_over:
  assumes "file_holds B T f" and "length s \<le> B"
  shows "file_over B (T @ s) (stream_put s f)"
proof -
  obtain old name where f: "file_names f = old @ [name]" "log_stream f = Some name"
    and d: "distinct (file_names f) \<Longrightarrow> all_text f = T \<and> writen_bytes f = int (length (file_text f name)) \<and>
      length (file_text f name) < log_file_max_size f \<and> (\<forall>n \<in> set old. length (file_text f n) < log_file_max_size f + B)"
    using assms(1) by (auto simp: file_holds_def)
  let ?f = "stream_put s f"
  have frame: "file_names ?f = old @ [name]" "log_stream ?f = Some name" "log_file_max_size ?f = log_file_max_size f"
    "writen_bytes ?f = writen_bytes f + int (length s)"
    using f by (simp_all add: stream_put_def)
  have ftext: "file_text ?f n = (if n = name then file_text f name @ s else file_text f n)" for n
    using f(2) by (simp add: stream_put_def file_text_def)
  have "all_text ?f = T @ s \<and> writen_bytes ?f = int (length (file_text ?f name)) \<and>
      (\<forall>n \<in> set (file_names ?f). length (file_text ?f n) < log_file_max_size ?f + B)"
    if "distinct (file_names ?f)"
  proof -
    from that frame have dis: "name \<notin> set old" "distinct (file_names f)" by (simp_all add: f)
    then have same: "map (file_text ?f) old = map (file_text f) old" by (auto simp: ftext)
    have "all_text ?f = concat (map (file_text ?f) old) @ file_text ?f name" by (simp add: all_text_def frame(1))
    then have "all_text ?f = all_text f @ s" unfolding same by (simp add: all_text_def f ftext)
    with d [OF dis(2)] dis(1) assms(2) show ?thesis by (auto simp: frame ftext)
  qed
  with frame show ?thesis by (auto simp: file_over_def)
qed

lemma rollFile_holds:
  assumes "file_over B T f" and "\<And>n. fe_opens fe n" and "0 < log_file_max_size f"
  shows "file_holds B T (rollFile fe now f)" and "log_file_max_size (rollFile fe now f) = log_file_max_size f"
proof -
  let ?f = "rollFile fe now f"
  obtain old name where f: "file_names f = old @ [name]"
    and d: "distinct (file_names f) \<Longrightarrow> all_text f = T \<and> (\<forall>n \<in> set (file_names f). length (file_text f n) < log_file_max_size f + B)"
    using assms(1) by (auto simp: file_over_def)
  define new where "new = getLogFileName fe now f"
  have frame: "file_names ?f = file_names f @ [new]" "log_stream ?f = Some new" "writen_bytes ?f = 0"
    "log_file_max_size ?f = log_file_max_size f" "file_text ?f n = (if n = new then [] else file_text f n)" for n
    using assms(2) by (simp_all add: rollFile_def Let_def new_def file_text_def)
  have "all_text ?f = T \<and> (\<forall>n \<in> set (file_names f). length (file_text ?f n) < log_file_max_size f + B)"
    if "distinct (file_names ?f)"
  proof -
    from that frame have dis: "new \<notin> set (file_names f)" "distinct (file_names f)" by simp_all
    then have same: "map (file_text ?f) (file_names f) = map (file_text f) (file_names f)" by (auto simp: frame)
    have "all_text ?f = concat (map (file_text ?f) (file_names f)) @ file_text ?f new" by (simp add: all_text_def frame(1))
    then have "all_text ?f = all_text f" unfolding same by (simp add: all_text_def frame(5))
    with d [OF dis(2)] assms(3) show ?thesis by (auto simp: frame)
  qed
  with frame assms(3) show "file_holds B T ?f" "log_file_max_size ?f = log_file_max_size f"
    by (auto simp: file_holds_def)
qed

lemma after_write_holds:
  assumes "file_over B T f" and "\<And>n. fe_opens fe n" and "0 < log_file_max_size f"
  shows "file_holds B T (after_write fe now1 now2 f)"
    and "log_file_max_size (after_write fe now1 now2 f) = log_file_max_size f"
proof -
  let ?f0 = "f\<lparr>line_counts := 0\<rparr>"
  have "file_text ?f0 = file_text f" by (rule file_text_cong) simp
  then have over: "file_over B T ?f0" using assms(1) by (auto simp: file_over_def all_text_def)
  note roll = rollFile_holds [OF assms] and roll0 = rollFile_holds [OF over assms(2)]
  have keep: "file_holds B T f" if "\<not> writen_bytes f \<ge> int (log_file_max_size f)"
    using assms(1) that by (auto simp: file_over_def file_holds_def)
  show "file_holds B T (after_write fe now1 now2 f)"
    using roll roll0 assms(3) by (auto simp: after_write_def Let_def intro: file_holds_cong [OF keep])
  show "log_file_max_size (after_write fe now1 now2 f) = log_file_max_size f"
    using roll roll0 assms(3) by (auto simp: after_write_def Let_def)
qed

lemma LogFile_write_holds:
  assumes "file_holds B T f" and "stringify env 0 l = Inr (s, e, False)" and "length s \<le> B"
    and "\<And>n. fe_opens fe n" and "0 < log_file_max_size f"
  shows "\<exists>f'. LogFile_write env fe now1 now2 l f = Inr f' \<and> file_holds B (T @ s) f' \<and>
     log_file_max_size f' = log_file_max_size f"
proof -
  have "log_file_max_size (stream_put s f) = log_file_max_size f" by (simp add: stream_put_def split: option.splits)
  with after_write_holds [OF stream_put_over [OF assms(1,3)] assms(4)] assms(2,5) show ?thesis
    by (simp add: LogFile_write_def)
qed

lemma LogFile_new_holds:
  assumes "\<And>n. fe_opens fe n" and "0 < max_size"
  shows "file_holds B [] (LogFile_new fe d name max_size c i now)"
    and "log_file_max_size (LogFile_new fe d name max_size c i now) = max_size"
  using assms by (simp_all add: LogFile_new_def rollFile_def Let_def file_holds_def all_text_def file_text_def)

subsection \<open>The asynchronous logger\<close>

text \<open>Of the lines \<open>L\<close> added, the first \<open>m\<close> have been taken out of the queue.\<close>

definition queue_at :: "LogLine list \<Rightarrow> nat \<Rightarrow> LogBufferQueue \<Rightarrow> bool" where
  "queue_at L m q \<longleftrightarrow> (\<exists>W j R r. queue_holds L W j R r q \<and> R * kSize + r = m)"

lemma queue_at_le: "queue_at L m q \<Longrightarrow> m \<le> length L"
  by (auto simp: queue_at_def queue_holds_def)

lemma queue_at_new: "queue_at [] 0 LogBufferQueue_new"
  using queue_new unfolding queue_at_def by (metis add_0 mult_0)

lemma queue_at_push:
  assumes "queue_at L m q" and "length L + 1 < 2 * kSize"
  shows "\<exists>q'. LogBufferQueue_push l q = Some (Inr q') \<and> queue_at (L @ [l]) m q'"
proof -
  obtain W j R r where q: "queue_holds L W j R r q" "R * kSize + r = m" using assms(1) by (auto simp: queue_at_def)
  obtain q' W' j' R' r' where q': "lq_run [LPush l] q = Some (Inr ([], q'))" "queue_holds (L @ [l]) W' j' R' r' q'"
    "drop m L @ [l] = drop (R' * kSize + r') (L @ [l])"
    using queue_run [OF q(1), of "[LPush l]"] assms(2) q(2) by auto
  from q'(3) have "length (drop m L @ [l]) = length (drop (R' * kSize + r') (L @ [l]))" by (rule arg_cong)
  with queue_at_le [OF assms(1)] q'(2) have "R' * kSize + r' = m" by (simp add: queue_holds_def)
  with q' show ?thesis by (auto simp: queue_at_def split: option.splits sum.splits)
qed

lemma queue_at_pop:
  assumes "queue_at L m q" and "length L < 2 * kSize"
  shows "\<exists>q'. LogBufferQueue_pop q = Inr (if m < length L then Some (L ! m) else None, q') \<and>
     queue_at L (if m < length L then m + 1 else m) q'"
proof -
  obtain W j R r where q: "queue_holds L W j R r q" "R * kSize + r = m" using assms(1) by (auto simp: queue_at_def)
  have out: "fifo_outs [LPop] (drop m L) = ([if m < length L then Some (L ! m) else None], drop (m + 1) L)"
    by (cases "m < length L") (simp_all flip: Cons_nth_drop_Suc)
  then obtain q' W' j' R' r' where q': "lq_run [LPop] q = Some (Inr ([if m < length L then Some (L ! m) else None], q'))"
    "queue_holds L W' j' R' r' q'" "drop (m + 1) L = drop (R' * kSize + r') L"
    using queue_run [OF q(1), of "[LPop]"] assms(2) q(2) by auto
  from q'(3) have "length (drop (m + 1) L) = length (drop (R' * kSize + r') L)" by (rule arg_cong)
  with queue_at_le [OF assms(1)] q'(2) have "R' * kSize + r' = (if m < length L then m + 1 else m)"
    by (auto simp: queue_holds_def)
  with q' show ?thesis by (auto simp: queue_at_def split: sum.splits) blast+
qed

definition writable :: "log_env \<Rightarrow> nat \<Rightarrow> (LogLine \<Rightarrow> string) \<Rightarrow> LogLine \<Rightarrow> bool" where
  "writable env B put l \<longleftrightarrow> length (put l) \<le> B \<and> (\<exists>e. stringify env 0 l = Inr (put l, e, False))"

definition async_holds :: "nat \<Rightarrow> (LogLine \<Rightarrow> string) \<Rightarrow> LogLine list \<Rightarrow> nat \<Rightarrow> AsyncLogger \<Rightarrow> bool" where
  "async_holds B put L m a \<longleftrightarrow> queue_at L m (buffer_queue a) \<and>
     file_holds B (concat (map put (take m L))) (log_file a) \<and> 0 < log_file_max_size (log_file a)"

lemma pop_turn_holds:
  assumes "async_holds B put L m a" and "length L < 2 * kSize" and "\<forall>l\<in>set L. writable env B put l"
    and "\<And>n. fe_opens fe n"
  shows "\<exists>a'. pop_turn env fe clock a = Inr (m < length L, a') \<and>
     async_holds B put L (if m < length L then m + 1 else m) a' \<and>
     log_file_max_size (log_file a') = log_file_max_size (log_file a)"
proof -
  obtain q' where q': "LogBufferQueue_pop (buffer_queue a) = Inr (if m < length L then Some (L ! m) else None, q')"
    "queue_at L (if m < length L then m + 1 else m) q'"
    using queue_at_pop [of L m "buffer_queue a"] assms(1,2) by (auto simp: async_holds_def)
  show ?thesis
  proof (cases "m < length L")
    case False
    with q' assms(1) show ?thesis by (simp add: pop_turn_def async_holds_def)
  next
    case True
    then obtain e where e: "stringify env 0 (L ! m) = Inr (put (L ! m), e, False)" "length (put (L ! m)) \<le> B"
      using assms(3) nth_mem [OF True] unfolding writable_def by blast
    let ?n = "clock_reads a"
    obtain f where f: "LogFile_write env fe (clock ?n) (clock (?n + 1)) (L ! m) (log_file a) = Inr f"
      "file_holds B (concat (map put (take m L)) @ put (L ! m)) f" "log_file_max_size f = log_file_max_size (log_file a)"
      using LogFile_write_holds [OF _ e assms(4)] assms(1) unfolding async_holds_def by blast
    with q' True assms(1) show ?thesis by (simp add: pop_turn_def async_holds_def take_Suc_conv_app_nth)
  qed
qed

lemma drain_holds:
  assumes "async_holds B put L m a" and "length L < 2 * kSize" and "\<forall>l\<in>set L. writable env B put l"
    and "\<And>n. fe_opens fe n"
  shows "\<exists>a'. drain env fe clock a = Some (Inr a') \<and> async_holds B put L (length L) a' \<and>
     log_file_max_size (log_file a') = log_file_max_size (log_file a)"
  using assms(1)
proof (induction "length L - m" arbitrary: m a)
  case 0
  then have m: "m = length L" using queue_at_le [of L m] by (auto simp: async_holds_def)
  with pop_turn_holds [OF "0.prems" assms(2-4), of clock] show ?case by (auto simp: drain.simps)
next
  case (Suc d)
  then have m: "m < length L" "d = length L - (m + 1)" by simp_all
  obtain a1 where a1: "pop_turn env fe clock a = Inr (True, a1)" "async_holds B put L (m + 1) a1"
    "log_file_max_size (log_file a1) = log_file_max_size (log_file a)"
    using pop_turn_holds [OF Suc.prems assms(2-4), of clock] m(1) by auto
  from Suc.hyps(1) [OF m(2) a1(2)] a1 show ?case by (simp add: drain.simps)
qed

datatype async_op = AAdd LogLine | ATurn

fun async_run :: "log_env \<Rightarrow> file_env \<Rightarrow> (nat \<Rightarrow> int) \<Rightarrow> async_op list \<Rightarrow> AsyncLogger \<Rightarrow> AsyncLogger result option" where
  "async_run env fe clock [] a = Some (Inr a)"
| "async_run env fe clock (AAdd l # ops) a =
     (case AsyncLogger_add l a of
        None \<Rightarrow> None | Some (Inl e) \<Rightarrow> Some (Inl e) | Some (Inr a') \<Rightarrow> async_run env fe clock ops a')"
| "async_run env fe clock (ATurn # ops) a =
     (case pop_turn env fe clock a of Inl e \<Rightarrow> Some (Inl e) | Inr (got, a') \<Rightarrow> async_run env fe clock ops a')"

fun added :: "async_op list \<Rightarrow> LogLine list" where
  "added [] = []" | "added (AAdd l # ops) = l # added ops" | "added (ATurn # ops) = added ops"

lemma async_run_holds:
  assumes "async_holds B put L m a" and "length L + length (added ops) < 2 * kSize"
    and "\<forall>l\<in>set (L @ added ops). writable env B put l" and "\<And>n. fe_opens fe n"
  shows "\<exists>m' a'. async_run env fe clock ops a = Some (Inr a') \<and> async_holds B put (L @ added ops) m' a' \<and>
     log_file_max_size (log_file a') = log_file_max_size (log_file a)"
  using assms(1-3)
proof (induction ops arbitrary: L m a)
  case Nil
  then show ?case by auto
next
  case (Cons x ops)
  show ?case
  proof (cases x)
    case (AAdd l)
    obtain q where q: "LogBufferQueue_push l (buffer_queue a) = Some (Inr q)" "queue_at (L @ [l]) m q"
      using queue_at_push [of L m "buffer_queue a" l] Cons.prems AAdd by (auto simp: async_holds_def)
    have "m \<le> length L" using Cons.prems(1) queue_at_le by (auto simp: async_holds_def)
    with q Cons.prems(1) have "async_holds B put (L @ [l]) m (a\<lparr>buffer_queue := q\<rparr>)" by (simp add: async_holds_def)
    from Cons.IH [OF this] Cons.prems AAdd q(1) show ?thesis by (auto simp: AsyncLogger_add_def)
  next
    case ATurn
    obtain a1 where a1: "pop_turn env fe clock a = Inr (m < length L, a1)"
      "async_holds B put L (if m < length L then m + 1 else m) a1"
      "log_file_max_size (log_file a1) = log_file_max_size (log_file a)"
      using pop_turn_holds [OF Cons.prems(1) _ _ assms(4), of env clock] Cons.prems ATurn by fastforce
    from Cons.IH [OF a1(2)] Cons.prems ATurn a1(1,3) show ?thesis by simp
  qed
qed

subsection \<open>Properties\<close>


text \<open>Two rolls in one second open the same name, and the second empties the file.\<close>

lemma roll_same_second_truncates:
  assumes "fe_opens fe (getLogFileName fe now f)"
  shows "file_text (rollFile fe now (stream_put s (rollFile fe now f))) (getLogFileName fe now f) = []"
  using assms by (simp add: rollFile_def stream_put_def Let_def getLogFileName_def file_text_def)

text \<open>With the level set at start, warnings and errors are not logged.\<close>

lemma default_level_hides_errors:
  "isLowerThanOrEqualToCurr default_log_level kINFO" "\<not> isLowerThanOrEqualToCurr default_log_level kWARN"
  "\<not> isLowerThanOrEqualToCurr default_log_level kERROR"
  by (simp_all add: isLowerThanOrEqualToCurr_def default_log_level_def)

definition demo_files :: file_env where
  "demo_files = \<lparr>fe_strftime = (\<lambda>f t. show_int t), fe_hostname = ''h'', fe_opens = (\<lambda>n. True)\<rparr>"

lemma demo_line:
  "\<exists>l e. stringify demo_env 0 l = Inr (''T.000005 7 [INFO] <main> x - b.cpp:9'' @ [CHR 0x0A], e, False)"
proof -
  have "line_text demo_env demo_header [ItChar (CHR ''x'')] = ''T.000005 7 [INFO] <main> x - b.cpp:9'' @ [CHR 0x0A]"
    by code_simp
  moreover obtain l0 where l0: "line_ok l0" "line_bytes l0 = header_bytes LittleEndian demo_header" "used_bytes l0 = 53"
    using LogLine_new_bytes by blast
  moreover obtain l where "line_ok l" "line_bytes l = line_bytes l0 @ item_bytes LittleEndian (ItChar (CHR ''x''))"
    "used_bytes l = used_bytes l0 + length (item_bytes LittleEndian (ItChar (CHR ''x'')))"
    using log_put_appends [OF l0(1), of LittleEndian "ItChar (CHR ''x'')"] l0(3) by (auto simp: appended_def)
  ultimately show ?thesis
    using stringify_text [of l demo_env demo_header "[ItChar (CHR ''x'')]" 0]
    by (auto simp: demo_env_def demo_header_def view_valid_def)
qed


end
