(* ===== verification/LogGlobals.thy ===== *)
theory LogGlobals
  imports Logger
begin

text \<open>
  The global logger of util/Log.cpp among threads: \<open>logger\<close> (a \<open>unique_ptr\<close>), \<open>atomic_logger\<close>, \<open>atomic_log_level\<close>, \<open>initialize\<close>,
  \<open>setLogLevel\<close> and what the macros of Log.h do.

  \<^item> Loggers are objects at addresses; \<open>'l\<close> is the class and \<open>add\<close> its virtual method (util/BaseLogger.h), whose contract is the
    locale \<open>base_logger\<close>, interpreted for both classes.
  \<^item> A macro is cut at its reads of shared memory: the test of the level, the load of the pointer, the call of \<open>add\<close>. The two
    assignments of \<open>initialize\<close> are two steps. A thread that has to spin in \<open>add\<close> (\<open>None\<close>) stays where it is.
  \<^item> \<open>own\<close> is what the logger does by itself: a turn of the writer thread of \<open>AsyncLogger\<close>.
\<close>

subsection \<open>Globals and threads\<close>

datatype log_thread =
    NotLogging
  | Tested LogLine              \<comment> \<open>before \<open>atomic_logger.load\<close>\<close>
  | Adding addr LogLine         \<comment> \<open>before \<open>p_logger->add\<close>\<close>

record 'l log_globals =
  loggers :: "addr \<rightharpoonup> 'l"
  next_logger :: addr
  logger :: pointer
  atomic_logger :: pointer
  atomic_log_level :: LogLevel
  log_threads :: "nat \<Rightarrow> log_thread"
  received :: "LogLine list"

definition log_start :: "'l log_globals" where
  "log_start = \<lparr>loggers = Map.empty, next_logger = 0, logger = None, atomic_logger = None,
     atomic_log_level = default_log_level, log_threads = \<lambda>t. NotLogging, received = []\<rparr>"

text \<open>\<open>logger = std::make_unique<...>(...)\<close>: the new object \<open>l\<close>, and the end of the old one.\<close>

definition assign_logger :: "'l \<Rightarrow> 'l log_globals \<Rightarrow> 'l log_globals" where
  "assign_logger l g =
     g\<lparr>loggers := (case logger g of None \<Rightarrow> loggers g | Some old \<Rightarrow> (loggers g)(old := None))(next_logger g \<mapsto> l),
       logger := Some (next_logger g), next_logger := next_logger g + 1\<rparr>"

definition store_logger :: "'l log_globals \<Rightarrow> 'l log_globals" where
  "store_logger g = g\<lparr>atomic_logger := logger g\<rparr>"

definition initialize :: "'l \<Rightarrow> 'l log_globals \<Rightarrow> 'l log_globals" where
  "initialize l g = store_logger (assign_logger l g)"

definition currentLogLevel :: "'l log_globals \<Rightarrow> LogLevel" where
  "currentLogLevel g = atomic_log_level g"

definition setLogLevel :: "LogLevel \<Rightarrow> 'l log_globals \<Rightarrow> 'l log_globals" where
  "setLogLevel level g = g\<lparr>atomic_log_level := level\<rparr>"

text \<open>The macro: the test, then \<open>FmLog::operator==\<close> on the line built meanwhile.\<close>

definition test_level :: "nat \<Rightarrow> LogLevel \<Rightarrow> LogLine \<Rightarrow> 'l log_globals \<Rightarrow> 'l log_globals" where
  "test_level t level line g =
     (if isLowerThanOrEqualToCurr (currentLogLevel g) level
      then g\<lparr>log_threads := (log_threads g)(t := Tested line)\<rparr> else g)"

definition load_logger :: "nat \<Rightarrow> 'l log_globals \<Rightarrow> 'l log_globals" where
  "load_logger t g =
     (case log_threads g t of
        Tested line \<Rightarrow> g\<lparr>log_threads := (log_threads g)(t := (case atomic_logger g of None \<Rightarrow> NotLogging | Some p \<Rightarrow> Adding p line))\<rparr>
      | _ \<Rightarrow> g)"

definition add_line :: "(LogLine \<Rightarrow> 'l \<Rightarrow> 'l result option) \<Rightarrow> nat \<Rightarrow> 'l log_globals \<Rightarrow> 'l log_globals result" where
  "add_line add t g =
     (case log_threads g t of
        Adding p line \<Rightarrow>
          (case loggers g p of
             None \<Rightarrow> Inl UseAfterFree
           | Some l \<Rightarrow>
               (case add line l of
                  None \<Rightarrow> Inr g
                | Some r \<Rightarrow> result_bind r (\<lambda>l'.
                    Inr (g\<lparr>loggers := (loggers g)(p \<mapsto> l'), log_threads := (log_threads g)(t := NotLogging),
                           received := received g @ [line]\<rparr>))))
      | _ \<Rightarrow> Inr g)"

definition logger_turn :: "('l \<Rightarrow> 'l result) \<Rightarrow> 'l log_globals \<Rightarrow> 'l log_globals result" where
  "logger_turn own g =
     (case logger g of
        None \<Rightarrow> Inr g
      | Some p \<Rightarrow>
          (case loggers g p of
             None \<Rightarrow> Inl UseAfterFree
           | Some l \<Rightarrow> result_bind (own l) (\<lambda>l'. Inr (g\<lparr>loggers := (loggers g)(p \<mapsto> l')\<rparr>))))"

datatype 'l log_event =
    AssignLogger 'l | StoreLogger | SetLevel LogLevel | TestLevel nat LogLevel LogLine | LoadLogger nat | AddLine nat | LoggerTurn

fun log_step ::
  "(LogLine \<Rightarrow> 'l \<Rightarrow> 'l result option) \<Rightarrow> ('l \<Rightarrow> 'l result) \<Rightarrow> 'l log_event \<Rightarrow> 'l log_globals \<Rightarrow> 'l log_globals result" where
  "log_step add own (AssignLogger l) g = Inr (assign_logger l g)"
| "log_step add own StoreLogger g = Inr (store_logger g)"
| "log_step add own (SetLevel level) g = Inr (setLogLevel level g)"
| "log_step add own (TestLevel t level line) g = Inr (test_level t level line g)"
| "log_step add own (LoadLogger t) g = Inr (load_logger t g)"
| "log_step add own (AddLine t) g = add_line add t g"
| "log_step add own LoggerTurn g = logger_turn own g"

text \<open>The logger is set once, to a new object; a thread logs one line at a time; \<open>good\<close> is what the logger requires of the lines it
  gets.\<close>

fun log_event_ok :: "('l \<Rightarrow> bool) \<Rightarrow> (LogLine list \<Rightarrow> bool) \<Rightarrow> 'l log_event \<Rightarrow> 'l log_globals \<Rightarrow> bool" where
  "log_event_ok new good (AssignLogger l) g \<longleftrightarrow> logger g = None \<and> new l"
| "log_event_ok new good (TestLevel t level line) g \<longleftrightarrow> log_threads g t = NotLogging"
| "log_event_ok new good (AddLine t) g \<longleftrightarrow> (\<forall>p line. log_threads g t = Adding p line \<longrightarrow> good (received g @ [line]))"
| "log_event_ok new good _ g \<longleftrightarrow> True"

subsection \<open>The contract of a logger\<close>

text \<open>\<open>inv L l\<close>: the logger \<open>l\<close> has got exactly the lines \<open>L\<close>.\<close>

locale base_logger =
  fixes add :: "LogLine \<Rightarrow> 'l \<Rightarrow> 'l result option" and own :: "'l \<Rightarrow> 'l result"
    and new :: "'l \<Rightarrow> bool" and good :: "LogLine list \<Rightarrow> bool" and inv :: "LogLine list \<Rightarrow> 'l \<Rightarrow> bool"
  assumes new_law: "new l \<Longrightarrow> inv [] l"
    and add_law: "inv L l \<Longrightarrow> good (L @ [line]) \<Longrightarrow> \<exists>l'. add line l = Some (Inr l') \<and> inv (L @ [line]) l'"
    and own_law: "inv L l \<Longrightarrow> \<exists>l'. own l = Inr l' \<and> inv L l'"
begin

definition globals_inv :: "'l log_globals \<Rightarrow> bool" where
  "globals_inv g \<longleftrightarrow>
     (case logger g of
        None \<Rightarrow> received g = []
      | Some p \<Rightarrow> (\<exists>l. loggers g p = Some l \<and> inv (received g) l)) \<and>
     (atomic_logger g = None \<or> atomic_logger g = logger g) \<and>
     (\<forall>t p line. log_threads g t = Adding p line \<longrightarrow> logger g = Some p)"

lemma start_inv: "globals_inv log_start"
  by (simp add: globals_inv_def log_start_def)

lemma add_line_ok:
  assumes "globals_inv g" and "log_event_ok new good (AddLine t) g"
  shows "\<exists>g'. add_line add t g = Inr g' \<and> globals_inv g'"
proof (cases "log_threads g t")
  case (Adding p line)
  with assms(1) obtain l where l: "logger g = Some p" "loggers g p = Some l" "inv (received g) l"
    by (fastforce simp: globals_inv_def)
  from add_law [OF l(3), of line] assms(2) Adding obtain l' where "add line l = Some (Inr l')" "inv (received g @ [line]) l'"
    by auto
  with Adding l assms(1) show ?thesis by (auto simp: add_line_def globals_inv_def)
qed (use assms(1) in \<open>simp_all add: add_line_def\<close>)

lemma step_ok:
  assumes inv: "globals_inv g" and ok: "log_event_ok new good e g"
  shows "\<exists>g'. log_step add own e g = Inr g' \<and> globals_inv g'"
proof (cases e)
  case (AssignLogger l)
  with ok inv new_law [of l] show ?thesis by (auto simp: globals_inv_def assign_logger_def)
next
  case StoreLogger
  with inv show ?thesis by (auto simp: globals_inv_def store_logger_def split: option.splits)
next
  case (SetLevel level)
  with inv show ?thesis by (auto simp: globals_inv_def setLogLevel_def split: option.splits)
next
  case (TestLevel t level line)
  with inv show ?thesis by (auto simp: globals_inv_def test_level_def split: option.splits)
next
  case (LoadLogger t)
  with inv show ?thesis by (auto simp: globals_inv_def load_logger_def split: log_thread.splits option.splits)
next
  case (AddLine t)
  with add_line_ok [OF inv] ok show ?thesis by simp
next
  case LoggerTurn
  with inv own_law show ?thesis
    by (cases "logger g") (fastforce simp: globals_inv_def logger_turn_def)+
qed

sublocale globals: safe_machine "log_step add own" "log_event_ok new good" globals_inv
  by unfold_locales (rule step_ok)

lemma delivered:
  assumes "machine_run (log_step add own) (log_event_ok new good) silent log_start [] g"
  shows "\<forall>e. log_event_ok new good e g \<longrightarrow> is_ok (log_step add own e g)"
    and "logger g = Some p \<Longrightarrow> \<exists>l. loggers g p = Some l \<and> inv (received g) l"
    and "logger g = None \<Longrightarrow> received g = []"
  using globals.run_inv [OF assms start_inv] globals.run_safe [OF assms start_inv]
  by (simp_all add: globals_inv_def)

end

subsection \<open>The two loggers\<close>

text \<open>The standard logger: its state is the text printed. It does nothing by itself.\<close>

definition StdLogger_calls :: "log_env \<Rightarrow> LogLine \<Rightarrow> string \<Rightarrow> string result option" where
  "StdLogger_calls env line out = Some (StdLogger_add env line out)"

definition printable :: "log_env \<Rightarrow> (LogLine \<Rightarrow> string) \<Rightarrow> LogLine list \<Rightarrow> bool" where
  "printable env put L \<longleftrightarrow> (\<forall>l\<in>set L. \<exists>e. stringify env 0 l = Inr (put l, e, False))"

interpretation std: base_logger "StdLogger_calls env" Inr "\<lambda>out. out = []" "printable env put" "\<lambda>L out. out = concat (map put L)"
  for env put
proof
  fix L :: "LogLine list" and l and line assume "l = concat (map put L)" and "printable env put (L @ [line])"
  then show "\<exists>l'. StdLogger_calls env line l = Some (Inr l') \<and> l' = concat (map put (L @ [line]))"
    by (auto simp: StdLogger_calls_def StdLogger_add_def printable_def)
qed simp_all

text \<open>The asynchronous logger and the turns of its thread.\<close>

definition async_turn :: "log_env \<Rightarrow> file_env \<Rightarrow> (nat \<Rightarrow> int) \<Rightarrow> AsyncLogger \<Rightarrow> AsyncLogger result" where
  "async_turn env fe clock a = result_bind (pop_turn env fe clock a) (\<lambda>(got, a'). Inr a')"

definition async_new :: "file_env \<Rightarrow> (nat \<Rightarrow> int) \<Rightarrow> AsyncLogger \<Rightarrow> bool" where
  "async_new fe clock a \<longleftrightarrow> (\<forall>n. fe_opens fe n) \<and>
     (\<exists>dir name max_size. 0 < max_size \<and> a = AsyncLogger_new fe clock dir name max_size)"

definition async_good :: "log_env \<Rightarrow> nat \<Rightarrow> (LogLine \<Rightarrow> string) \<Rightarrow> LogLine list \<Rightarrow> bool" where
  "async_good env B put L \<longleftrightarrow> length L < 2 * kSize \<and> (\<forall>l\<in>set L. writable env B put l)"

definition async_got :: "log_env \<Rightarrow> file_env \<Rightarrow> nat \<Rightarrow> (LogLine \<Rightarrow> string) \<Rightarrow> LogLine list \<Rightarrow> AsyncLogger \<Rightarrow> bool" where
  "async_got env fe B put L a \<longleftrightarrow> (\<forall>n. fe_opens fe n) \<and> async_good env B put L \<and> (\<exists>m. async_holds B put L m a)"

lemma async_new_got:
  assumes "async_new fe clock a"
  shows "async_got env fe B put [] a"
proof -
  obtain dir name max_size where a: "\<And>n. fe_opens fe n" "0 < max_size" "a = AsyncLogger_new fe clock dir name max_size"
    using assms unfolding async_new_def by blast
  then have "async_holds B put [] 0 a"
    using queue_at_new LogFile_new_holds [OF a(1,2)] by (simp add: async_holds_def AsyncLogger_new_def)
  with a(1) show ?thesis by (auto simp: async_got_def async_good_def kSize_def)
qed

interpretation async: base_logger AsyncLogger_add "async_turn env fe clock" "async_new fe clock" "async_good env B put" "async_got env fe B put"
  for env fe clock B put
proof
  fix L a line
  assume got: "async_got env fe B put L a"
  then obtain m where m: "async_holds B put L m a" and op: "\<And>n. fe_opens fe n" by (auto simp: async_got_def)
  have L: "length L < 2 * kSize" "\<forall>l\<in>set L. writable env B put l" using got by (simp_all add: async_got_def async_good_def)
  from pop_turn_holds [OF m L op, of clock] got show "\<exists>l'. async_turn env fe clock a = Inr l' \<and> async_got env fe B put L l'"
    by (auto simp: async_turn_def async_got_def)
  assume "async_good env B put (L @ [line])"
  with async_run_holds [OF m _ _ op, of "[AAdd line]" env clock] op
  show "\<exists>l'. AsyncLogger_add line a = Some (Inr l') \<and> async_got env fe B put (L @ [line]) l'"
    by (auto simp: async_got_def async_good_def split: option.splits sum.splits)
qed (rule async_new_got)

subsection \<open>Properties\<close>


text \<open>C35. A second \<open>initialize\<close> is not safe while others log. It ends the old logger before \<open>atomic_logger\<close> is changed: a thread
  that loads the pointer between the two assignments, and one that loaded it before them, calls \<open>add\<close> on an object that
  no longer exists, whatever class the loggers have.\<close>

theorem second_initialize_dangles:
  assumes "logger g = Some p" and "atomic_logger g = Some p" and "p < next_logger g" and "log_threads g t = Tested line"
  shows "foldM (log_step add own) [LoadLogger t, AssignLogger l, StoreLogger, AddLine t] g = Inl UseAfterFree \<and>
         foldM (log_step add own) [AssignLogger l, LoadLogger t, AddLine t] g = Inl UseAfterFree"
  using assms by (simp add: load_logger_def assign_logger_def store_logger_def add_line_def)

theorem second_initialize_dangles_witness:
  "\<exists>g. foldM (log_step (StdLogger_calls demo_env) Inr)
       [AssignLogger [], StoreLogger, TestLevel 1 kINFO LogLine_empty] log_start = Inr g \<and>
     foldM (log_step (StdLogger_calls demo_env) Inr) [AssignLogger [], LoadLogger 1, AddLine 1] g = Inl UseAfterFree"
proof -
  let ?g = "test_level 1 kINFO LogLine_empty (initialize [] log_start)"
  have g: "logger ?g = Some 0" "atomic_logger ?g = Some 0" "0 < next_logger ?g" "log_threads ?g 1 = Tested LogLine_empty"
    by (simp_all add: test_level_def initialize_def assign_logger_def store_logger_def log_start_def currentLogLevel_def
        isLowerThanOrEqualToCurr_def default_log_level_def)
  have "foldM (log_step (StdLogger_calls demo_env) Inr) [AssignLogger [], StoreLogger, TestLevel 1 kINFO LogLine_empty] log_start = Inr ?g"
    by (simp add: initialize_def)
  with second_initialize_dangles [OF g, of "StdLogger_calls demo_env" Inr "[]"] show ?thesis by blast
qed


end
