(* ===== verification/Sockets.thy ===== *)
theory Sockets
  imports Endian
begin

text \<open>
  Addresses and sockets: include/libfm/fmnet/InetAddress.h, net/InetAddress.cpp, net/SocketsOps.cpp and
  net/Socket.cpp.

  \<^item> The union of \<open>sockaddr_in\<close> and \<open>sockaddr_in6\<close> is the 28 bytes they share: family (2, host order), port
    (2, network order), then for IPv4 the address (4) and for IPv6 flow info (4), address (16) and scope
    id (4). The casts between the two structures are the identity on these bytes.
  \<^item> \<open>inet_ntop\<close> and \<open>inet_pton\<close> for IPv4 are the functions \<open>ntop4\<close> and \<open>pton4\<close>; for IPv6 they are parameters.
  \<^item> The results of the system calls are arguments; what the wrappers add (the error handling of \<open>accept\<close>,
    the \<open>OrDie\<close> checks) is modelled. \<open>LOG_FATAL\<close> is the fault \<open>FatalLog\<close>.
\<close>

subsection \<open>Text of IPv4 addresses\<close>

definition ntop4 :: "char list \<Rightarrow> string" where
  "ntop4 a =
     show_nat (of_char (a ! 0)) @ ''.'' @ show_nat (of_char (a ! 1)) @ ''.'' @
     show_nat (of_char (a ! 2)) @ ''.'' @ show_nat (of_char (a ! 3))"

fun split_dots :: "string \<Rightarrow> string list" where
  "split_dots [] = [[]]"
| "split_dots (c # cs) =
     (if c = CHR ''.'' then [] # split_dots cs
      else case split_dots cs of [] \<Rightarrow> [[c]] | p # ps \<Rightarrow> (c # p) # ps)"

definition is_digit :: "char \<Rightarrow> bool" where
  "is_digit c \<longleftrightarrow> 48 \<le> (of_char c :: nat) \<and> (of_char c :: nat) \<le> 57"

text \<open>A part of a dotted address: digits, no leading zero, at most 255.\<close>

definition octet :: "string \<Rightarrow> char option" where
  "octet p =
     (if p \<noteq> [] \<and> list_all is_digit p \<and> (hd p \<noteq> CHR ''0'' \<or> length p = 1) \<and> read_nat p \<le> 255
      then Some (char_of (read_nat p)) else None)"

definition pton4 :: "string \<Rightarrow> char list option" where
  "pton4 s =
     (let os = map octet (split_dots s)
      in if length os = 4 \<and> None \<notin> set os then Some (map the os) else None)"

subsection \<open>Socket addresses\<close>

type_synonym InetAddress = "char list"

definition AF_INET :: nat where "AF_INET = 2"
definition AF_INET6 :: nat where "AF_INET6 = 10"
definition INADDR_ANY :: nat where "INADDR_ANY = 0"
definition INADDR_LOOPBACK :: nat where "INADDR_LOOPBACK = 0x7f000001"

definition put_bytes :: "nat \<Rightarrow> char list \<Rightarrow> char list \<Rightarrow> char list" where
  "put_bytes i d bs = take i bs @ d @ drop (i + length d) bs"

definition get_bytes :: "nat \<Rightarrow> nat \<Rightarrow> char list \<Rightarrow> char list" where
  "get_bytes i n bs = take n (drop i bs)"

definition zero_addr :: InetAddress where "zero_addr = replicate 28 (CHR 0x00)"

text \<open>The fields, at their offsets. The functions \<open>family\<close> and \<open>portNetEdian\<close> of the class read them.\<close>

definition set_family :: "byte_order \<Rightarrow> nat \<Rightarrow> InetAddress \<Rightarrow> InetAddress" where
  "set_family e f = put_bytes 0 (mem_store e 2 f)"

definition family :: "byte_order \<Rightarrow> InetAddress \<Rightarrow> nat" where
  "family e bs = mem_load e (get_bytes 0 2 bs)"

definition set_port :: "byte_order \<Rightarrow> 16 word \<Rightarrow> InetAddress \<Rightarrow> InetAddress" where
  "set_port e port = put_bytes 2 (mem_store e 2 (unat (hostToNetwork16 e port)))"

definition portNetEdian :: "byte_order \<Rightarrow> InetAddress \<Rightarrow> 16 word" where
  "portNetEdian e bs = of_nat (mem_load e (get_bytes 2 2 bs))"

definition port :: "byte_order \<Rightarrow> InetAddress \<Rightarrow> 16 word" where
  "port e bs = networkToHost16 e (portNetEdian e bs)"

definition ipv4NetEdian :: "byte_order \<Rightarrow> InetAddress \<Rightarrow> 32 word result" where
  "ipv4NetEdian e bs = assert_c (family e bs = AF_INET) (Inr (of_nat (mem_load e (get_bytes 4 4 bs))))"

text \<open>The constructor from a port. \<open>INADDR_LOOPBACK\<close> is stored in host order.\<close>

definition in6addr_loopback :: "char list" where "in6addr_loopback = replicate 15 (CHR 0x00) @ [CHR 0x01]"
definition in6addr_any :: "char list" where "in6addr_any = replicate 16 (CHR 0x00)"

definition InetAddress_port :: "byte_order \<Rightarrow> 16 word \<Rightarrow> bool \<Rightarrow> bool \<Rightarrow> InetAddress" where
  "InetAddress_port e p loopBackOnly ipv6 =
     (if ipv6
      then set_port e p (put_bytes 8 (if loopBackOnly then in6addr_loopback else in6addr_any)
             (set_family e AF_INET6 zero_addr))
      else set_port e p (put_bytes 4 (mem_store e 4 (if loopBackOnly then INADDR_LOOPBACK else INADDR_ANY))
             (set_family e AF_INET zero_addr)))"

text \<open>\<open>fromIpPortStr\<close> for the two families: a text that is not an address leaves the address bytes as they are.\<close>

definition fromIpPortStr4 :: "byte_order \<Rightarrow> string \<Rightarrow> 16 word \<Rightarrow> InetAddress \<Rightarrow> InetAddress" where
  "fromIpPortStr4 e ip p bs =
     (let bs1 = set_port e p (set_family e AF_INET bs)
      in case pton4 ip of None \<Rightarrow> bs1 | Some a \<Rightarrow> put_bytes 4 a bs1)"

definition fromIpPortStr6 ::
  "(string \<Rightarrow> char list option) \<Rightarrow> byte_order \<Rightarrow> string \<Rightarrow> 16 word \<Rightarrow> InetAddress \<Rightarrow> InetAddress" where
  "fromIpPortStr6 pton6 e ip p bs =
     (let bs1 = set_port e p (set_family e AF_INET6 bs)
      in case pton6 ip of None \<Rightarrow> bs1 | Some a \<Rightarrow> put_bytes 8 a bs1)"

text \<open>The constructor from a text. For IPv4 only the first 16 bytes are cleared: the others keep the value
  \<open>old\<close> they had before.\<close>

definition InetAddress_ip ::
  "(string \<Rightarrow> char list option) \<Rightarrow> byte_order \<Rightarrow> InetAddress \<Rightarrow> string \<Rightarrow> 16 word \<Rightarrow> bool \<Rightarrow> InetAddress" where
  "InetAddress_ip pton6 e old ip p ipv6 =
     (if ipv6 \<or> CHR '':'' \<in> set ip
      then fromIpPortStr6 pton6 e ip p zero_addr
      else fromIpPortStr4 e ip p (put_bytes 0 (replicate 16 (CHR 0x00)) old))"

text \<open>The constructors from a socket address, and its setter; \<open>sockaddr_in\<close> is the first 16 bytes of the union.\<close>

definition InetAddress_in :: "char list \<Rightarrow> InetAddress \<Rightarrow> InetAddress" where
  "InetAddress_in addr4 old = put_bytes 0 (take 16 addr4) old"

definition setSockAddrInet6 :: "char list \<Rightarrow> InetAddress \<Rightarrow> InetAddress" where
  "setSockAddrInet6 addr6 bs = addr6"

text \<open>\<open>resolve\<close>, with what \<open>gethostbyname_r\<close> returns and stores as arguments. \<open>h_addr_list\<close> is an array of pointers
  to addresses; the code takes the array itself for an address, so it copies the first four bytes of the first pointer.\<close>

record hostent =
  h_addrtype :: nat
  h_length :: nat
  h_addr_list :: "64 word list"

definition resolve :: "byte_order \<Rightarrow> int \<Rightarrow> hostent option \<Rightarrow> InetAddress option \<Rightarrow> (bool \<times> InetAddress) result" where
  "resolve e ret he result_ptr =
     (case result_ptr of
        None \<Rightarrow> Inl AssertFailed
      | Some bs \<Rightarrow>
          (case he of
             Some h \<Rightarrow>
               if ret = 0
               then assert_c (h_addrtype h = AF_INET \<and> h_length h = 4)
                      (case h_addr_list h of
                         [] \<Rightarrow> Inl OutOfBounds
                       | p # ps \<Rightarrow> Inr (True, put_bytes 4 (take 4 (mem_store e 8 (unat p))) bs))
               else Inr (False, bs)
           | None \<Rightarrow> Inr (False, bs)))"

text \<open>\<open>sockets::toIpStr\<close> into a buffer of \<open>cap\<close> bytes (which starts empty): \<open>inet_ntop\<close> writes nothing when the
  text does not fit.\<close>

definition inet_put :: "nat \<Rightarrow> string \<Rightarrow> string" where
  "inet_put cap s = (if length s < cap then s else [])"

definition sockets_toIpStr :: "(char list \<Rightarrow> string) \<Rightarrow> byte_order \<Rightarrow> nat \<Rightarrow> InetAddress \<Rightarrow> string" where
  "sockets_toIpStr ntop6 e cap bs =
     (if family e bs = AF_INET then inet_put cap (ntop4 (get_bytes 4 4 bs))
      else if family e bs = AF_INET6 then inet_put cap (ntop6 (get_bytes 8 16 bs))
      else [])"

definition sockets_toIpPortStr :: "(char list \<Rightarrow> string) \<Rightarrow> byte_order \<Rightarrow> nat \<Rightarrow> InetAddress \<Rightarrow> string" where
  "sockets_toIpPortStr ntop6 e cap bs =
     (if family e bs = AF_INET6
      then let s = ''['' @ sockets_toIpStr ntop6 e (cap - 1) bs
           in s @ snprintf (cap - length s) ('']:'' @ show_nat (unat (port e bs)))
      else if family e bs = AF_INET
      then let s = sockets_toIpStr ntop6 e cap bs
           in s @ snprintf (cap - length s) ('':'' @ show_nat (unat (port e bs)))
      else [])"

definition InetAddress_toIpStr :: "(char list \<Rightarrow> string) \<Rightarrow> byte_order \<Rightarrow> InetAddress \<Rightarrow> string" where
  "InetAddress_toIpStr ntop6 e bs = sockets_toIpStr ntop6 e 46 bs"

definition InetAddress_toIpPortStr :: "(char list \<Rightarrow> string) \<Rightarrow> byte_order \<Rightarrow> InetAddress \<Rightarrow> string" where
  "InetAddress_toIpPortStr ntop6 e bs = sockets_toIpPortStr ntop6 e 64 bs"

text \<open>\<open>getsockname\<close> and \<open>getpeername\<close> give an address or fail; a failure is logged and the address is the
  cleared one.\<close>

definition getLocalAddr :: "InetAddress option \<Rightarrow> InetAddress" where
  "getLocalAddr outcome = (case outcome of None \<Rightarrow> zero_addr | Some a \<Rightarrow> a)"

definition getPeerAddr :: "InetAddress option \<Rightarrow> InetAddress" where
  "getPeerAddr outcome = (case outcome of None \<Rightarrow> zero_addr | Some a \<Rightarrow> a)"

definition isSelfConnect :: "byte_order \<Rightarrow> InetAddress option \<Rightarrow> InetAddress option \<Rightarrow> bool" where
  "isSelfConnect e local_outcome peer_outcome =
     (let localaddr = getLocalAddr local_outcome; peeraddr = getPeerAddr peer_outcome
      in if family e localaddr = AF_INET
         then get_bytes 2 2 localaddr = get_bytes 2 2 peeraddr \<and> get_bytes 4 4 localaddr = get_bytes 4 4 peeraddr
         else if family e localaddr = AF_INET6
         then get_bytes 2 2 localaddr = get_bytes 2 2 peeraddr \<and> get_bytes 8 16 localaddr = get_bytes 8 16 peeraddr
         else False)"

subsection \<open>Calls that check their result\<close>

definition createNonblockingSocketOrDie :: "int \<Rightarrow> int result" where
  "createNonblockingSocketOrDie sockfd = check FatalLog (0 \<le> sockfd) (Inr sockfd)"

definition bindOrDie :: "int \<Rightarrow> unit result" where "bindOrDie ret = check FatalLog (0 \<le> ret) (Inr ())"

definition listenOrDie :: "int \<Rightarrow> unit result" where "listenOrDie ret = check FatalLog (0 \<le> ret) (Inr ())"

text \<open>The methods of \<open>Socket\<close> that check the result of their call.\<close>

definition Socket_bindAddress :: "int \<Rightarrow> unit result" where "Socket_bindAddress ret = bindOrDie ret"

definition Socket_listen :: "int \<Rightarrow> unit result" where "Socket_listen ret = listenOrDie ret"

datatype accept_errno =
    EAGAIN | ECONNABORTED | EINTR | EPERM | EPROTO | EMFILE
  | EBADF | EFAULT | EINVAL | ENOBUFS | ENOMEM | ENOTSOCK | EOPNOTSUPP | OtherAcceptErrno

text \<open>\<open>accept4\<close> returned a descriptor and the peer's address, or an error; the transient errors are handed on.\<close>

definition sockets_accept :: "accept_errno + int \<times> InetAddress \<Rightarrow> (accept_errno + int \<times> InetAddress) result" where
  "sockets_accept outcome =
     (case outcome of
        Inr r \<Rightarrow> Inr (Inr r)
      | Inl e \<Rightarrow> check FatalLog (e \<in> {EAGAIN, ECONNABORTED, EINTR, EPERM, EPROTO, EMFILE}) (Inr (Inl e)))"

definition Socket_accept :: "accept_errno + int \<times> InetAddress \<Rightarrow> InetAddress \<Rightarrow> ((accept_errno + int) \<times> InetAddress) result" where
  "Socket_accept outcome peer =
     result_bind (sockets_accept outcome) (\<lambda>r.
       Inr (case r of Inl e \<Rightarrow> (Inl e, peer) | Inr (fd, a) \<Rightarrow> (Inr fd, a)))"

definition getSocketError :: "int \<Rightarrow> int + int \<Rightarrow> int" where
  "getSocketError errno outcome = (case outcome of Inl failed \<Rightarrow> errno | Inr optval \<Rightarrow> optval)"

text \<open>\<open>close\<close> and \<open>shutdown\<close> report a failed call in the log and go on; the destructor of \<open>Socket\<close> closes its descriptor. The
  other wrappers hand on the outcome of their call, \<open>connect\<close> with the size of the larger address structure.\<close>

definition sockets_close :: "int \<Rightarrow> string list \<Rightarrow> string list" where
  "sockets_close ret lg = (if ret < 0 then lg @ [''sockets::close''] else lg)"

definition sockets_shutdownWrite :: "int \<Rightarrow> string list \<Rightarrow> string list" where
  "sockets_shutdownWrite ret lg = (if ret < 0 then lg @ [''sockets::shutdownWrite''] else lg)"

definition Socket_destroy :: "int \<Rightarrow> string list \<Rightarrow> string list" where "Socket_destroy ret lg = sockets_close ret lg"

definition Socket_shutdownWrite :: "int \<Rightarrow> string list \<Rightarrow> string list" where
  "Socket_shutdownWrite ret lg = sockets_shutdownWrite ret lg"

definition sockets_connect :: "(InetAddress \<Rightarrow> nat \<Rightarrow> int) \<Rightarrow> InetAddress \<Rightarrow> int" where
  "sockets_connect call address = call address 28"

definition sockets_read :: "(nat \<Rightarrow> int + string) \<Rightarrow> nat \<Rightarrow> int + string" where "sockets_read call n = call n"

definition sockets_write :: "(string \<Rightarrow> int) \<Rightarrow> string \<Rightarrow> int" where "sockets_write call buf = call buf"

text \<open>\<open>setsockopt\<close> with an \<open>int\<close>: the value is taken when the length given is that of an \<open>int\<close>, otherwise the
  call fails with \<open>EINVAL\<close> and the option keeps its value.\<close>

definition setsockopt_int :: "nat \<Rightarrow> int \<Rightarrow> bool \<Rightarrow> bool" where
  "setsockopt_int len val old = (if 4 \<le> len then val \<noteq> 0 else old)"

record socket_options =
  opt_nodelay :: bool
  opt_reuseaddr :: bool
  opt_reuseport :: bool
  opt_keepalive :: bool

definition on_off :: "bool \<Rightarrow> int" where "on_off on = (if on then 1 else 0)"

definition setTcpNoDelay :: "bool \<Rightarrow> socket_options \<Rightarrow> socket_options" where
  "setTcpNoDelay on s = s\<lparr>opt_nodelay := setsockopt_int (nat (on_off on)) (on_off on) (opt_nodelay s)\<rparr>"

definition setReuseAddr :: "bool \<Rightarrow> socket_options \<Rightarrow> socket_options" where
  "setReuseAddr on s = s\<lparr>opt_reuseaddr := setsockopt_int 4 (on_off on) (opt_reuseaddr s)\<rparr>"

definition setReusePort :: "bool \<Rightarrow> socket_options \<Rightarrow> socket_options" where
  "setReusePort on s = s\<lparr>opt_reuseport := setsockopt_int 4 (on_off on) (opt_reuseport s)\<rparr>"

definition setKeepAlive :: "bool \<Rightarrow> socket_options \<Rightarrow> socket_options" where
  "setKeepAlive on s = s\<lparr>opt_keepalive := setsockopt_int 4 (on_off on) (opt_keepalive s)\<rparr>"

text \<open>\<open>TCP_NODELAY\<close> can never be changed: the length passed is 0 or 1.\<close>

lemma setTcpNoDelay_no_effect: "setTcpNoDelay on s = s"
  by (simp add: setTcpNoDelay_def setsockopt_int_def on_off_def)

subsection \<open>Reading what was written\<close>

lemma get_put_same:
  "i + length d \<le> length bs \<Longrightarrow> n = length d \<Longrightarrow> get_bytes i n (put_bytes i d bs) = d"
  by (simp add: get_bytes_def put_bytes_def)

lemma get_put_other:
  assumes "i + length d \<le> length bs" and "j + n \<le> i \<or> i + length d \<le> j"
  shows "get_bytes j n (put_bytes i d bs) = get_bytes j n bs"
  using assms(2)
proof
  assume "j + n \<le> i"
  with assms(1) show ?thesis by (simp add: get_bytes_def put_bytes_def drop_take)
next
  assume "i + length d \<le> j"
  then have "drop j (take i bs @ d @ drop (i + length d) bs) = drop (j - i - length d) (drop (i + length d) bs)"
    using assms(1) by simp
  also have "\<dots> = drop j bs" using \<open>i + length d \<le> j\<close> by (simp add: add.commute)
  finally show ?thesis by (simp add: get_bytes_def put_bytes_def)
qed

lemma length_put_bytes: "i + length d \<le> length bs \<Longrightarrow> length (put_bytes i d bs) = length bs"
  by (simp add: put_bytes_def)

lemmas bytes_simps = get_put_same get_put_other length_put_bytes

text \<open>The address \<open>resolve\<close> stores consists of bytes of a pointer, whatever address was found.\<close>

lemma resolve_stores_pointer:
  assumes "length bs = 28" and "h_addrtype h = AF_INET" and "h_length h = 4" and "h_addr_list h = p # ps"
  shows "\<exists>bs'. resolve e 0 (Some h) (Some bs) = Inr (True, bs') \<and> get_bytes 4 4 bs' = take 4 (mem_store e 8 (unat p))"
  using assms by (simp add: resolve_def get_put_same)

lemma load_store16: "of_nat (mem_load e (mem_store e 2 (unat (w :: 16 word)))) = w"
proof -
  have "unat w < 256 ^ 2" using unsigned_less [of w] by simp
  then have "mem_load e (mem_store e 2 (unat w)) = unat w"
    by (cases e) (simp_all only: mem_load_def mem_store_def le_value_le_bytes be_value_be_bytes byte_order.case mod_less)
  then show ?thesis by simp
qed

lemma load_store_family: "f < 65536 \<Longrightarrow> mem_load e (mem_store e 2 f) = f"
  by (cases e) (simp_all add: mem_load_def mem_store_def le_value_le_bytes be_value_be_bytes)

lemma network_host_roundtrip: "networkToHost16 e (hostToNetwork16 e p) = p"
  by (simp only: networkToHost16_def unat_hostToNetwork to_be_to_be [OF unat_word16_byte_bound] Word.of_nat_unat) simp

text \<open>Decimal octets.\<close>

lemma digit_char_is_digit: "d < 10 \<Longrightarrow> is_digit (digit_char d)"
  by (simp add: is_digit_def of_char_digit)

lemma digit_char_neq: "d < 10 \<Longrightarrow> digit_char d \<noteq> CHR ''.''" "d < 10 \<Longrightarrow> digit_char d \<noteq> CHR '':''"
  "0 < d \<Longrightarrow> d < 10 \<Longrightarrow> digit_char d \<noteq> CHR ''0''"
  using of_char_digit [of d] by auto

lemma show_nat_hd: "0 < n \<Longrightarrow> hd (show_nat n) \<noteq> CHR ''0''"
proof (induction n rule: show_nat.induct)
  case (1 n)
  show ?case
  proof (cases "n < 10")
    case True
    with "1.prems" show ?thesis by (simp add: show_nat.simps [of n] digit_char_neq)
  next
    case False
    with 1 show ?thesis by (simp add: show_nat.simps [of n] hd_append show_nat_nonempty)
  qed
qed

lemma octet_show_nat:
  assumes "n \<le> 255"
  shows "octet (show_nat n) = Some (char_of n)"
proof -
  have "list_all is_digit (show_nat n)"
    using show_nat_digits [of _ n] digit_char_is_digit by (auto simp: list_all_iff)
  moreover have "hd (show_nat n) \<noteq> CHR ''0'' \<or> length (show_nat n) = 1"
    using show_nat_hd [of n] by (cases "n = 0") (auto simp: show_nat.simps [of 0])
  ultimately show ?thesis
    using assms by (simp add: octet_def show_nat_nonempty read_show_nat)
qed

lemma split_dots_part: "CHR ''.'' \<notin> set p \<Longrightarrow> split_dots (p @ CHR ''.'' # r) = p # split_dots r"
  by (induction p) auto

lemma split_dots_last: "CHR ''.'' \<notin> set p \<Longrightarrow> split_dots p = [p]"
  by (induction p) auto

lemma show_nat_no_sep: "CHR ''.'' \<notin> set (show_nat n)" "CHR '':'' \<notin> set (show_nat n)"
  by (metis show_nat_digits digit_char_neq(1)) (metis show_nat_digits digit_char_neq(2))

lemma pton4_ntop4:
  assumes "length a = 4"
  shows "pton4 (ntop4 a) = Some a"
proof -
  obtain a0 a1 a2 a3 where a: "a = [a0, a1, a2, a3]"
    using assms by (auto simp: length_Suc_conv numeral_eq_Suc)
  have o: "octet (show_nat (of_char c)) = Some c" for c :: char
  proof -
    have "of_char c < (256 :: nat)" by simp
    then have "of_char c \<le> (255 :: nat)" by linarith
    from octet_show_nat [OF this] show ?thesis by simp
  qed
  have "split_dots (ntop4 a) = [show_nat (of_char a0), show_nat (of_char a1), show_nat (of_char a2), show_nat (of_char a3)]"
    by (simp add: a ntop4_def split_dots_part split_dots_last show_nat_no_sep)
  then show ?thesis by (simp add: pton4_def o a)
qed

lemma length_show_octet: "length (show_nat (of_char c)) \<le> 3" for c :: char
proof (rule length_show_nat)
  have "(of_char c :: nat) < 256" by simp
  then show "(of_char c :: nat) < 10 ^ 3" by (rule less_le_trans) simp
qed simp

lemma length_ntop4: "length (ntop4 a) \<le> 15"
  using length_show_octet [of "a ! 0"] length_show_octet [of "a ! 1"] length_show_octet [of "a ! 2"]
    length_show_octet [of "a ! 3"]
  by (simp add: ntop4_def)

lemma ntop4_no_colon: "CHR '':'' \<notin> set (ntop4 a)"
  by (simp add: ntop4_def show_nat_no_sep)

subsection \<open>Properties\<close>

text \<open>C31. Text and address. An \<open>InetAddress\<close> constructed from the dotted text of any IPv4 address and any
  port has the family \<open>AF_INET\<close>, gives back that port and address, prints as that text, and prints with its
  port as the text, a colon and the port in decimal, on hosts of both byte orders.\<close>

theorem inet_address_roundtrip:
  assumes "length a = 4" and "length old = 28"
  shows "family e (InetAddress_ip pton6 e old (ntop4 a) p False) = AF_INET \<and>
     port e (InetAddress_ip pton6 e old (ntop4 a) p False) = p \<and>
     ipv4NetEdian e (InetAddress_ip pton6 e old (ntop4 a) p False) = Inr (of_nat (mem_load e a)) \<and>
     InetAddress_toIpStr ntop6 e (InetAddress_ip pton6 e old (ntop4 a) p False) = ntop4 a \<and>
     InetAddress_toIpPortStr ntop6 e (InetAddress_ip pton6 e old (ntop4 a) p False) =
       ntop4 a @ '':'' @ show_nat (unat p)"
proof -
  let ?z = "put_bytes 0 (replicate 16 (CHR 0x00)) old"
  let ?x = "InetAddress_ip pton6 e old (ntop4 a) p False"
  have x: "?x = put_bytes 4 a (put_bytes 2 (mem_store e 2 (unat (hostToNetwork16 e p)))
      (put_bytes 0 (mem_store e 2 AF_INET) ?z))"
    by (simp add: InetAddress_ip_def ntop4_no_colon fromIpPortStr4_def pton4_ntop4 [OF assms(1)] set_port_def
        set_family_def)
  have z: "length ?z = 28" using assms(2) by (simp add: length_put_bytes)
  have fam: "family e ?x = AF_INET"
    using z assms(1) unfolding x by (simp add: family_def bytes_simps load_store_family AF_INET_def)
  have prt: "port e ?x = p"
    using z assms(1) unfolding x
    by (simp add: port_def portNetEdian_def bytes_simps load_store16 network_host_roundtrip)
  have addr: "get_bytes 4 4 ?x = a" using z assms(1) unfolding x by (simp add: bytes_simps)
  have "length (show_nat (unat p)) \<le> 5"
    using unsigned_less [of p, where ?'a = nat] by (intro length_show_nat) simp_all
  with fam prt addr length_ntop4 [of a] show ?thesis
    by (simp add: ipv4NetEdian_def InetAddress_toIpStr_def InetAddress_toIpPortStr_def sockets_toIpStr_def
        sockets_toIpPortStr_def inet_put_def snprintf_def AF_INET_def AF_INET6_def Let_def)
qed

theorem inet_address_roundtrip_witness:
  "InetAddress_toIpPortStr (\<lambda>_. []) LittleEndian
     (InetAddress_ip (\<lambda>_. None) LittleEndian zero_addr ''10.0.0.1'' 80 False) = ''10.0.0.1:80''"
proof -
  have "ntop4 [CHR 0x0A, CHR 0x00, CHR 0x00, CHR 0x01] = ''10.0.0.1''" "show_nat (unat (80 :: 16 word)) = ''80''"
    by code_simp+
  with inet_address_roundtrip [of "[CHR 0x0A, CHR 0x00, CHR 0x00, CHR 0x01]" zero_addr LittleEndian "\<lambda>_. None" 80 "\<lambda>_. []"]
  show ?thesis by (simp add: zero_addr_def)
qed

text \<open>The address for loopback only, on a little-endian host: \<open>INADDR_LOOPBACK\<close> is not converted.\<close>

lemma loopback_reversed:
  "InetAddress_toIpStr ntop6 LittleEndian (InetAddress_port LittleEndian p True False) = ''1.0.0.127''"
proof -
  let ?x = "InetAddress_port LittleEndian p True False"
  have x: "?x = put_bytes 2 (mem_store LittleEndian 2 (unat (hostToNetwork16 LittleEndian p)))
      (put_bytes 4 (mem_store LittleEndian 4 INADDR_LOOPBACK) (put_bytes 0 (mem_store LittleEndian 2 AF_INET) zero_addr))"
    by (simp add: InetAddress_port_def set_port_def set_family_def)
  have len: "length zero_addr = 28" by (simp add: zero_addr_def)
  have "family LittleEndian ?x = AF_INET" "get_bytes 4 4 ?x = mem_store LittleEndian 4 INADDR_LOOPBACK"
    using len unfolding x by (simp_all add: family_def bytes_simps load_store_family AF_INET_def)
  moreover have "mem_store LittleEndian 4 INADDR_LOOPBACK = [CHR 0x01, CHR 0x00, CHR 0x00, CHR 0x7F]"
  proof -
    let ?cs = "[CHR 0x01, CHR 0x00, CHR 0x00, CHR 0x7F]"
    have "length ?cs = 4" "le_value ?cs = INADDR_LOOPBACK" by (simp_all add: INADDR_LOOPBACK_def)
    with le_bytes_le_value [of ?cs] show ?thesis by (simp only: mem_store_def byte_order.case)
  qed
  moreover have "ntop4 [CHR 0x01, CHR 0x00, CHR 0x00, CHR 0x7F] = ''1.0.0.127''" by code_simp
  ultimately show ?thesis by (simp add: InetAddress_toIpStr_def sockets_toIpStr_def inet_put_def)
qed

end
