(* ===== verification/Connector.thy ===== *)
theory Connector
  imports EventLoop Sockets
begin

text \<open>
  Outgoing connections: net/Connector.h and net/Connector.cpp, and on top of it
  include/libfm/fmnet/TcpClient.h and net/TcpClient.cpp.

  \<^item> A connector extends the record of its loop; its channel is an address in the loop's heap. The lambdas
    queued in the loop are the values of \<open>client_functor\<close>; a call of \<open>runAfter\<close> is recorded in
    \<open>retry_timers\<close> with its delay, which the code gives in microseconds.
  \<^item> The outcome of \<open>socket\<close> and \<open>connect\<close> and the address of the new channel form a \<open>connect_outcome\<close>; the
    results of \<open>getSocketError\<close> and \<open>isSelfConnect\<close> are arguments.
  \<^item> The connection of a client is an object with an identity; the calls made on it are recorded.
\<close>

datatype State = kDisconnected | kConnecting | kConnected

datatype client_functor = StartF | StopF | ResetF | DestroyedF addr | DestroyedRefF | SetCloseF addr

datatype connect_errno =
    C_OK | C_EINPROGRESS | C_EINTR | C_EISCONN
  | C_EAGAIN | C_EADDRINUSE | C_EADDRNOTAVAIL | C_ECONNREFUSED | C_ENETUNREACH
  | C_EACCES | C_EPERM | C_EAFNOSUPPORT | C_EALREADY | C_EBADF | C_EFAULT | C_ENOTSOCK | C_Other

type_synonym connect_outcome = "int \<times> connect_errno \<times> addr"

record Connector = "client_functor EventLoop" +
  server_address :: InetAddress
  connect_flag :: bool
  connector_state :: State
  connector_channel :: "addr option"
  retry_delay_ms :: int
  retry_timers :: "int list"   \<comment> \<open>delays of the pending timers, in microseconds\<close>
  closed_fds :: "int list"
  handed :: "int list"         \<comment> \<open>sockets passed to \<open>new_connection_callback_\<close>\<close>

definition kMaxRetryDelayMs :: int where "kMaxRetryDelayMs = 30 * 1000"
definition kInitRetryDelayMs :: int where "kInitRetryDelayMs = 500"

definition Connector_new :: "InetAddress \<Rightarrow> client_functor EventLoop \<Rightarrow> Connector" where
  "Connector_new a l =
     EventLoop.EventLoop.extend l (Connector.Connector.fields a False kDisconnected None kInitRetryDelayMs [] [] [])"

definition Connector_destroy :: "'w Connector_scheme \<Rightarrow> unit result" where
  "Connector_destroy w = assert_c (connector_channel w = None) (Inr ())"

definition Connector_setState :: "State \<Rightarrow> 'w Connector_scheme \<Rightarrow> 'w Connector_scheme" where
  "Connector_setState s w = w\<lparr>connector_state := s\<rparr>"

definition close_fd :: "int \<Rightarrow> 'w Connector_scheme \<Rightarrow> 'w Connector_scheme" where
  "close_fd fd w = w\<lparr>closed_fds := closed_fds w @ [fd]\<rparr>"

definition retry :: "int \<Rightarrow> 'w Connector_scheme \<Rightarrow> 'w Connector_scheme" where
  "retry sockfd w =
     (let w1 = Connector_setState kDisconnected (close_fd sockfd w)
      in if connect_flag w1
         then w1\<lparr>retry_timers := retry_timers w1 @ [retry_delay_ms w1],
                 retry_delay_ms := min (retry_delay_ms w1 * 2) kMaxRetryDelayMs\<rparr>
         else w1)"

definition connecting :: "int \<Rightarrow> addr \<Rightarrow> 'w Connector_scheme \<Rightarrow> 'w Connector_scheme result" where
  "connecting sockfd c w =
     (let w1 = Connector_setState kConnecting w
      in assert_c (connector_channel w1 = None)
           (Channel_change EnableWriting c
             ((set_chan c (Channel_new sockfd\<lparr>write_callback := True, error_callback := True\<rparr>) w1)
                \<lparr>connector_channel := Some c\<rparr>)))"

definition connect :: "connect_outcome \<Rightarrow> 'w Connector_scheme \<Rightarrow> 'w Connector_scheme result" where
  "connect oc w =
     (case oc of (fd, saved_errno, c) \<Rightarrow>
       result_bind (createNonblockingSocketOrDie fd) (\<lambda>sockfd.
         if saved_errno \<in> {C_OK, C_EINPROGRESS, C_EINTR, C_EISCONN} then connecting sockfd c w
         else if saved_errno \<in> {C_EAGAIN, C_EADDRINUSE, C_EADDRNOTAVAIL, C_ECONNREFUSED, C_ENETUNREACH}
         then Inr (retry sockfd w)
         else Inr (close_fd sockfd w)))"

definition startInLoop :: "connect_outcome \<Rightarrow> 'w Connector_scheme \<Rightarrow> 'w Connector_scheme result" where
  "startInLoop oc w =
     assertInLoopThread w
       (assert_c (connector_state w = kDisconnected) (if connect_flag w then connect oc w else Inr w))"

definition Connector_start :: "connect_outcome \<Rightarrow> 'w Connector_scheme \<Rightarrow> 'w Connector_scheme result" where
  "Connector_start oc w =
     (let w1 = w\<lparr>connect_flag := True\<rparr>
      in if isInLoopThread w1 then startInLoop oc w1 else Inr (queueInLoop StartF w1))"

definition Connector_restart :: "connect_outcome \<Rightarrow> 'w Connector_scheme \<Rightarrow> 'w Connector_scheme result" where
  "Connector_restart oc w =
     assertInLoopThread w
       (startInLoop oc ((Connector_setState kDisconnected w)\<lparr>retry_delay_ms := kInitRetryDelayMs, connect_flag := True\<rparr>))"

definition removeAndResetChannel :: "'w Connector_scheme \<Rightarrow> (int \<times> 'w Connector_scheme) result" where
  "removeAndResetChannel w =
     (case connector_channel w of
        None \<Rightarrow> Inl NullCallback
      | Some c \<Rightarrow>
          result_bind (Channel_change DisableAll c w) (\<lambda>w1.
          result_bind (Channel_remove c w1) (\<lambda>w2.
          result_bind (chan c w2) (\<lambda>ch. Inr (ch_fd ch, queueInLoop ResetF w2)))))"

definition resetChannel :: "'w Connector_scheme \<Rightarrow> 'w Connector_scheme result" where
  "resetChannel w =
     (case connector_channel w of
        None \<Rightarrow> Inr w
      | Some c \<Rightarrow> result_bind (Channel_destroy c w) (\<lambda>w1. Inr (w1\<lparr>connector_channel := None\<rparr>)))"

definition stopInLoop :: "'w Connector_scheme \<Rightarrow> 'w Connector_scheme result" where
  "stopInLoop w =
     assertInLoopThread w
       (if connector_state w = kConnecting
        then result_bind (removeAndResetChannel (Connector_setState kDisconnected w)) (\<lambda>(sockfd, w1). Inr (retry sockfd w1))
        else Inr w)"

definition Connector_stop :: "'w Connector_scheme \<Rightarrow> 'w Connector_scheme" where
  "Connector_stop w = queueInLoop StopF (w\<lparr>connect_flag := False\<rparr>)"

text \<open>\<open>cb\<close> is \<open>new_connection_callback_\<close>, \<open>err\<close> the value of \<open>SO_ERROR\<close>.\<close>

definition Connector_handleWrite ::
  "(int \<Rightarrow> 'w Connector_scheme \<Rightarrow> 'w Connector_scheme result) \<Rightarrow> int \<Rightarrow> bool \<Rightarrow> 'w Connector_scheme \<Rightarrow> 'w Connector_scheme result" where
  "Connector_handleWrite cb err selfConnect w =
     (if connector_state w = kConnecting
      then result_bind (removeAndResetChannel w) (\<lambda>(sockfd, w1).
        if err \<noteq> 0 then Inr (retry sockfd w1)
        else if selfConnect then Inr (retry sockfd w1)
        else let w2 = Connector_setState kConnected w1
             in if connect_flag w2 then cb sockfd w2 else Inr (close_fd sockfd w2))
      else assert_c (connector_state w = kDisconnected) (Inr w))"

definition Connector_handleError :: "'w Connector_scheme \<Rightarrow> 'w Connector_scheme result" where
  "Connector_handleError w =
     (if connector_state w = kConnecting
      then result_bind (removeAndResetChannel w) (\<lambda>(sockfd, w1). Inr (retry sockfd w1))
      else Inr w)"

subsection \<open>TcpClient\<close>

datatype client_call = CallEstablished | CallShutdown | CallForceClose | CallDestroyed | CallSetClose

record TcpClient = Connector +
  client_name :: string
  retry_flag :: bool
  client_connect :: bool
  next_connid :: int
  connection :: "addr option"
  conn_names :: "addr \<rightharpoonup> string"
  conn_calls :: "(addr \<times> client_call) list"

definition TcpClient_new :: "InetAddress \<Rightarrow> string \<Rightarrow> client_functor EventLoop \<Rightarrow> TcpClient" where
  "TcpClient_new a name l =
     Connector.Connector.extend (Connector_new a l) (TcpClient.fields name False True 1 None Map.empty [])"

definition call_conn :: "addr \<Rightarrow> client_call \<Rightarrow> TcpClient \<Rightarrow> TcpClient" where
  "call_conn c k w = w\<lparr>conn_calls := conn_calls w @ [(c, k)]\<rparr>"

definition TcpClient_connect :: "connect_outcome \<Rightarrow> TcpClient \<Rightarrow> TcpClient result" where
  "TcpClient_connect oc w = Connector_start oc (w\<lparr>client_connect := True\<rparr>)"

definition TcpClient_disconnect :: "TcpClient \<Rightarrow> TcpClient" where
  "TcpClient_disconnect w =
     (let w1 = w\<lparr>client_connect := False\<rparr>
      in case connection w1 of None \<Rightarrow> w1 | Some c \<Rightarrow> call_conn c CallShutdown w1)"

definition TcpClient_stop :: "TcpClient \<Rightarrow> TcpClient" where
  "TcpClient_stop w = Connector_stop (w\<lparr>client_connect := False\<rparr>)"

definition enableRetry :: "TcpClient \<Rightarrow> TcpClient" where "enableRetry w = w\<lparr>retry_flag := True\<rparr>"

text \<open>\<open>newConnection\<close>: \<open>peer\<close> is the text of the peer's address, \<open>obj\<close> the new connection object.\<close>

definition TcpClient_newConnection :: "string \<Rightarrow> addr \<Rightarrow> int \<Rightarrow> TcpClient \<Rightarrow> TcpClient result" where
  "TcpClient_newConnection peer obj sockfd w =
     assertInLoopThread w
       (let buf = snprintf 32 ('':'' @ peer @ ''#'' @ show_int (next_connid w));
            w1 = w\<lparr>next_connid := next_connid w + 1, conn_names := (conn_names w)(obj \<mapsto> client_name w @ buf),
                   connection := Some obj, handed := handed w @ [sockfd]\<rparr>
        in Inr (call_conn obj CallEstablished w1))"

definition TcpClient_removeConnection :: "connect_outcome \<Rightarrow> addr \<Rightarrow> TcpClient \<Rightarrow> TcpClient result" where
  "TcpClient_removeConnection oc conn w =
     assertInLoopThread w
       (assert_c (connection w = Some conn)
         (let w1 = queueInLoop (DestroyedF conn) (w\<lparr>connection := None\<rparr>)
          in if retry_flag w1 \<and> client_connect w1 then Connector_restart oc w1 else Inr w1))"

text \<open>The destructor. The close callback it installs captures its parameter by reference
  in the lambda it queues (\<open>DestroyedRefF\<close>). \<open>unique\<close> is \<open>connection_.unique()\<close>.\<close>

definition TcpClient_destroy :: "bool \<Rightarrow> TcpClient \<Rightarrow> TcpClient" where
  "TcpClient_destroy unique w =
     (case connection w of
        Some c \<Rightarrow>
          (let w1 = (if isInLoopThread w then call_conn c CallSetClose w else queueInLoop (SetCloseF c) w)
           in if unique then call_conn c CallForceClose w1 else w1)
      | None \<Rightarrow> Connector_stop w)"

definition destroyed_close_callback :: "TcpClient \<Rightarrow> TcpClient" where
  "destroyed_close_callback w = queueInLoop DestroyedRefF w"

text \<open>The queued lambdas. The reference of \<open>DestroyedRefF\<close> is dead by the time it runs.\<close>

fun run_client_functor :: "connect_outcome \<Rightarrow> client_functor \<Rightarrow> TcpClient \<Rightarrow> TcpClient result" where
  "run_client_functor oc StartF w = startInLoop oc w"
| "run_client_functor oc StopF w = stopInLoop w"
| "run_client_functor oc ResetF w = resetChannel w"
| "run_client_functor oc (DestroyedF c) w = Inr (call_conn c CallDestroyed w)"
| "run_client_functor oc DestroyedRefF w = Inl UseAfterFree"
| "run_client_functor oc (SetCloseF c) w = Inr (call_conn c CallSetClose w)"

subsection \<open>The state machine of a connector\<close>

definition channel_gone :: "Connector \<Rightarrow> bool" where
  "channel_gone w \<longleftrightarrow> connector_channel w = None \<and> ResetF \<notin> set (pending_functors w)"

text \<open>The channel is unregistered and its reset queued.\<close>

definition channel_dying :: "Connector \<Rightarrow> bool" where
  "channel_dying w \<longleftrightarrow>
     (\<exists>c ch. connector_channel w = Some c \<and> chans w c = Some ch \<and> index ch = kNew \<and> \<not> event_handling ch \<and>
        channels w (ch_fd ch) \<noteq> Some c) \<and> count_list (pending_functors w) ResetF = 1"

text \<open>The channel is registered for the outcome of a connection attempt.\<close>

definition channel_busy :: "Connector \<Rightarrow> bool" where
  "channel_busy w \<longleftrightarrow>
     (\<exists>c ch. connector_channel w = Some c \<and> chans w c = Some ch \<and> \<not> event_handling ch \<and>
        channels w (ch_fd ch) = Some c) \<and> ResetF \<notin> set (pending_functors w)"

definition delay_ok :: "int \<Rightarrow> bool" where
  "delay_ok d \<longleftrightarrow> kInitRetryDelayMs \<le> d \<and> d \<le> kMaxRetryDelayMs"

definition connector_inv :: "Connector \<Rightarrow> bool" where
  "connector_inv w \<longleftrightarrow>
     EP_inv w \<and> delay_ok (retry_delay_ms w) \<and> list_all delay_ok (retry_timers w) \<and>
     StartF \<notin> set (pending_functors w) \<and>
     (case connector_state w of
        kConnecting \<Rightarrow> channel_busy w \<and> retry_timers w = []
      | kDisconnected \<Rightarrow> (channel_gone w \<or> channel_dying w) \<and> length (retry_timers w) \<le> 1
      | kConnected \<Rightarrow> (channel_gone w \<or> channel_dying w) \<and> retry_timers w = [])"

lemma queueInLoop_connector [simp]:
  fixes w :: Connector
  shows "chans (queueInLoop f w) = chans w" "channels (queueInLoop f w) = channels w"
    "ctl_log (queueInLoop f w) = ctl_log w" "events_size (queueInLoop f w) = events_size w"
    "loop_thread (queueInLoop f w) = loop_thread w" "current_thread (queueInLoop f w) = current_thread w"
    "connector_state (queueInLoop f w) = connector_state w" "connector_channel (queueInLoop f w) = connector_channel w"
    "connect_flag (queueInLoop f w) = connect_flag w" "retry_delay_ms (queueInLoop f w) = retry_delay_ms w"
    "retry_timers (queueInLoop f w) = retry_timers w" "handed (queueInLoop f w) = handed w"
    "closed_fds (queueInLoop f w) = closed_fds w"
    "pending_functors (queueInLoop f w) = pending_functors w @ [f]"
  by (simp_all add: queueInLoop_def push_functor_def wakeup_def Let_def)

lemma EP_inv_queue [simp]: "EP_inv (queueInLoop f w) = EP_inv w" for w :: Connector
  by (rule EP_inv_cong) simp_all

lemma EP_inv_fields [simp]:
  fixes w :: Connector
  shows "EP_inv (w\<lparr>connector_state := s\<rparr>) = EP_inv w" "EP_inv (w\<lparr>closed_fds := x\<rparr>) = EP_inv w"
    "EP_inv (w\<lparr>connect_flag := b\<rparr>) = EP_inv w" "EP_inv (w\<lparr>handed := x\<rparr>) = EP_inv w"
    "EP_inv (w\<lparr>retry_timers := ts\<rparr>) = EP_inv w" "EP_inv (w\<lparr>retry_delay_ms := d\<rparr>) = EP_inv w"
    "EP_inv (w\<lparr>connector_channel := c\<rparr>) = EP_inv w" "EP_inv (w\<lparr>pending_functors := fs\<rparr>) = EP_inv w"
  by (rule EP_inv_cong; simp)+

lemma in_loop_connector: "EP_inv w \<Longrightarrow> assertInLoopThread w k = k" for w :: Connector
  using EP_invD(5) [of w] by (simp add: assertInLoopThread_def)

lemma retry_fields:
  fixes w :: Connector
  shows "chans (retry fd w) = chans w" "channels (retry fd w) = channels w" "ctl_log (retry fd w) = ctl_log w"
    "events_size (retry fd w) = events_size w" "loop_thread (retry fd w) = loop_thread w"
    "current_thread (retry fd w) = current_thread w" "connector_state (retry fd w) = kDisconnected"
    "connector_channel (retry fd w) = connector_channel w" "pending_functors (retry fd w) = pending_functors w"
    "handed (retry fd w) = handed w" "connect_flag (retry fd w) = connect_flag w"
    "retry_timers (retry fd w) = retry_timers w @ (if connect_flag w then [retry_delay_ms w] else [])"
    "retry_delay_ms (retry fd w) = (if connect_flag w then min (retry_delay_ms w * 2) kMaxRetryDelayMs else retry_delay_ms w)"
  by (simp_all add: retry_def Connector_setState_def close_fd_def Let_def)

lemma retry_inv:
  assumes "EP_inv w" and "delay_ok (retry_delay_ms w)" and "retry_timers w = []" and "channel_gone w \<or> channel_dying w"
    and "StartF \<notin> set (pending_functors w)"
  shows "connector_inv (retry fd w)"
proof -
  have "EP_inv (retry fd w)" using assms(1) EP_inv_cong [of "retry fd w" w] by (simp add: retry_fields)
  with assms(2-) show ?thesis
    by (auto simp: connector_inv_def retry_fields channel_gone_def channel_dying_def delay_ok_def
        kMaxRetryDelayMs_def kInitRetryDelayMs_def)
qed

lemma connecting_inv:
  assumes "EP_inv w" and "delay_ok (retry_delay_ms w)" and "retry_timers w = []" and "channel_gone w"
    and "chans w c = None" and "channels w fd = None" and "StartF \<notin> set (pending_functors w)"
  shows "\<exists>w'. connecting fd c w = Inr w' \<and> connector_inv w' \<and> handed w' = handed w"
proof -
  let ?ch = "Channel_new fd\<lparr>write_callback := True, error_callback := True\<rparr>"
  let ?w1 = "w\<lparr>connector_state := kConnecting\<rparr>"
  let ?w = "(set_chan c ?ch ?w1)\<lparr>connector_channel := Some c\<rparr>"
  have "EP_inv (Channel_create c fd ?w1)" using EP_inv_create [of ?w1 c fd] assms(1,5) by simp
  then have "EP_inv (set_chan c ?ch (Channel_create c fd ?w1))"
    by (rule EP_inv_set_chan) (simp_all add: Channel_create_def)
  then have inv: "EP_inv ?w" by (simp add: Channel_create_def)
  have ch: "chans ?w c = Some ?ch" "channels ?w (ch_fd ?ch) = None \<or> channels ?w (ch_fd ?ch) = Some c"
    using assms(6) by (simp_all add: Channel_new_def)
  let ?w' = "changed EnableWriting c ?ch ?w"
  have "connecting fd c w = Inr ?w'"
    using Channel_change_eq [OF inv ch, of EnableWriting] assms(4)
    by (simp add: connecting_def Connector_setState_def channel_gone_def)
  moreover have "EP_inv ?w'" by (rule EP_inv_changed [OF inv ch])
  moreover have "channel_busy ?w'"
    using assms(4) by (simp add: channel_busy_def channel_gone_def changed_def Let_def set_chan_def) (simp add: Channel_new_def)
  moreover have "handed ?w' = handed w" by (simp add: changed_def Let_def set_chan_def)
  ultimately show ?thesis
    using assms(2,3,7) by (simp add: connector_inv_def changed_def Let_def set_chan_def)
qed

lemma removeAndReset_ok:
  assumes "EP_inv w" and "channel_busy w" and "\<And>c. connector_channel w = Some c \<Longrightarrow> may_remove c w"
  obtains fd cs ds lg where "removeAndResetChannel w = Inr (fd, queueInLoop ResetF (w\<lparr>chans := cs, channels := ds, ctl_log := lg\<rparr>))"
    and "EP_inv (queueInLoop ResetF (w\<lparr>chans := cs, channels := ds, ctl_log := lg\<rparr>))"
    and "channel_dying (queueInLoop ResetF (w\<lparr>chans := cs, channels := ds, ctl_log := lg\<rparr>))"
proof -
  obtain c ch where c: "connector_channel w = Some c" "chans w c = Some ch" "\<not> event_handling ch"
    "channels w (ch_fd ch) = Some c" and pf: "ResetF \<notin> set (pending_functors w)"
    using assms(2) by (auto simp: channel_busy_def)
  let ?w1 = "changed DisableAll c ch w"
  have inv1: "EP_inv ?w1" and ch1: "Channel_change DisableAll c w = Inr ?w1"
    using EP_inv_changed [OF assms(1) c(2)] Channel_change_eq [OF assms(1) c(2)] c(4) by simp_all
  obtain ch' where ch': "chans ?w1 c = Some ch'" "ch_fd ch' = ch_fd ch" "isNoneEvent ch'" "index ch' \<noteq> kNew"
    "\<not> event_handling ch'"
    using c(3) by (simp add: changed_def Let_def isNoneEvent_def index_consts)
  have may: "may_remove c ?w1" using assms(3) [OF c(1)] by (simp add: may_remove_def changed_def Let_def)
  let ?w2 = "unregistered c ch' ?w1"
  note rm = Channel_remove_eq [OF inv1 ch'(1,4,3) may] EP_inv_unregistered [OF inv1 ch'(1,4,3)]
  have "\<exists>cs ds lg. ?w2 = w\<lparr>chans := cs, channels := ds, ctl_log := lg\<rparr>"
    by (auto simp: changed_def unregistered_def Let_def)
  moreover have "chans ?w2 c = Some (ch'\<lparr>added_to_loop := False, index := kNew\<rparr>)" "channels ?w2 (ch_fd ch') = None"
    by (simp_all add: unregistered_def)
  moreover have "removeAndResetChannel w = Inr (ch_fd ch', queueInLoop ResetF ?w2)"
    using c(1) ch1 rm(1) by (simp add: removeAndResetChannel_def chan_def) (simp add: unregistered_def)
  moreover have "channel_dying (queueInLoop ResetF ?w2)"
    using c(1) pf ch'(2,5)
    by (simp add: channel_dying_def count_list_0_iff) (simp add: unregistered_def changed_def Let_def count_list_0_iff)
  ultimately show ?thesis using that rm(2) by (metis EP_inv_queue)
qed

text \<open>What can happen to a connector in its loop thread: calls, the outcome of an attempt on its channel, the
  expiry of the retry timer and the functors of the queue, one after the other.\<close>

datatype connector_event =
    CStart connect_outcome | CStop | CWritable int bool | CError | CTimer connect_outcome | CFunctor

definition connector_cb :: "int \<Rightarrow> Connector \<Rightarrow> Connector result" where
  "connector_cb fd w = Inr (w\<lparr>handed := handed w @ [fd]\<rparr>)"

fun connector_step :: "connector_event \<Rightarrow> Connector \<Rightarrow> Connector result" where
  "connector_step (CStart oc) w = Connector_start oc w"
| "connector_step CStop w = Inr (Connector_stop w)"
| "connector_step (CWritable err self) w = Connector_handleWrite connector_cb err self w"
| "connector_step CError w = Connector_handleError w"
| "connector_step (CTimer oc) w = startInLoop oc (w\<lparr>retry_timers := tl (retry_timers w)\<rparr>)"
| "connector_step CFunctor w =
     (case pending_functors w of
        [] \<Rightarrow> Inr w
      | f # fs \<Rightarrow>
          (let w' = w\<lparr>pending_functors := fs\<rparr>
           in case f of StopF \<Rightarrow> stopInLoop w' | ResetF \<Rightarrow> resetChannel w' | _ \<Rightarrow> Inr w'))"

definition outcome_ok :: "connect_outcome \<Rightarrow> Connector \<Rightarrow> bool" where
  "outcome_ok oc w = (case oc of (fd, e, c) \<Rightarrow> 0 \<le> fd \<and> chans w c = None \<and> channels w fd = None)"

definition own_removal :: "Connector \<Rightarrow> bool" where
  "own_removal w = (case connector_channel w of None \<Rightarrow> True | Some c \<Rightarrow> may_remove c w)"

text \<open>\<open>start\<close> is called on a connector at rest, the channel reports only while it is registered, the timer
  runs after the functors of the turn that set it, and a new socket and channel are fresh.\<close>

fun connector_event_ok :: "connector_event \<Rightarrow> Connector \<Rightarrow> bool" where
  "connector_event_ok (CStart oc) w =
     (connector_state w = kDisconnected \<and> retry_timers w = [] \<and> channel_gone w \<and> outcome_ok oc w)"
| "connector_event_ok CStop w = True"
| "connector_event_ok (CWritable err self) w = (connector_state w = kConnecting \<and> own_removal w)"
| "connector_event_ok CError w = (connector_state w = kConnecting \<and> own_removal w)"
| "connector_event_ok (CTimer oc) w =
     (retry_timers w \<noteq> [] \<and> ResetF \<notin> set (pending_functors w) \<and> outcome_ok oc w)"
| "connector_event_ok CFunctor w = own_removal w"

lemma connect_inv:
  assumes "EP_inv w" and "delay_ok (retry_delay_ms w)" and "retry_timers w = []" and "channel_gone w"
    and "StartF \<notin> set (pending_functors w)" and "outcome_ok oc w" and "connector_state w = kDisconnected"
  shows "\<exists>w'. connect oc w = Inr w' \<and> connector_inv w'"
proof -
  obtain fd e c where oc: "oc = (fd, e, c)" by (cases oc)
  with assms(6) have fd: "0 \<le> fd" "chans w c = None" "channels w fd = None" by (simp_all add: outcome_ok_def)
  have "connector_inv (close_fd fd w)"
    using assms by (auto simp: connector_inv_def close_fd_def channel_gone_def)
  moreover have "connector_inv (retry fd w)" by (rule retry_inv) (use assms in auto)
  moreover have "\<exists>w'. connecting fd c w = Inr w' \<and> connector_inv w'"
    using connecting_inv [OF assms(1-4) fd(2,3) assms(5)] by blast
  ultimately show ?thesis
    using fd(1) unfolding oc connect_def by (auto simp: createNonblockingSocketOrDie_def)
qed

lemma startInLoop_inv:
  assumes "connector_inv w" and "connector_state w = kDisconnected" and "retry_timers w = []" and "channel_gone w"
    and "outcome_ok oc w"
  shows "\<exists>w'. startInLoop oc w = Inr w' \<and> connector_inv w'"
proof -
  have "EP_inv w" using assms(1) by (simp add: connector_inv_def)
  then show ?thesis
    using connect_inv [of w oc] assms by (auto simp: startInLoop_def in_loop_connector connector_inv_def)
qed

lemma remove_then_inv:
  assumes "connector_inv w" and "connector_state w = kConnecting" and "own_removal w"
  obtains fd w1 where "removeAndResetChannel w = Inr (fd, w1)" "connector_state w1 = kConnecting"
    "EP_inv w1" "channel_dying w1" "delay_ok (retry_delay_ms w1)" "retry_timers w1 = []"
    "StartF \<notin> set (pending_functors w1)" "connect_flag w1 = connect_flag w" "handed w1 = handed w"
proof -
  have w: "EP_inv w" "channel_busy w" "delay_ok (retry_delay_ms w)" "retry_timers w = []" "StartF \<notin> set (pending_functors w)"
    using assms(1,2) by (simp_all add: connector_inv_def)
  have "\<And>c. connector_channel w = Some c \<Longrightarrow> may_remove c w" using assms(3) by (simp add: own_removal_def)
  then obtain fd cs ds lg where r:
    "removeAndResetChannel w = Inr (fd, queueInLoop ResetF (w\<lparr>chans := cs, channels := ds, ctl_log := lg\<rparr>))"
    "EP_inv (queueInLoop ResetF (w\<lparr>chans := cs, channels := ds, ctl_log := lg\<rparr>))"
    "channel_dying (queueInLoop ResetF (w\<lparr>chans := cs, channels := ds, ctl_log := lg\<rparr>))"
    by (rule removeAndReset_ok [OF w(1,2)])
  show ?thesis by (rule that [OF r(1) _ r(2,3)]) (use w assms(2) in simp_all)
qed

lemma stopInLoop_inv:
  assumes "connector_inv w" and "own_removal w"
  shows "\<exists>w'. stopInLoop w = Inr w' \<and> connector_inv w'"
proof (cases "connector_state w = kConnecting")
  case False
  with assms(1) show ?thesis by (auto simp: stopInLoop_def in_loop_connector connector_inv_def)
next
  case True
  let ?w = "Connector_setState kDisconnected w"
  have w: "EP_inv ?w" "channel_busy ?w" "delay_ok (retry_delay_ms ?w)" "retry_timers ?w = []"
    "StartF \<notin> set (pending_functors ?w)"
    using assms(1) True by (simp_all add: connector_inv_def Connector_setState_def channel_busy_def)
  have "\<And>c. connector_channel ?w = Some c \<Longrightarrow> may_remove c ?w"
    using assms(2) by (simp add: own_removal_def Connector_setState_def may_remove_def)
  then obtain fd cs ds lg where r:
    "removeAndResetChannel ?w = Inr (fd, queueInLoop ResetF (?w\<lparr>chans := cs, channels := ds, ctl_log := lg\<rparr>))"
    "EP_inv (queueInLoop ResetF (?w\<lparr>chans := cs, channels := ds, ctl_log := lg\<rparr>))"
    "channel_dying (queueInLoop ResetF (?w\<lparr>chans := cs, channels := ds, ctl_log := lg\<rparr>))"
    by (rule removeAndReset_ok [OF w(1,2)])
  have "connector_inv (retry fd (queueInLoop ResetF (?w\<lparr>chans := cs, channels := ds, ctl_log := lg\<rparr>)))"
    by (rule retry_inv) (use w r in simp_all)
  with r(1) True assms(1) show ?thesis by (simp add: stopInLoop_def in_loop_connector connector_inv_def)
qed

lemma resetChannel_inv:
  assumes "connector_inv w" and "pending_functors w = ResetF # fs"
  shows "\<exists>w'. resetChannel (w\<lparr>pending_functors := fs\<rparr>) = Inr w' \<and> connector_inv w'"
proof -
  have dying: "channel_dying w" and st: "connector_state w \<noteq> kConnecting" and ep: "EP_inv w"
    using assms by (auto simp: connector_inv_def channel_gone_def channel_busy_def split: State.splits)
  then obtain c ch where c: "connector_channel w = Some c" "chans w c = Some ch" "index ch = kNew"
    "\<not> event_handling ch" "channels w (ch_fd ch) \<noteq> Some c" and one: "ResetF \<notin> set fs"
    using assms(2) by (auto simp: channel_dying_def count_list_0_iff)
  let ?w = "w\<lparr>pending_functors := fs\<rparr>"
  have "\<not> added_to_loop ch" using EP_invD(4) [OF ep c(2)] c(3) by (simp add: chan_ok_def)
  then have d: "Channel_destroy c ?w = Inr (?w\<lparr>chans := (chans w)(c := None)\<rparr>)"
    using c EP_invD(5) [OF ep]
    by (auto simp: Channel_destroy_def EventLoop_hasChannel_def hasChannel_def assertInLoopThread_def chan_def
        split: option.split)
  have "EP_inv (?w\<lparr>chans := (chans w)(c := None)\<rparr>)" by (rule EP_inv_destroy [OF _ d]) (simp add: ep)
  with d c(1) one st assms show ?thesis
    by (auto simp: resetChannel_def connector_inv_def channel_gone_def split: State.splits)
qed

lemma connector_inv_pending:
  "connector_inv w \<Longrightarrow> pending_functors w = f # fs \<Longrightarrow> f \<noteq> ResetF \<Longrightarrow> connector_inv (w\<lparr>pending_functors := fs\<rparr>)"
  by (auto simp: connector_inv_def channel_gone_def channel_dying_def channel_busy_def split: State.splits)

lemma connector_step_inv:
  assumes inv: "connector_inv w" and ok: "connector_event_ok ev w"
  shows "\<exists>w'. connector_step ev w = Inr w' \<and> connector_inv w'"
proof (cases ev)
  case (CStart oc)
  let ?w = "w\<lparr>connect_flag := True\<rparr>"
  have "isInLoopThread ?w" using inv EP_invD(5) [of w] by (simp add: connector_inv_def isInLoopThread_def)
  moreover have "connector_inv ?w"
    using inv CStart ok by (simp add: connector_inv_def channel_gone_def)
  moreover have "outcome_ok oc ?w" "channel_gone ?w" using CStart ok by (simp_all add: outcome_ok_def channel_gone_def)
  ultimately show ?thesis
    using startInLoop_inv [of ?w oc] CStart ok by (simp add: Connector_start_def Let_def)
next
  case CStop
  have "connector_inv (Connector_stop w)"
    using inv unfolding connector_inv_def Connector_stop_def
    by (auto simp: channel_gone_def channel_dying_def channel_busy_def split: State.splits)
  with CStop show ?thesis by simp
next
  case (CWritable err self)
  then have st: "connector_state w = kConnecting" "own_removal w" using ok by simp_all
  obtain fd w1 where w1: "removeAndResetChannel w = Inr (fd, w1)" "connector_state w1 = kConnecting"
    "EP_inv w1" "channel_dying w1" "delay_ok (retry_delay_ms w1)" "retry_timers w1 = []"
    "StartF \<notin> set (pending_functors w1)" "connect_flag w1 = connect_flag w" "handed w1 = handed w"
    by (rule remove_then_inv [OF inv st])
  have re: "connector_inv (retry fd w1)" by (rule retry_inv) (use w1 in simp_all)
  have "connector_inv ((Connector_setState kConnected w1)\<lparr>handed := x\<rparr>)" "connector_inv (close_fd fd (Connector_setState kConnected w1))" for x
    using w1 by (simp_all add: connector_inv_def Connector_setState_def close_fd_def channel_dying_def)
  with re w1(1) st CWritable show ?thesis by (simp add: Connector_handleWrite_def connector_cb_def Let_def)
next
  case CError
  then have st: "connector_state w = kConnecting" "own_removal w" using ok by simp_all
  obtain fd w1 where w1: "removeAndResetChannel w = Inr (fd, w1)" "connector_state w1 = kConnecting"
    "EP_inv w1" "channel_dying w1" "delay_ok (retry_delay_ms w1)" "retry_timers w1 = []"
    "StartF \<notin> set (pending_functors w1)" "connect_flag w1 = connect_flag w" "handed w1 = handed w"
    by (rule remove_then_inv [OF inv st])
  have "connector_inv (retry fd w1)" by (rule retry_inv) (use w1 in simp_all)
  with w1(1) st CError show ?thesis by (simp add: Connector_handleError_def)
next
  case (CTimer oc)
  let ?w = "w\<lparr>retry_timers := tl (retry_timers w)\<rparr>"
  have t: "retry_timers w \<noteq> []" "ResetF \<notin> set (pending_functors w)" "outcome_ok oc w" using CTimer ok by simp_all
  have w: "connector_state w = kDisconnected" "length (retry_timers w) = 1" "channel_gone w"
    using inv t by (auto simp: connector_inv_def channel_dying_def count_list_0_iff split: State.splits simp: Suc_length_conv
        dest: le_antisym) (auto simp: neq_Nil_conv le_Suc_eq)
  then have "retry_timers ?w = []" by (cases "retry_timers w") simp_all
  moreover have "connector_inv ?w" using inv w \<open>retry_timers ?w = []\<close> by (simp add: connector_inv_def channel_gone_def)
  ultimately show ?thesis
    using startInLoop_inv [of ?w oc] w t(3) CTimer by (simp add: outcome_ok_def channel_gone_def)
next
  case CFunctor
  show ?thesis
  proof (cases "pending_functors w")
    case Nil
    with CFunctor inv show ?thesis by simp
  next
    case (Cons f fs)
    let ?w = "w\<lparr>pending_functors := fs\<rparr>"
    have own: "own_removal ?w" using CFunctor ok by (simp add: own_removal_def may_remove_def split: option.splits)
    show ?thesis
    proof (cases "f = ResetF")
      case True
      with resetChannel_inv [OF inv] Cons CFunctor show ?thesis by simp
    next
      case False
      note inv' = connector_inv_pending [OF inv Cons False]
      from stopInLoop_inv [OF inv' own] inv' Cons CFunctor False show ?thesis
        by (cases f) (simp_all add: Let_def)
    qed
  qed
qed

abbreviation connector_run :: "Connector \<Rightarrow> Connector \<Rightarrow> bool" where
  "connector_run w0 \<equiv> machine_run connector_step connector_event_ok silent w0 []"

interpretation connector: safe_machine connector_step connector_event_ok connector_inv
  by unfold_locales (rule connector_step_inv)

lemma Connector_new_fields [simp]:
  "chans (Connector_new a l) = chans l" "channels (Connector_new a l) = channels l" "ctl_log (Connector_new a l) = ctl_log l"
  "events_size (Connector_new a l) = events_size l" "loop_thread (Connector_new a l) = loop_thread l"
  "current_thread (Connector_new a l) = current_thread l" "pending_functors (Connector_new a l) = pending_functors l"
  "connector_state (Connector_new a l) = kDisconnected" "connector_channel (Connector_new a l) = None"
  "retry_delay_ms (Connector_new a l) = kInitRetryDelayMs" "retry_timers (Connector_new a l) = []"
  by (simp_all add: Connector_new_def EventLoop.EventLoop.defs Connector.Connector.defs)

lemma Connector_new_inv:
  assumes "EP_inv l" and "pending_functors l = []"
  shows "connector_inv (Connector_new a l)"
  using assms EP_inv_cong [of "Connector_new a l" l]
  by (simp add: connector_inv_def channel_gone_def delay_ok_def kInitRetryDelayMs_def kMaxRetryDelayMs_def)

subsection \<open>Properties\<close>


definition demo_client_loop :: "client_functor EventLoop" where
  "demo_client_loop =
     \<lparr>chans = Map.empty, channels = Map.empty, events_size = 16, ctl_log = [], loop_thread = 1,
      current_thread = 1, loop_handling = False, active_channels = [], current_active_channel = None,
      looping = True, quit_flag = False, calling_pending_functors = False, iteration = 0,
      poll_return_time = 0, wakeup_channel = 9, pending_functors = [], eventfd = 0\<rparr>"


text \<open>The retry delay is meant in milliseconds but passed as microseconds. A timer that expires before the
  queued reset of the old channel has run fails the assertion in \<open>connecting\<close>.\<close>

lemma early_retry_aborts:
  assumes "EP_inv w" and "connector_state w = kDisconnected" and "connect_flag w" and "channel_dying w" and "0 \<le> fd"
  shows "connector_step (CTimer (fd, C_EINPROGRESS, c)) w = Inl AssertFailed"
  using assms by (auto simp: startInLoop_def in_loop_connector connect_def createNonblockingSocketOrDie_def connecting_def
      Connector_setState_def channel_dying_def)

end
