(* ===== verification/EventLoopThreads.thy ===== *)
theory EventLoopThreads
  imports Prelude
begin

text \<open>
  Threads that run event loops: include/libfm/fmnet/EventLoopThread.h, net/EventLoopThread.cpp,
  net/EventLoopThreadPool.h and net/EventLoopThreadPool.cpp.

  \<^item> A loop is named by a number (its address; in the theory of servers also the thread that runs it).
  \<^item> \<open>startLoop\<close> and \<open>threadFunc\<close> run in two threads that share \<open>loop_\<close> under a mutex. Each is cut into its
    critical sections; \<open>startLoop\<close> and \<open>EventLoopThread_destroy\<close> put them together in the order in which
    the other thread gets on while the caller waits.
  \<^item> \<open>exiting_\<close> is written by the destructor and read nowhere.
\<close>

subsection \<open>EventLoopThread\<close>

text \<open>The thread object: absent, or the place its function has reached. A \<open>std::thread\<close> that was not joined
  is joinable also after its function has returned.\<close>

datatype thread_status = NoThread | Created | Published | Looping | Returned | Joined

record EventLoopThread =
  elt_loop :: "nat option"
  exiting :: bool
  elt_thread :: thread_status
  loop_quit :: bool          \<comment> \<open>\<open>quit_\<close> of the loop\<close>

definition EventLoopThread_new :: EventLoopThread where
  "EventLoopThread_new = \<lparr>elt_loop = None, exiting = False, elt_thread = NoThread, loop_quit = False\<rparr>"

text \<open>The start of \<open>startLoop\<close>, and its wait: \<open>None\<close> while the predicate does not hold.\<close>

definition startLoop_begin :: "EventLoopThread \<Rightarrow> EventLoopThread result" where
  "startLoop_begin t = assert_c (elt_thread t = NoThread) (Inr (t\<lparr>elt_thread := Created\<rparr>))"

definition startLoop_wait :: "EventLoopThread \<Rightarrow> nat option" where
  "startLoop_wait t = elt_loop t"

text \<open>\<open>threadFunc\<close>: publishing the loop (at address \<open>l\<close>), entering \<open>loop()\<close>, which clears \<open>quit_\<close>, and the end,
  after \<open>loop()\<close> has returned.\<close>

definition threadFunc_publish :: "nat \<Rightarrow> EventLoopThread \<Rightarrow> EventLoopThread" where
  "threadFunc_publish l t = t\<lparr>elt_loop := Some l, elt_thread := Published, loop_quit := False\<rparr>"

definition threadFunc_enter :: "EventLoopThread \<Rightarrow> EventLoopThread" where
  "threadFunc_enter t = (if elt_thread t = Published then t\<lparr>elt_thread := Looping, loop_quit := False\<rparr> else t)"

definition threadFunc_end :: "EventLoopThread \<Rightarrow> EventLoopThread" where
  "threadFunc_end t = t\<lparr>elt_loop := None, elt_thread := Returned\<rparr>"

text \<open>\<open>startLoop\<close> with a thread that publishes its loop while the caller waits.\<close>

definition startLoop :: "nat \<Rightarrow> EventLoopThread \<Rightarrow> (nat \<times> EventLoopThread) result" where
  "startLoop l t =
     result_bind (startLoop_begin t) (\<lambda>t1.
       let t2 = threadFunc_publish l t1
       in case startLoop_wait t2 of None \<Rightarrow> Inl NullCallback | Some x \<Rightarrow> Inr (x, t2))"

text \<open>The destructor, first half: the test of \<open>loop_\<close> and \<open>quit\<close>; the flag tells whether it goes on to join.
  Second half: \<open>join\<close> waits until the function has returned; then the members are destroyed, and the
  destructor of a joinable \<open>std::thread\<close> calls \<open>std::terminate\<close>.\<close>

definition destroy_begin :: "EventLoopThread \<Rightarrow> bool \<times> EventLoopThread" where
  "destroy_begin t =
     (let t1 = t\<lparr>exiting := True\<rparr>
      in case elt_loop t1 of None \<Rightarrow> (False, t1) | Some l \<Rightarrow> (True, t1\<lparr>loop_quit := True\<rparr>))"

definition join :: "EventLoopThread \<Rightarrow> EventLoopThread option" where
  "join t = (if elt_thread t = Returned then Some (t\<lparr>elt_thread := Joined\<rparr>) else None)"

definition destroy_members :: "EventLoopThread \<Rightarrow> unit result" where
  "destroy_members t = check Terminated (elt_thread t = NoThread \<or> elt_thread t = Joined) (Inr ())"

text \<open>What the thread goes on to do: enter the loop if it has not, and leave it if it was told to.\<close>

definition threadFunc_rest :: "EventLoopThread \<Rightarrow> EventLoopThread" where
  "threadFunc_rest t =
     (let t1 = threadFunc_enter t in if elt_thread t1 = Looping \<and> loop_quit t1 then threadFunc_end t1 else t1)"

text \<open>The whole destructor; \<open>None\<close> if \<open>join\<close> never returns.\<close>

definition EventLoopThread_destroy :: "EventLoopThread \<Rightarrow> unit result option" where
  "EventLoopThread_destroy t =
     (case destroy_begin t of
        (False, t1) \<Rightarrow> Some (destroy_members t1)
      | (True, t1) \<Rightarrow> map_option destroy_members (join (threadFunc_rest t1)))"

subsection \<open>EventLoopThreadPool\<close>

record EventLoopThreadPool =
  baseLoop :: nat
  pool_name :: string
  pool_start :: bool
  numThreads :: int
  next_loop :: int
  threads :: "EventLoopThread list"
  loops :: "nat list"

definition EventLoopThreadPool_new :: "nat \<Rightarrow> string \<Rightarrow> EventLoopThreadPool" where
  "EventLoopThreadPool_new base name =
     \<lparr>baseLoop = base, pool_name = name, pool_start = False, numThreads = 0, next_loop = 0, threads = [], loops = []\<rparr>"

definition Pool_setThreadNum :: "int \<Rightarrow> EventLoopThreadPool \<Rightarrow> EventLoopThreadPool" where
  "Pool_setThreadNum n p = p\<lparr>numThreads := n\<rparr>"

definition Pool_assertInLoopThread :: "nat \<Rightarrow> EventLoopThreadPool \<Rightarrow> 'a result \<Rightarrow> 'a result" where
  "Pool_assertInLoopThread cur p = check FatalLog (cur = baseLoop p)"

text \<open>\<open>start\<close>: \<open>cur\<close> is the calling thread, \<open>spawn i\<close> the loop of the \<open>i\<close>-th new thread.\<close>

definition start_thread :: "(nat \<Rightarrow> nat) \<Rightarrow> nat \<Rightarrow> EventLoopThreadPool \<Rightarrow> EventLoopThreadPool result" where
  "start_thread spawn i p =
     result_bind (startLoop (spawn i) EventLoopThread_new) (\<lambda>(l, t).
       Inr (p\<lparr>threads := threads p @ [t], loops := loops p @ [l]\<rparr>))"

definition EventLoopThreadPool_start :: "nat \<Rightarrow> (nat \<Rightarrow> nat) \<Rightarrow> EventLoopThreadPool \<Rightarrow> EventLoopThreadPool result" where
  "EventLoopThreadPool_start cur spawn p =
     assert_c (\<not> pool_start p) (Pool_assertInLoopThread cur p
       (foldM (start_thread spawn) [0..<nat (numThreads p)] (p\<lparr>pool_start := True\<rparr>)))"

definition nth_loop :: "int \<Rightarrow> nat list \<Rightarrow> nat result" where
  "nth_loop i ls = check OutOfBounds (0 \<le> i \<and> i < int (length ls)) (Inr (ls ! nat i))"

definition getNextLoop :: "nat \<Rightarrow> EventLoopThreadPool \<Rightarrow> (nat \<times> EventLoopThreadPool) result" where
  "getNextLoop cur p =
     Pool_assertInLoopThread cur p (assert_c (pool_start p)
       (if loops p \<noteq> []
        then result_bind (nth_loop (next_loop p) (loops p)) (\<lambda>l.
               Inr (l, p\<lparr>next_loop := (next_loop p + 1) mod int (length (loops p))\<rparr>))
        else Inr (baseLoop p, p)))"

definition getLoopForHash :: "nat \<Rightarrow> nat \<Rightarrow> EventLoopThreadPool \<Rightarrow> nat result" where
  "getLoopForHash cur hashCode p =
     Pool_assertInLoopThread cur p
       (if loops p \<noteq> [] then nth_loop (int (hashCode mod length (loops p))) (loops p) else Inr (baseLoop p))"

definition getAllLoops :: "nat \<Rightarrow> EventLoopThreadPool \<Rightarrow> nat list result" where
  "getAllLoops cur p =
     Pool_assertInLoopThread cur p (assert_c (pool_start p)
       (Inr (if loops p = [] then [baseLoop p] else loops p)))"

text \<open>\<open>k\<close> calls of \<open>getNextLoop\<close>.\<close>

fun getNextLoops :: "nat \<Rightarrow> nat \<Rightarrow> EventLoopThreadPool \<Rightarrow> (nat list \<times> EventLoopThreadPool) result" where
  "getNextLoops cur 0 p = Inr ([], p)"
| "getNextLoops cur (Suc k) p =
     result_bind (getNextLoops cur k p) (\<lambda>(ls, p1).
       result_bind (getNextLoop cur p1) (\<lambda>(l, p2). Inr (ls @ [l], p2)))"

text \<open>Destroying the pool destroys its threads, in the order of the vector.\<close>

definition Pool_destroy :: "EventLoopThreadPool \<Rightarrow> unit result option list" where
  "Pool_destroy p = map EventLoopThread_destroy (threads p)"

subsection \<open>Lemmas\<close>

lemma startLoop_new:
  "startLoop l EventLoopThread_new = Inr (l, \<lparr>elt_loop = Some l, exiting = False, elt_thread = Published, loop_quit = False\<rparr>)"
  by (simp add: startLoop_def startLoop_begin_def threadFunc_publish_def startLoop_wait_def EventLoopThread_new_def)

lemma start_threads:
  "foldM (start_thread spawn) is p =
     Inr (p\<lparr>threads := threads p @ map (\<lambda>i. \<lparr>elt_loop = Some (spawn i), exiting = False, elt_thread = Published, loop_quit = False\<rparr>) is,
           loops := loops p @ map spawn is\<rparr>)"
  by (induction "is" arbitrary: p) (simp_all add: start_thread_def startLoop_new)

text \<open>The invariant of the index, and what a call does under it.\<close>

definition index_inv :: "EventLoopThreadPool \<Rightarrow> bool" where
  "index_inv p \<longleftrightarrow> 0 \<le> next_loop p \<and> (loops p \<noteq> [] \<longrightarrow> next_loop p < int (length (loops p)))"

lemma getNextLoop_eq:
  assumes "index_inv p" and "pool_start p"
  shows "getNextLoop (baseLoop p) p =
     Inr (if loops p = [] then baseLoop p else loops p ! nat (next_loop p),
          if loops p = [] then p else p\<lparr>next_loop := (next_loop p + 1) mod int (length (loops p))\<rparr>)"
  using assms by (simp add: getNextLoop_def Pool_assertInLoopThread_def nth_loop_def index_inv_def)

lemma index_inv_next: "index_inv p \<Longrightarrow> index_inv (p\<lparr>next_loop := (next_loop p + 1) mod int (length (loops p))\<rparr>)"
  by (cases "loops p") (simp_all add: index_inv_def)

lemma getNextLoops_eq:
  assumes "pool_start p" and "loops p \<noteq> []" and "next_loop p = 0"
  shows "getNextLoops (baseLoop p) k p =
     Inr (map (\<lambda>i. loops p ! (i mod length (loops p))) [0..<k], p\<lparr>next_loop := int (k mod length (loops p))\<rparr>)"
proof (induction k)
  case 0
  then show ?case using assms(3) by simp
next
  case (Suc k)
  let ?n = "length (loops p)"
  let ?p = "p\<lparr>next_loop := int (k mod ?n)\<rparr>"
  have n: "0 < ?n" using assms(2) by simp
  then have inv: "index_inv ?p" by (simp add: index_inv_def)
  have "(int (k mod ?n) + 1) mod int ?n = int (Suc k mod ?n)" by (simp add: zmod_int mod_simps add.commute)
  then have "getNextLoop (baseLoop p) ?p = Inr (loops p ! (k mod ?n), p\<lparr>next_loop := int (Suc k mod ?n)\<rparr>)"
    using getNextLoop_eq [OF inv] assms by simp
  with Suc show ?case by simp
qed

lemma getNextLoops_empty:
  assumes "pool_start p" and "loops p = []" and "next_loop p = 0"
  shows "getNextLoops (baseLoop p) k p = Inr (replicate k (baseLoop p), p)"
  using assms getNextLoop_eq [of p]
  by (induction k) (simp_all add: index_inv_def replicate_append_same)

text \<open>A thread inside its loop can be destroyed. One whose loop ended by itself cannot: its \<open>std::thread\<close> is
  still joinable. One that has published its loop but not entered \<open>loop()\<close> forgets that it was told to quit,
  and \<open>join\<close> never returns.\<close>

lemma destroy_looping:
  "elt_loop t = Some l \<Longrightarrow> elt_thread t = Looping \<Longrightarrow> EventLoopThread_destroy t = Some (Inr ())"
  by (simp add: EventLoopThread_destroy_def destroy_begin_def join_def threadFunc_rest_def threadFunc_enter_def
      threadFunc_end_def destroy_members_def)

lemma destroy_after_end: "EventLoopThread_destroy (threadFunc_end t) = Some (Inl Terminated)"
  by (simp add: EventLoopThread_destroy_def destroy_begin_def threadFunc_end_def destroy_members_def)

lemma destroy_too_early: "startLoop l EventLoopThread_new = Inr (l', t) \<Longrightarrow> EventLoopThread_destroy t = None"
  by (auto simp: startLoop_new EventLoopThread_destroy_def destroy_begin_def join_def threadFunc_rest_def
      threadFunc_enter_def)

text \<open>A pool after \<open>start\<close>.\<close>

definition started_pool :: "nat \<Rightarrow> string \<Rightarrow> int \<Rightarrow> (nat \<Rightarrow> nat) \<Rightarrow> EventLoopThreadPool" where
  "started_pool base name n spawn =
     \<lparr>baseLoop = base, pool_name = name, pool_start = True, numThreads = n, next_loop = 0,
      threads = map (\<lambda>i. \<lparr>elt_loop = Some (spawn i), exiting = False, elt_thread = Published, loop_quit = False\<rparr>) [0..<nat n],
      loops = map spawn [0..<nat n]\<rparr>"

lemma pool_started:
  "EventLoopThreadPool_start base spawn (Pool_setThreadNum n (EventLoopThreadPool_new base name)) =
     Inr (started_pool base name n spawn)"
  by (simp add: EventLoopThreadPool_start_def Pool_assertInLoopThread_def start_threads Pool_setThreadNum_def
      EventLoopThreadPool_new_def started_pool_def)

lemma started_pool_fields [simp]:
  "pool_start (started_pool base name n spawn)" "next_loop (started_pool base name n spawn) = 0"
  "baseLoop (started_pool base name n spawn) = base" "loops (started_pool base name n spawn) = map spawn [0..<nat n]"
  "index_inv (started_pool base name n spawn)"
  by (simp_all add: started_pool_def index_inv_def)

lemma started_pool_destroy:
  "map (EventLoopThread_destroy \<circ> threadFunc_enter) (threads (started_pool base name n spawn)) =
     replicate (nat n) (Some (Inr ()))"
  by (simp add: started_pool_def destroy_looping threadFunc_enter_def o_def map_replicate_const)

subsection \<open>Properties\<close>

text \<open>C28. Round robin. A pool told to use \<open>n\<close> threads and started in the thread of its base loop starts
  every thread, and the \<open>i\<close>-th call of \<open>getNextLoop\<close> returns the loop of thread \<open>i mod n\<close>, in bounds for any
  number of calls; without threads it is always the base loop. The pool, destroyed once every
  thread is inside its loop, quits and joins them all.\<close>

theorem round_robin:
  "\<exists>p q. EventLoopThreadPool_start base spawn (Pool_setThreadNum n (EventLoopThreadPool_new base name)) = Inr p \<and>
     getNextLoops base k p = Inr (map (\<lambda>i. if n \<le> 0 then base else spawn (i mod nat n)) [0..<k], q) \<and>
     getAllLoops base q = Inr (if n \<le> 0 then [base] else map spawn [0..<nat n]) \<and>
     Pool_destroy (q\<lparr>threads := map threadFunc_enter (threads q)\<rparr>) = replicate (nat n) (Some (Inr ()))"
proof -
  let ?p = "started_pool base name n spawn"
  note facts = pool_started [of base spawn n name] started_pool_destroy [of base name n spawn]
  show ?thesis
  proof (cases "n \<le> 0")
    case True
    with getNextLoops_empty [of ?p k] facts show ?thesis
      by (simp add: getAllLoops_def Pool_assertInLoopThread_def Pool_destroy_def map_replicate_const)
  next
    case False
    then have "map (\<lambda>i. map spawn [0..<nat n] ! (i mod nat n)) [0..<k] = map (\<lambda>i. spawn (i mod nat n)) [0..<k]"
      by simp
    with False getNextLoops_eq [of ?p k] facts show ?thesis
      by (simp add: getAllLoops_def Pool_assertInLoopThread_def Pool_destroy_def)
  qed
qed

end
