(* ===== verification/TcpServer.thy ===== *)
theory TcpServer
  imports EventLoopThreads Sockets TcpConnection
begin

text \<open>
  Servers: net/Acceptor.h, net/Acceptor.cpp, include/libfm/fmnet/TcpServer.h and net/TcpServer.cpp.

  \<^item> An acceptor and its server extend the record of the base loop. The loops of the pool are named by the
    threads that run them; of each the server sees the queue of functors (\<open>io_functors\<close>), and
    \<open>current_thread\<close> is the thread that executes an operation.
  \<^item> A connection is an object with its name, loop, socket and state. Its own methods are those of the theory
    of connections: \<open>life_established\<close> and its siblings are what they do to the state, as \<open>life_refines\<close> shows.
  \<^item> The results of \<open>socket\<close>, \<open>bind\<close>, \<open>listen\<close>, \<open>accept4\<close> and \<open>open\<close> are arguments.
\<close>

datatype server_functor = ListenF | EstablishedF addr | RemoveInLoopF addr | DestroyedF addr

subsection \<open>Acceptor\<close>

record Acceptor = "server_functor EventLoop" +
  accept_fd :: int
  accept_options :: socket_options
  accept_channel :: addr
  has_new_connection_callback :: bool
  listening :: bool
  idle_fd :: int
  closed :: "int list"

definition default_options :: socket_options where
  "default_options = \<lparr>opt_nodelay = False, opt_reuseaddr = False, opt_reuseport = False, opt_keepalive = False\<rparr>"

definition Acceptor_new :: "int \<Rightarrow> addr \<Rightarrow> int \<Rightarrow> int \<Rightarrow> bool \<Rightarrow> server_functor EventLoop \<Rightarrow> Acceptor result" where
  "Acceptor_new fd c idle bind_ret reusePort l =
     result_bind (createNonblockingSocketOrDie fd) (\<lambda>sockfd.
       assert_c (0 \<le> sockfd)
         (let opts = setReusePort reusePort (setReuseAddr True default_options)
          in result_bind (bindOrDie bind_ret) (\<lambda>_.
               Inr (set_chan c (Channel_new sockfd\<lparr>read_callback := True\<rparr>)
                 (EventLoop.EventLoop.extend l (Acceptor.fields sockfd opts c False False idle []))))))"

definition setNewConnectionCallback :: "'w Acceptor_scheme \<Rightarrow> 'w Acceptor_scheme" where
  "setNewConnectionCallback w = w\<lparr>has_new_connection_callback := True\<rparr>"

definition close_file :: "int \<Rightarrow> 'w Acceptor_scheme \<Rightarrow> 'w Acceptor_scheme" where
  "close_file fd w = w\<lparr>closed := closed w @ [fd]\<rparr>"

text \<open>The destructor: its body, then the members, of which the channel and the socket do something.\<close>

definition Acceptor_destroy :: "'w Acceptor_scheme \<Rightarrow> 'w Acceptor_scheme result" where
  "Acceptor_destroy w =
     result_bind (Channel_change DisableAll (accept_channel w) w) (\<lambda>w1.
     result_bind (Channel_remove (accept_channel w) w1) (\<lambda>w2.
     result_bind (Channel_destroy (accept_channel w) (close_file (idle_fd w) w2)) (\<lambda>w3.
       Inr (close_file (accept_fd w) w3))))"

definition Acceptor_listen :: "int \<Rightarrow> 'w Acceptor_scheme \<Rightarrow> 'w Acceptor_scheme result" where
  "Acceptor_listen listen_ret w =
     assertInLoopThread w
       (let w1 = w\<lparr>listening := True\<rparr>
        in result_bind (listenOrDie listen_ret) (\<lambda>_. Channel_change EnableReading (accept_channel w1) w1))"

text \<open>\<open>handleRead\<close>: \<open>cb\<close> is \<open>new_connection_callback_\<close>; \<open>again\<close> is what the second \<open>accept\<close> returns, and \<open>reopened\<close>
  the descriptor of \<open>/dev/null\<close> opened after it.\<close>

definition Acceptor_handleRead ::
  "byte_order \<Rightarrow> (int \<Rightarrow> InetAddress \<Rightarrow> 'w Acceptor_scheme \<Rightarrow> 'w Acceptor_scheme result) \<Rightarrow>
    accept_errno + int \<times> InetAddress \<Rightarrow> int \<Rightarrow> int \<Rightarrow> 'w Acceptor_scheme \<Rightarrow> 'w Acceptor_scheme result" where
  "Acceptor_handleRead e cb outcome again reopened w =
     assertInLoopThread w
       (result_bind (Socket_accept outcome (InetAddress_port e 0 False False)) (\<lambda>(connfd, peerAddr).
         case connfd of
           Inr fd \<Rightarrow> if has_new_connection_callback w then cb fd peerAddr w else Inr (close_file fd w)
         | Inl errno \<Rightarrow>
             if errno = EMFILE
             then Inr ((close_file again (close_file (idle_fd w) w))\<lparr>idle_fd := reopened\<rparr>)
             else Inr w))"

subsection \<open>The state of a connection\<close>

definition life_established :: "StateE \<Rightarrow> StateE result" where
  "life_established s = assert_c (s = kConnecting) (Inr kConnected)"

definition life_shutdown :: "StateE \<Rightarrow> StateE" where
  "life_shutdown s = (if s = kConnected then kDisconnecting else s)"

definition life_close :: "StateE \<Rightarrow> StateE result" where
  "life_close s = assert_c (s = kConnected \<or> s = kDisconnecting) (Inr kDisconnected)"

definition life_destroyed :: "StateE \<Rightarrow> StateE" where
  "life_destroyed s = (if s = kConnected then kDisconnected else s)"

subsection \<open>TcpServer\<close>

record server_conn =
  sc_name :: string
  sc_loop :: nat
  sc_fd :: int
  sc_peer :: InetAddress
  sc_state :: StateE

datatype Option = kNoReusePort | kReusePort

record TcpServer = Acceptor +
  ip_port :: string
  server_name :: string
  thread_pool :: EventLoopThreadPool
  server_start :: bool
  next_conn_id :: int
  connections :: "string \<rightharpoonup> addr"
  conn_objs :: "addr \<rightharpoonup> server_conn"
  io_functors :: "nat \<Rightarrow> server_functor list"

definition TcpServer_new ::
  "(char list \<Rightarrow> string) \<Rightarrow> byte_order \<Rightarrow> InetAddress \<Rightarrow> string \<Rightarrow> Option \<Rightarrow> int \<Rightarrow> addr \<Rightarrow> int \<Rightarrow> int \<Rightarrow>
    server_functor EventLoop \<Rightarrow> TcpServer result" where
  "TcpServer_new ntop6 e listenAddr name option fd c idle bind_ret l =
     result_bind (Acceptor_new fd c idle bind_ret (option = kNoReusePort) l) (\<lambda>acc.
       Inr (setNewConnectionCallback
         (Acceptor.extend acc
           (TcpServer.fields (InetAddress_toIpStr ntop6 e listenAddr) name
             (EventLoopThreadPool_new (loop_thread l) name) False 1 Map.empty Map.empty (\<lambda>_. [])))))"

definition TcpServer_setThreadNum :: "int \<Rightarrow> TcpServer \<Rightarrow> TcpServer result" where
  "TcpServer_setThreadNum n w =
     assert_c (0 \<le> n) (Inr (w\<lparr>thread_pool := Pool_setThreadNum n (thread_pool w)\<rparr>))"

text \<open>The queue of a loop, and \<open>queueInLoop\<close> on it.\<close>

definition queued :: "TcpServer \<Rightarrow> nat \<Rightarrow> server_functor list" where
  "queued w l = (if l = loop_thread w then pending_functors w else io_functors w l)"

definition queue_in :: "nat \<Rightarrow> server_functor \<Rightarrow> TcpServer \<Rightarrow> TcpServer" where
  "queue_in l f w =
     (if l = loop_thread w then queueInLoop f w
      else w\<lparr>io_functors := (io_functors w)(l := io_functors w l @ [f])\<rparr>)"

definition conn_obj :: "addr \<Rightarrow> TcpServer \<Rightarrow> server_conn result" where
  "conn_obj conn w = (case conn_objs w conn of None \<Rightarrow> Inl UseAfterFree | Some c \<Rightarrow> Inr c)"

definition set_state :: "addr \<Rightarrow> StateE \<Rightarrow> TcpServer \<Rightarrow> TcpServer" where
  "set_state conn s w =
     w\<lparr>conn_objs := (conn_objs w)(conn := map_option (\<lambda>c. c\<lparr>sc_state := s\<rparr>) (conn_objs w conn))\<rparr>"

text \<open>The methods of the connection that the server queues; both assert that their loop's thread runs them.\<close>

definition conn_established :: "addr \<Rightarrow> TcpServer \<Rightarrow> TcpServer result" where
  "conn_established conn w =
     result_bind (conn_obj conn w) (\<lambda>c. check FatalLog (sc_loop c = current_thread w)
       (result_bind (life_established (sc_state c)) (\<lambda>s. Inr (set_state conn s w))))"

definition conn_destroyed :: "addr \<Rightarrow> TcpServer \<Rightarrow> TcpServer result" where
  "conn_destroyed conn w =
     result_bind (conn_obj conn w) (\<lambda>c. check FatalLog (sc_loop c = current_thread w)
       (Inr (set_state conn (life_destroyed (sc_state c)) w)))"

definition removeConnectionInLoop :: "addr \<Rightarrow> TcpServer \<Rightarrow> TcpServer result" where
  "removeConnectionInLoop conn w =
     assertInLoopThread w
       (result_bind (conn_obj conn w) (\<lambda>c.
         assert_c (sc_name c \<in> dom (connections w))
           (Inr (queue_in (sc_loop c) (DestroyedF conn) (w\<lparr>connections := (connections w)(sc_name c := None)\<rparr>)))))"

fun run_server_functor :: "int \<Rightarrow> server_functor \<Rightarrow> TcpServer \<Rightarrow> TcpServer result" where
  "run_server_functor ret ListenF w = Acceptor_listen ret w"
| "run_server_functor ret (EstablishedF conn) w = conn_established conn w"
| "run_server_functor ret (RemoveInLoopF conn) w = removeConnectionInLoop conn w"
| "run_server_functor ret (DestroyedF conn) w = conn_destroyed conn w"

text \<open>\<open>runInLoop\<close> on the loop of thread \<open>l\<close>; \<open>ret\<close> is the result of \<open>listen\<close>.\<close>

definition run_at :: "int \<Rightarrow> nat \<Rightarrow> server_functor \<Rightarrow> TcpServer \<Rightarrow> TcpServer result" where
  "run_at ret l f w = (if l = current_thread w then run_server_functor ret f w else Inr (queue_in l f w))"

definition TcpServer_start :: "(nat \<Rightarrow> nat) \<Rightarrow> int \<Rightarrow> TcpServer \<Rightarrow> TcpServer result" where
  "TcpServer_start spawn ret w =
     (if \<not> server_start w
      then let w1 = w\<lparr>server_start := True\<rparr>
           in result_bind (EventLoopThreadPool_start (current_thread w1) spawn (thread_pool w1)) (\<lambda>p.
                let w2 = w1\<lparr>thread_pool := p\<rparr>
                in assert_c (\<not> listening w2) (run_at ret (loop_thread w2) ListenF w2))
      else Inr w)"

text \<open>\<open>newConnection\<close>: \<open>conn\<close> is the identity of the new object.\<close>

definition connName :: "TcpServer \<Rightarrow> string" where
  "connName w = server_name w @ snprintf 64 (''-'' @ ip_port w @ ''#'' @ show_int (next_conn_id w))"

definition TcpServer_newConnection :: "addr \<Rightarrow> int \<Rightarrow> InetAddress \<Rightarrow> TcpServer \<Rightarrow> TcpServer result" where
  "TcpServer_newConnection conn sockfd peerAddr w =
     assertInLoopThread w
       (result_bind (getNextLoop (current_thread w) (thread_pool w)) (\<lambda>(ioLoop, p).
         let name = connName w;
             w1 = w\<lparr>thread_pool := p, next_conn_id := next_conn_id w + 1,
                    conn_objs := (conn_objs w)(conn \<mapsto>
                      \<lparr>sc_name = name, sc_loop = ioLoop, sc_fd = sockfd, sc_peer = peerAddr, sc_state = kConnecting\<rparr>),
                    connections := (connections w)(name \<mapsto> conn)\<rparr>
         in run_at 0 ioLoop (EstablishedF conn) w1))"

definition removeConnection :: "addr \<Rightarrow> TcpServer \<Rightarrow> TcpServer result" where
  "removeConnection conn w = run_at 0 (loop_thread w) (RemoveInLoopF conn) w"

text \<open>The destructor's body on the entries of the map, in the order of its traversal: the pointer in the map
  is reset and the connection destroyed in its loop.\<close>

definition destroy_entry :: "string \<times> addr \<Rightarrow> TcpServer \<Rightarrow> TcpServer result" where
  "destroy_entry item w =
     result_bind (conn_obj (snd item) w) (\<lambda>c. run_at 0 (sc_loop c) (DestroyedF (snd item)) w)"

definition TcpServer_destroy :: "(string \<times> addr) list \<Rightarrow> TcpServer \<Rightarrow> TcpServer result" where
  "TcpServer_destroy items w = assertInLoopThread w (foldM destroy_entry items w)"

text \<open>A connection closes in the thread of its loop: its state, then the close callback the server installed.\<close>

definition conn_close :: "addr \<Rightarrow> TcpServer \<Rightarrow> TcpServer result" where
  "conn_close conn w =
     result_bind (conn_obj conn w) (\<lambda>c. check FatalLog (sc_loop c = current_thread w)
       (result_bind (life_close (sc_state c)) (\<lambda>s. removeConnection conn (set_state conn s w))))"

definition conn_shutdown :: "addr \<Rightarrow> TcpServer \<Rightarrow> TcpServer result" where
  "conn_shutdown conn w =
     result_bind (conn_obj conn w) (\<lambda>c. Inr (set_state conn (life_shutdown (sc_state c)) w))"


subsection \<open>The invariant of a server\<close>

definition name_of :: "TcpServer \<Rightarrow> int \<Rightarrow> string" where
  "name_of w k = server_name w @ ''-'' @ ip_port w @ ''#'' @ show_int k"

definition in_map :: "TcpServer \<Rightarrow> addr \<Rightarrow> server_conn \<Rightarrow> bool" where
  "in_map w conn c \<longleftrightarrow> connections w (sc_name c) = Some conn"

text \<open>What may be queued for a connection. While it is connecting, exactly the call that establishes it, in its
  loop; once it is closed and until it is erased from the map, exactly one removal, in the base loop;
  after that at most one call that destroys it, in its loop.\<close>

definition conn_queued :: "TcpServer \<Rightarrow> addr \<Rightarrow> server_conn \<Rightarrow> nat \<Rightarrow> bool" where
  "conn_queued w conn c l \<longleftrightarrow>
     count_list (queued w l) (EstablishedF conn) = (if sc_state c = kConnecting \<and> l = sc_loop c then 1 else 0) \<and>
     count_list (queued w l) (RemoveInLoopF conn) =
       (if sc_state c = kDisconnected \<and> in_map w conn c \<and> l = loop_thread w then 1 else 0) \<and>
     count_list (queued w l) (DestroyedF conn) \<le>
       (if sc_state c = kDisconnected \<and> \<not> in_map w conn c \<and> l = sc_loop c then 1 else 0)"

definition conn_ok :: "TcpServer \<Rightarrow> addr \<Rightarrow> bool" where
  "conn_ok w conn \<longleftrightarrow>
     (case conn_objs w conn of
        None \<Rightarrow> \<forall>l. set (queued w l) \<inter> {EstablishedF conn, RemoveInLoopF conn, DestroyedF conn} = {}
      | Some c \<Rightarrow>
          (sc_state c \<noteq> kDisconnected \<longrightarrow> in_map w conn c) \<and> (\<forall>l. conn_queued w conn c l) \<and>
          (\<exists>k. 1 \<le> k \<and> k < next_conn_id w \<and> sc_name c = name_of w k))"

definition names_ok :: "TcpServer \<Rightarrow> bool" where
  "names_ok w \<longleftrightarrow>
     (\<forall>n conn. connections w n = Some conn \<longrightarrow> (\<exists>c. conn_objs w conn = Some c \<and> sc_name c = n)) \<and>
     (\<forall>a b c d. conn_objs w a = Some c \<longrightarrow> conn_objs w b = Some d \<longrightarrow> sc_name c = sc_name d \<longrightarrow> a = b)"

definition server_inv :: "TcpServer \<Rightarrow> bool" where
  "server_inv w \<longleftrightarrow>
     pool_start (thread_pool w) \<and> index_inv (thread_pool w) \<and> baseLoop (thread_pool w) = loop_thread w \<and>
     length (ip_port w) \<le> 45 \<and> 1 \<le> next_conn_id w \<and> (\<forall>l. ListenF \<notin> set (queued w l)) \<and>
     names_ok w \<and> (\<forall>conn. conn_ok w conn)"

lemma queueInLoop_server [simp]:
  fixes w :: TcpServer
  shows "loop_thread (queueInLoop f w) = loop_thread w" "current_thread (queueInLoop f w) = current_thread w"
    "conn_objs (queueInLoop f w) = conn_objs w" "connections (queueInLoop f w) = connections w"
    "thread_pool (queueInLoop f w) = thread_pool w" "ip_port (queueInLoop f w) = ip_port w"
    "server_name (queueInLoop f w) = server_name w" "next_conn_id (queueInLoop f w) = next_conn_id w"
    "io_functors (queueInLoop f w) = io_functors w" "pending_functors (queueInLoop f w) = pending_functors w @ [f]"
    "has_new_connection_callback (queueInLoop f w) = has_new_connection_callback w"
  by (simp_all add: queueInLoop_def push_functor_def wakeup_def Let_def)

lemma queue_in_fields [simp]:
  "loop_thread (queue_in l f w) = loop_thread w" "current_thread (queue_in l f w) = current_thread w"
  "conn_objs (queue_in l f w) = conn_objs w" "connections (queue_in l f w) = connections w"
  "thread_pool (queue_in l f w) = thread_pool w" "ip_port (queue_in l f w) = ip_port w"
  "server_name (queue_in l f w) = server_name w" "next_conn_id (queue_in l f w) = next_conn_id w"
  "has_new_connection_callback (queue_in l f w) = has_new_connection_callback w"
  "queued (queue_in l f w) l' = queued w l' @ (if l' = l then [f] else [])"
  by (simp_all add: queue_in_def queued_def)

lemma set_state_fields [simp]:
  "loop_thread (set_state conn s w) = loop_thread w" "current_thread (set_state conn s w) = current_thread w"
  "connections (set_state conn s w) = connections w"
  "thread_pool (set_state conn s w) = thread_pool w" "ip_port (set_state conn s w) = ip_port w"
  "server_name (set_state conn s w) = server_name w" "next_conn_id (set_state conn s w) = next_conn_id w"
  "has_new_connection_callback (set_state conn s w) = has_new_connection_callback w"
  "queued (set_state conn s w) l = queued w l"
  "conn_objs (set_state conn s w) =
     (conn_objs w)(conn := map_option (\<lambda>c. c\<lparr>sc_state := s\<rparr>) (conn_objs w conn))"
  by (simp_all add: set_state_def queued_def)

lemma queued_fields [simp]:
  "queued (w\<lparr>connections := m\<rparr>) l = queued w l" "queued (w\<lparr>current_thread := t\<rparr>) l = queued w l"
  "queued (w\<lparr>thread_pool := p\<rparr>) l = queued w l" "queued (w\<lparr>next_conn_id := i\<rparr>) l = queued w l"
  "queued (w\<lparr>conn_objs := os\<rparr>) l = queued w l" "queued (w\<lparr>closed := xs\<rparr>) l = queued w l"
  "queued (w\<lparr>idle_fd := x\<rparr>) l = queued w l"
  by (simp_all add: queued_def)

text \<open>The invariant depends on nothing else.\<close>

lemma server_inv_cong:
  assumes "thread_pool a = thread_pool b" "loop_thread a = loop_thread b" "ip_port a = ip_port b"
    "server_name a = server_name b" "next_conn_id a = next_conn_id b" "connections a = connections b"
    "conn_objs a = conn_objs b" "\<And>l. queued a l = queued b l"
  shows "server_inv a \<longleftrightarrow> server_inv b"
proof -
  have q: "queued a = queued b" using assms(8) by (rule ext)
  have "in_map a = in_map b" "name_of a = name_of b" "conn_queued a = conn_queued b"
    using assms(2-6) q by (simp_all add: in_map_def name_of_def conn_queued_def fun_eq_iff)
  with q assms(1-7) show ?thesis by (simp add: server_inv_def names_ok_def conn_ok_def cong: option.case_cong)
qed

text \<open>Names: they fit into the buffer, and different numbers give different names.\<close>

lemma length_toIpStr: "length (InetAddress_toIpStr ntop6 e bs) \<le> 45"
  by (simp add: InetAddress_toIpStr_def sockets_toIpStr_def inet_put_def)

lemma name_of_inject: "0 \<le> i \<Longrightarrow> 0 \<le> k \<Longrightarrow> name_of w i = name_of w k \<Longrightarrow> i = k"
  by (auto simp: name_of_def show_int_def dest: show_nat_inject)

lemma connName_eq:
  assumes "length (ip_port w) \<le> 45" and "0 \<le> next_conn_id w" and "next_conn_id w < 2 ^ 31"
  shows "connName w = name_of w (next_conn_id w)"
proof -
  have "nat (next_conn_id w) < 10 ^ 10" using assms(3) by simp
  then have "length (show_nat (nat (next_conn_id w))) \<le> 10" by (intro length_show_nat) simp_all
  with assms show ?thesis by (simp add: connName_def name_of_def snprintf_def show_int_def)
qed

text \<open>Erasing an element from the front of a queue.\<close>

definition dequeue :: "nat \<Rightarrow> TcpServer \<Rightarrow> TcpServer" where
  "dequeue l w =
     (if l = loop_thread w then w\<lparr>pending_functors := tl (pending_functors w)\<rparr>
      else w\<lparr>io_functors := (io_functors w)(l := tl (io_functors w l))\<rparr>)"

lemma dequeue_fields [simp]:
  "loop_thread (dequeue l w) = loop_thread w" "current_thread (dequeue l w) = current_thread w"
  "conn_objs (dequeue l w) = conn_objs w" "connections (dequeue l w) = connections w"
  "thread_pool (dequeue l w) = thread_pool w" "ip_port (dequeue l w) = ip_port w"
  "server_name (dequeue l w) = server_name w" "next_conn_id (dequeue l w) = next_conn_id w"
  "has_new_connection_callback (dequeue l w) = has_new_connection_callback w"
  "queued (dequeue l w) l' = (if l' = l then tl (queued w l) else queued w l')"
  by (simp_all add: dequeue_def queued_def)

lemma server_inv_thread [simp]: "server_inv (w\<lparr>current_thread := t\<rparr>) = server_inv w"
  by (rule server_inv_cong) simp_all

subsection \<open>The operations keep the invariant\<close>

lemma server_invD:
  assumes "server_inv w"
  shows "pool_start (thread_pool w)" "index_inv (thread_pool w)" "baseLoop (thread_pool w) = loop_thread w"
    "length (ip_port w) \<le> 45" "1 \<le> next_conn_id w" "ListenF \<notin> set (queued w l)" "names_ok w" "conn_ok w conn"
  using assms by (simp_all add: server_inv_def)

lemma conn_okD:
  assumes "conn_ok w conn" and "conn_objs w conn = Some c"
  shows "sc_state c \<noteq> kDisconnected \<Longrightarrow> in_map w conn c" "conn_queued w conn c l"
    "\<exists>k. 1 \<le> k \<and> k < next_conn_id w \<and> sc_name c = name_of w k"
  using assms by (simp_all add: conn_ok_def)

lemma conn_ok_cong:
  assumes "loop_thread a = loop_thread b" "ip_port a = ip_port b" "server_name a = server_name b"
    "next_conn_id b \<le> next_conn_id a" "conn_objs a conn = conn_objs b conn"
    "\<And>c. conn_objs b conn = Some c \<Longrightarrow> in_map a conn c = in_map b conn c"
    "\<And>l. \<forall>f \<in> {EstablishedF conn, RemoveInLoopF conn, DestroyedF conn}. count_list (queued a l) f = count_list (queued b l) f"
    and ok: "conn_ok b conn"
  shows "conn_ok a conn"
proof (cases "conn_objs b conn")
  case None
  with ok assms(5,7) show ?thesis by (simp add: conn_ok_def count_list_0_iff [symmetric])
next
  case (Some c)
  have "conn_queued a conn c l" for l
    using conn_okD(2) [OF ok Some] assms(1,7) assms(6) [OF Some] by (simp add: conn_queued_def)
  moreover have "\<exists>k. 1 \<le> k \<and> k < next_conn_id a \<and> sc_name c = name_of a k"
    using conn_okD(3) [OF ok Some] assms(2-4) by (auto simp: name_of_def)
  ultimately show ?thesis using conn_okD(1) [OF ok Some] Some assms(5,6) by (auto simp: conn_ok_def)
qed

text \<open>A step that concerns one connection: for the others nothing changes.\<close>

lemma server_inv_one:
  assumes inv: "server_inv w"
    and same: "loop_thread w' = loop_thread w" "ip_port w' = ip_port w" "server_name w' = server_name w"
    and pool: "pool_start (thread_pool w')" "index_inv (thread_pool w')" "baseLoop (thread_pool w') = loop_thread w"
    and ids: "next_conn_id w \<le> next_conn_id w'"
    and objs: "\<And>a. a \<noteq> conn \<Longrightarrow> conn_objs w' a = conn_objs w a"
    and maps: "\<And>a c. a \<noteq> conn \<Longrightarrow> conn_objs w a = Some c \<Longrightarrow> in_map w' a c = in_map w a c"
    and qs: "\<And>l f. f \<notin> {EstablishedF conn, RemoveInLoopF conn, DestroyedF conn} \<Longrightarrow>
      count_list (queued w' l) f = count_list (queued w l) f"
    and names: "names_ok w'" and ok: "conn_ok w' conn"
  shows "server_inv w'"
proof -
  have "ListenF \<notin> set (queued w' l)" for l
    using qs [of ListenF l] server_invD(6) [OF inv, of l] by (simp add: count_list_0_iff [symmetric])
  moreover have "conn_ok w' a" for a
  proof (cases "a = conn")
    case False
    then show ?thesis
      by (intro conn_ok_cong [OF _ _ _ _ _ _ _ server_invD(8) [OF inv]]) (auto simp: same ids objs maps qs)
  qed (simp add: ok)
  ultimately show ?thesis
    using server_invD(4,5) [OF inv] same pool ids names by (simp add: server_inv_def)
qed

lemma names_set_state: "names_ok w \<Longrightarrow> names_ok (set_state conn s w)"
proof -
  assume n: "names_ok w"
  let ?o = "conn_objs (set_state conn s w)"
  have o: "\<exists>c'. conn_objs w a = Some c' \<and> sc_name c' = sc_name c" if "?o a = Some c" for a c
    using that by (auto split: if_splits)
  have "\<exists>c. ?o a = Some c \<and> sc_name c = m" if "connections w m = Some a" for m a
    using n that by (fastforce simp: names_ok_def)
  moreover have "a = b" if "?o a = Some c" "?o b = Some d" "sc_name c = sc_name d" for a b c d
    using o [OF that(1)] o [OF that(2)] that(3) n unfolding names_ok_def by metis
  ultimately show ?thesis unfolding names_ok_def by (simp only: set_state_fields(3)) blast
qed

lemma names_dequeue: "names_ok (dequeue l w) = names_ok w"
  by (simp only: names_ok_def dequeue_fields)

text \<open>The functors of the connections.\<close>

lemma queued_object:
  assumes "server_inv w" and "queued w l = f # fs" and "f \<in> {EstablishedF conn, RemoveInLoopF conn, DestroyedF conn}"
  shows "\<exists>c. conn_objs w conn = Some c \<and> (\<forall>m. conn_queued w conn c m)"
proof (cases "conn_objs w conn")
  case None
  with server_invD(8) [OF assms(1), of conn]
  have "set (queued w l) \<inter> {EstablishedF conn, RemoveInLoopF conn, DestroyedF conn} = {}" by (simp add: conn_ok_def)
  with assms(2,3) show ?thesis by auto
next
  case (Some c)
  then show ?thesis using conn_okD(2) [OF server_invD(8) [OF assms(1)]] by blast
qed

lemma run_established:
  assumes inv: "server_inv w" and q: "queued w l = EstablishedF conn # fs" and t: "current_thread w = l"
  shows "\<exists>w'. conn_established conn (dequeue l w) = Inr w' \<and> server_inv w'"
proof -
  note ok = server_invD(8) [OF inv, of conn]
  obtain c where c: "conn_objs w conn = Some c" and cq: "\<And>m. conn_queued w conn c m"
    using queued_object [OF inv q, of conn] by auto
  have st: "sc_state c = kConnecting" "sc_loop c = l"
    using cq [of l] q by (simp_all add: conn_queued_def split: if_splits)
  let ?w = "set_state conn kConnected (dequeue l w)"
  have "conn_established conn (dequeue l w) = Inr ?w"
    by (simp add: conn_established_def conn_obj_def c st t life_established_def)
  moreover have "server_inv ?w"
  proof (rule server_inv_one [OF inv, where conn = conn])
    show "names_ok ?w" by (rule names_set_state) (simp add: names_dequeue server_invD(7) [OF inv])
    have "conn_queued ?w conn (c\<lparr>sc_state := kConnected\<rparr>) m" for m
      using cq [of m] st q by (auto simp: conn_queued_def in_map_def)
    then show "conn_ok ?w conn"
      using conn_okD(1,3) [OF ok c] c st by (auto simp: conn_ok_def in_map_def name_of_def)
  qed (use server_invD(1-3) [OF inv] q in \<open>auto simp: in_map_def\<close>)
  ultimately show ?thesis by blast
qed

lemma run_destroyed:
  assumes inv: "server_inv w" and q: "queued w l = DestroyedF conn # fs" and t: "current_thread w = l"
  shows "\<exists>w'. conn_destroyed conn (dequeue l w) = Inr w' \<and> server_inv w'"
proof -
  note ok = server_invD(8) [OF inv, of conn]
  obtain c where c: "conn_objs w conn = Some c" and cq: "\<And>m. conn_queued w conn c m"
    using queued_object [OF inv q, of conn] by auto
  have st: "sc_state c = kDisconnected" "sc_loop c = l" "\<not> in_map w conn c"
    using cq [of l] q by (auto simp: conn_queued_def split: if_splits)
  let ?w = "set_state conn kDisconnected (dequeue l w)"
  have "conn_destroyed conn (dequeue l w) = Inr ?w"
    by (simp add: conn_destroyed_def conn_obj_def c st t life_destroyed_def)
  moreover have "server_inv ?w"
  proof (rule server_inv_one [OF inv, where conn = conn])
    show "names_ok ?w" by (rule names_set_state) (simp add: names_dequeue server_invD(7) [OF inv])
    have "conn_queued ?w conn (c\<lparr>sc_state := kDisconnected\<rparr>) m" for m
      using cq [of m] st q by (auto simp: conn_queued_def in_map_def)
    then show "conn_ok ?w conn"
      using conn_okD(1,3) [OF ok c] c st by (auto simp: conn_ok_def in_map_def name_of_def)
  qed (use server_invD(1-3) [OF inv] q in \<open>auto simp: in_map_def\<close>)
  ultimately show ?thesis by blast
qed

text \<open>Erasing a connection. The state is one in which the connection is closed and nothing is queued for it,
  but for its removal, which is being run.\<close>

definition erased :: "addr \<Rightarrow> server_conn \<Rightarrow> TcpServer \<Rightarrow> TcpServer" where
  "erased conn c w =
     queue_in (sc_loop c) (DestroyedF conn) (w\<lparr>connections := (connections w)(sc_name c := None)\<rparr>)"

lemma erased_fields [simp]:
  "loop_thread (erased conn c w) = loop_thread w" "current_thread (erased conn c w) = current_thread w"
  "conn_objs (erased conn c w) = conn_objs w" "connections (erased conn c w) = (connections w)(sc_name c := None)"
  "thread_pool (erased conn c w) = thread_pool w" "ip_port (erased conn c w) = ip_port w"
  "server_name (erased conn c w) = server_name w" "next_conn_id (erased conn c w) = next_conn_id w"
  "queued (erased conn c w) l' = queued w l' @ (if l' = sc_loop c then [DestroyedF conn] else [])"
  by (simp_all add: erased_def)

lemma removeInLoop_eq:
  assumes "conn_objs w conn = Some c" and "in_map w conn c" and "current_thread w = loop_thread w"
  shows "removeConnectionInLoop conn w = Inr (erased conn c w)"
  using assms by (auto simp: removeConnectionInLoop_def assertInLoopThread_def conn_obj_def in_map_def erased_def domI)

lemma names_erased: "names_ok w \<Longrightarrow> names_ok (erased conn c w)"
  by (auto simp: names_ok_def)

lemma other_name: "names_ok w \<Longrightarrow> conn_objs w conn = Some c \<Longrightarrow> conn_objs w a = Some d \<Longrightarrow> a \<noteq> conn \<Longrightarrow> sc_name d \<noteq> sc_name c"
  by (auto simp: names_ok_def)

lemma run_remove:
  assumes inv: "server_inv w" and q: "queued w l = RemoveInLoopF conn # fs" and t: "current_thread w = l"
  shows "\<exists>w'. removeConnectionInLoop conn (dequeue l w) = Inr w' \<and> server_inv w'"
proof -
  note ok = server_invD(8) [OF inv, of conn] and n = server_invD(7) [OF inv]
  obtain c where c: "conn_objs w conn = Some c" and cq: "\<And>m. conn_queued w conn c m"
    using queued_object [OF inv q, of conn] by auto
  have st: "sc_state c = kDisconnected" "loop_thread w = l" "in_map w conn c"
    using cq [of l] q by (simp_all add: conn_queued_def split: if_splits)
  let ?w = "erased conn c (dequeue l w)"
  have "removeConnectionInLoop conn (dequeue l w) = Inr ?w"
    by (rule removeInLoop_eq) (use c st t in \<open>simp_all add: in_map_def\<close>)
  moreover have "server_inv ?w"
  proof (rule server_inv_one [OF inv, where conn = conn])
    show "names_ok ?w" by (rule names_erased) (simp add: names_dequeue n)
    have "conn_queued ?w conn c m" for m
      using cq [of m] st q by (auto simp: conn_queued_def in_map_def)
    then show "conn_ok ?w conn"
      using conn_okD(3) [OF ok c] c st by (auto simp: conn_ok_def name_of_def)
    show "in_map ?w a d = in_map w a d" if "a \<noteq> conn" "conn_objs w a = Some d" for a d
      using other_name [OF n c that(2,1)] by (simp add: in_map_def)
  qed (use server_invD(1-3) [OF inv] q in auto)
  ultimately show ?thesis by blast
qed

text \<open>Closing a connection, in the base loop (where it is erased at once) or in another one.\<close>

lemma close_ok:
  assumes inv: "server_inv w" and c: "conn_objs w conn = Some c" and st: "sc_state c = kConnected \<or> sc_state c = kDisconnecting"
    and t: "current_thread w = sc_loop c"
  shows "\<exists>w'. conn_close conn w = Inr w' \<and> server_inv w'"
proof -
  note ok = server_invD(8) [OF inv, of conn] and n = server_invD(7) [OF inv]
  let ?c = "c\<lparr>sc_state := kDisconnected\<rparr>"
  let ?v = "set_state conn kDisconnected w"
  have im: "in_map w conn c" using conn_okD(1) [OF ok c] st by auto
  have v: "conn_objs ?v conn = Some ?c" "in_map ?v conn ?c" "names_ok ?v"
    using c im names_set_state [OF n] by (simp_all add: in_map_def)
  have cq: "conn_queued w conn c m" for m by (rule conn_okD(2) [OF ok c])
  have eq: "conn_close conn w = removeConnection conn ?v"
    using c st t by (auto simp: conn_close_def conn_obj_def life_close_def)
  have other: "in_map w' a d = in_map w a d"
    if "a \<noteq> conn" "conn_objs w a = Some d" "connections w' \<in> {connections w, (connections w)(sc_name c := None)}" for a d w'
    using other_name [OF n c that(2,1)] that(3) by (auto simp: in_map_def)
  show ?thesis
  proof (cases "current_thread w = loop_thread w")
    case True
    let ?w = "erased conn ?c ?v"
    have "conn_close conn w = Inr ?w"
      using removeInLoop_eq [OF v(1,2)] True by (simp add: eq removeConnection_def run_at_def)
    moreover have "server_inv ?w"
    proof (rule server_inv_one [OF inv, where conn = conn])
      have "conn_queued ?w conn ?c m" for m using cq [of m] st by (auto simp: conn_queued_def in_map_def)
      then show "conn_ok ?w conn" using conn_okD(3) [OF ok c] c by (auto simp: conn_ok_def name_of_def)
      show "in_map ?w a d = in_map w a d" if "a \<noteq> conn" "conn_objs w a = Some d" for a d
        by (rule other [OF that]) simp
      show "names_ok ?w" by (rule names_erased [OF v(3)])
    qed (use server_invD(1-3) [OF inv] in auto)
    ultimately show ?thesis by blast
  next
    case False
    let ?w = "queue_in (loop_thread w) (RemoveInLoopF conn) ?v"
    have "conn_close conn w = Inr ?w" using False by (simp add: eq removeConnection_def run_at_def)
    moreover have "server_inv ?w"
    proof (rule server_inv_one [OF inv, where conn = conn])
      have "conn_queued ?w conn ?c m" for m using cq [of m] st im by (auto simp: conn_queued_def in_map_def)
      then show "conn_ok ?w conn" using conn_okD(3) [OF ok c] c im by (auto simp: conn_ok_def name_of_def in_map_def)
      show "in_map ?w a d = in_map w a d" if "a \<noteq> conn" "conn_objs w a = Some d" for a d
        by (rule other [OF that]) simp
      show "names_ok ?w" using v(3) by (simp only: names_ok_def queue_in_fields)
    qed (use server_invD(1-3) [OF inv] in auto)
    ultimately show ?thesis by blast
  qed
qed

lemma conn_shutdown_ok:
  assumes inv: "server_inv w" and c: "conn_objs w conn = Some c"
  shows "\<exists>w'. conn_shutdown conn w = Inr w' \<and> server_inv w'"
proof -
  note ok = server_invD(8) [OF inv, of conn]
  let ?s = "life_shutdown (sc_state c)"
  let ?w = "set_state conn ?s w"
  have "server_inv ?w"
  proof (rule server_inv_one [OF inv, where conn = conn])
    have "conn_queued ?w conn (c\<lparr>sc_state := ?s\<rparr>) m" for m
      using conn_okD(2) [OF ok c, of m] by (auto simp: conn_queued_def in_map_def life_shutdown_def)
    then show "conn_ok ?w conn"
      using conn_okD(1,3) [OF ok c] c by (auto simp: conn_ok_def in_map_def name_of_def life_shutdown_def)
    show "names_ok ?w" by (rule names_set_state [OF server_invD(7) [OF inv]])
  qed (use server_invD(1-3) [OF inv] in \<open>auto simp: in_map_def\<close>)
  then show ?thesis using c by (simp add: conn_shutdown_def conn_obj_def)
qed

lemma getNextLoop_server:
  assumes "server_inv w" and "current_thread w = loop_thread w"
  obtains l p where "getNextLoop (current_thread w) (thread_pool w) = Inr (l, p)" "pool_start p" "index_inv p"
    "baseLoop p = loop_thread w"
proof -
  note inv = server_invD(1-3) [OF assms(1)]
  let ?p = "thread_pool w"
  let ?q = "if loops ?p = [] then ?p else ?p\<lparr>next_loop := (next_loop ?p + 1) mod int (length (loops ?p))\<rparr>"
  have "pool_start ?q" "index_inv ?q" "baseLoop ?q = loop_thread w"
    using inv index_inv_next [OF inv(2)] by simp_all
  then show thesis using that getNextLoop_eq [OF inv(2,1)] inv(3) assms(2) by metis
qed

lemma newConnection_ok:
  assumes inv: "server_inv w" and t: "current_thread w = loop_thread w" and fresh: "conn_objs w conn = None"
    and id: "next_conn_id w < 2 ^ 31"
  shows "\<exists>w'. TcpServer_newConnection conn fd peer w = Inr w' \<and> server_inv w'"
proof -
  note ok = server_invD(8) [OF inv] and n = server_invD(7) [OF inv] and one = server_invD(5) [OF inv]
  obtain l p where p: "getNextLoop (current_thread w) (thread_pool w) = Inr (l, p)" "pool_start p" "index_inv p"
    "baseLoop p = loop_thread w" by (rule getNextLoop_server [OF inv t])
  let ?c = "\<lparr>sc_name = connName w, sc_loop = l, sc_fd = fd, sc_peer = peer, sc_state = kConnecting\<rparr>"
  define v where "v = w\<lparr>thread_pool := p, next_conn_id := next_conn_id w + 1, conn_objs := (conn_objs w)(conn \<mapsto> ?c),
    connections := (connections w)(connName w \<mapsto> conn)\<rparr>"
  have v [simp]: "loop_thread v = loop_thread w" "current_thread v = current_thread w" "ip_port v = ip_port w"
    "server_name v = server_name w" "thread_pool v = p" "next_conn_id v = next_conn_id w + 1"
    "conn_objs v = (conn_objs w)(conn \<mapsto> ?c)" "connections v = (connections w)(connName w \<mapsto> conn)"
    "queued v m = queued w m" for m
    by (simp_all add: v_def)
  have name: "connName w = name_of w (next_conn_id w)"
    by (rule connName_eq) (use server_invD(4) [OF inv] one id in simp_all)
  have new: "sc_name d \<noteq> connName w" if d: "conn_objs w a = Some d" for a d
  proof -
    obtain k where "1 \<le> k" "k < next_conn_id w" "sc_name d = name_of w k" using conn_okD(3) [OF ok d] by blast
    then show ?thesis using name name_of_inject [of k "next_conn_id w" w] by auto
  qed
  have names: "names_ok v"
    unfolding names_ok_def
  proof (intro conjI allI impI)
    fix m a assume "connections v m = Some a"
    then have "m = connName w \<and> a = conn \<or> connections w m = Some a" by (auto split: if_splits)
    then show "\<exists>c. conn_objs v a = Some c \<and> sc_name c = m"
    proof
      assume "connections w m = Some a"
      then obtain d where "conn_objs w a = Some d" "sc_name d = m" using n unfolding names_ok_def by blast
      with fresh show ?thesis by auto
    qed simp
  next
    fix a b d d' assume *: "conn_objs v a = Some d" "conn_objs v b = Some d'" "sc_name d = sc_name d'"
    show "a = b"
    proof (cases "a = conn \<or> b = conn")
      case True
      with * new [of a d] new [of b d'] show ?thesis by (auto split: if_splits)
    next
      case False
      with * n show ?thesis unfolding names_ok_def by (metis v(7) fun_upd_other)
    qed
  qed
  have none: "count_list (queued w m) f = 0" if "f \<in> {EstablishedF conn, RemoveInLoopF conn, DestroyedF conn}" for m f
    using ok [of conn] fresh that by (auto simp: conn_ok_def count_list_0_iff)
  have eq: "TcpServer_newConnection conn fd peer w = run_at 0 l (EstablishedF conn) v"
    using p(1) t by (simp add: TcpServer_newConnection_def assertInLoopThread_def v_def Let_def)
  have k: "\<exists>k. 1 \<le> k \<and> k < next_conn_id w + 1 \<and> connName w = name_of w k"
    using one name by (intro exI [of _ "next_conn_id w"]) simp
  have other: "in_map w' a d = in_map w a d"
    if "a \<noteq> conn" "conn_objs w a = Some d" "connections w' = connections v" for a d w'
    using new [OF that(2)] that(3) by (simp add: in_map_def)
  show ?thesis
  proof (cases "l = current_thread w")
    case True
    let ?w = "set_state conn kConnected v"
    have "TcpServer_newConnection conn fd peer w = Inr ?w"
      using True by (simp add: eq run_at_def conn_established_def conn_obj_def life_established_def)
    moreover have "server_inv ?w"
    proof (rule server_inv_one [OF inv, where conn = conn])
      show "conn_ok ?w conn" using none k by (auto simp: conn_ok_def conn_queued_def in_map_def name_of_def)
      show "names_ok ?w" by (rule names_set_state [OF names])
      show "in_map ?w a d = in_map w a d" if "a \<noteq> conn" "conn_objs w a = Some d" for a d
        by (rule other [OF that]) simp
    qed (use p in auto)
    ultimately show ?thesis by blast
  next
    case False
    let ?w = "queue_in l (EstablishedF conn) v"
    have "TcpServer_newConnection conn fd peer w = Inr ?w" using False by (simp add: eq run_at_def)
    moreover have "server_inv ?w"
    proof (rule server_inv_one [OF inv, where conn = conn])
      show "conn_ok ?w conn" using none k by (auto simp: conn_ok_def conn_queued_def in_map_def name_of_def)
      show "names_ok ?w" using names by (simp only: names_ok_def queue_in_fields)
      show "in_map ?w a d = in_map w a d" if "a \<noteq> conn" "conn_objs w a = Some d" for a d
        by (rule other [OF that]) simp
    qed (use p in auto)
    ultimately show ?thesis by blast
  qed
qed

subsection \<open>Runs of a server\<close>

text \<open>What the threads do: the base loop accepts (or fails to), any loop runs the functor at the front of its
  queue, the loop of a connection closes it, any thread shuts it down.\<close>

datatype server_event =
    SAccept "accept_errno + int \<times> InetAddress" addr int int
  | SRun nat
  | SClose addr
  | SShutdown addr

definition in_thread :: "nat \<Rightarrow> TcpServer \<Rightarrow> TcpServer" where
  "in_thread t w = w\<lparr>current_thread := t\<rparr>"

fun server_step :: "byte_order \<Rightarrow> server_event \<Rightarrow> TcpServer \<Rightarrow> TcpServer result" where
  "server_step e (SAccept outcome conn again reopened) w =
     Acceptor_handleRead e (TcpServer_newConnection conn) outcome again reopened (in_thread (loop_thread w) w)"
| "server_step e (SRun l) w =
     (case queued w l of
        [] \<Rightarrow> Inr w
      | f # fs \<Rightarrow> run_server_functor 0 f (dequeue l (in_thread l w)))"
| "server_step e (SClose conn) w =
     result_bind (conn_obj conn w) (\<lambda>c. conn_close conn (in_thread (sc_loop c) w))"
| "server_step e (SShutdown conn) w = conn_shutdown conn w"

text \<open>The events that can happen: \<open>accept4\<close> fails only with an error the wrapper lets through, a new object
  has a new identity, fewer than 2^31 - 1 connections were made, and the channel of a connection reports
  events only while it is connected.\<close>

fun server_event_ok :: "server_event \<Rightarrow> TcpServer \<Rightarrow> bool" where
  "server_event_ok (SAccept outcome conn again reopened) w \<longleftrightarrow>
     (case outcome of Inl err \<Rightarrow> err \<in> {EAGAIN, ECONNABORTED, EINTR, EPERM, EPROTO, EMFILE} | Inr _ \<Rightarrow> True) \<and>
     conn_objs w conn = None \<and> next_conn_id w < 2 ^ 31 - 1"
| "server_event_ok (SRun l) w \<longleftrightarrow> True"
| "server_event_ok (SClose conn) w \<longleftrightarrow>
     (\<exists>c. conn_objs w conn = Some c \<and> (sc_state c = kConnected \<or> sc_state c = kDisconnecting))"
| "server_event_ok (SShutdown conn) w \<longleftrightarrow> conn_objs w conn \<noteq> None"

lemma in_thread_fields [simp]:
  "server_inv (in_thread t w) = server_inv w" "queued (in_thread t w) l = queued w l"
  "conn_objs (in_thread t w) = conn_objs w" "loop_thread (in_thread t w) = loop_thread w"
  "next_conn_id (in_thread t w) = next_conn_id w" "current_thread (in_thread t w) = t"
  by (simp_all add: in_thread_def)

lemma server_step_inv:
  assumes inv: "server_inv w" and ok: "server_event_ok ev w"
  shows "\<exists>w'. server_step e ev w = Inr w' \<and> server_inv w'"
proof (cases ev)
  case (SAccept outcome conn again reopened)
  let ?w = "in_thread (loop_thread w) w"
  have closed: "server_inv (close_file fd ?w)" "server_inv ((close_file fd (close_file fd' ?w))\<lparr>idle_fd := x\<rparr>)" for fd fd' x
    using inv server_inv_cong [of "close_file fd ?w" ?w] server_inv_cong [of "(close_file fd (close_file fd' ?w))\<lparr>idle_fd := x\<rparr>" ?w]
    by (simp_all add: close_file_def)
  have "\<exists>w'. TcpServer_newConnection conn fd peer ?w = Inr w' \<and> server_inv w'" for fd peer
    by (rule newConnection_ok) (use inv ok SAccept in auto)
  with closed inv ok SAccept show ?thesis
    by (auto simp: Acceptor_handleRead_def assertInLoopThread_def Socket_accept_def sockets_accept_def split: sum.splits)
next
  case (SRun l)
  show ?thesis
  proof (cases "queued w l")
    case (Cons f fs)
    let ?w = "in_thread l w"
    have "queued ?w l = f # fs" "server_inv ?w" "current_thread ?w = l" using Cons inv by simp_all
    moreover from this have "f \<noteq> ListenF" using server_invD(6) [of ?w l] by auto
    ultimately show ?thesis
      using SRun Cons run_established [of ?w l] run_remove [of ?w l] run_destroyed [of ?w l] by (cases f) simp_all
  qed (use SRun inv in simp)
next
  case (SClose conn)
  with ok obtain c where c: "conn_objs w conn = Some c" "sc_state c = kConnected \<or> sc_state c = kDisconnecting" by auto
  have "\<exists>w'. conn_close conn (in_thread (sc_loop c) w) = Inr w' \<and> server_inv w'"
    by (rule close_ok) (use inv c in simp_all)
  with SClose c(1) show ?thesis by (simp add: conn_obj_def)
next
  case (SShutdown conn)
  with ok conn_shutdown_ok [OF inv] show ?thesis by auto
qed

abbreviation server_run :: "byte_order \<Rightarrow> TcpServer \<Rightarrow> TcpServer \<Rightarrow> bool" where
  "server_run e w0 \<equiv> machine_run (server_step e) server_event_ok silent w0 []"

interpretation server: safe_machine "server_step e" server_event_ok server_inv for e
  by unfold_locales (rule server_step_inv)

text \<open>A server constructed, told its number of threads and started.\<close>

definition server_boot ::
  "(char list \<Rightarrow> string) \<Rightarrow> byte_order \<Rightarrow> InetAddress \<Rightarrow> string \<Rightarrow> Option \<Rightarrow> int \<Rightarrow> addr \<Rightarrow> int \<Rightarrow> int \<Rightarrow> int \<Rightarrow> (nat \<Rightarrow> nat) \<Rightarrow>
    int \<Rightarrow> server_functor EventLoop \<Rightarrow> TcpServer result" where
  "server_boot ntop6 e a name option fd c idle bind_ret n spawn listen_ret l =
     result_bind (TcpServer_new ntop6 e a name option fd c idle bind_ret l) (\<lambda>w.
     result_bind (TcpServer_setThreadNum n w) (\<lambda>w1. TcpServer_start spawn listen_ret w1))"

text \<open>The server before \<open>start\<close>, and after the pool has started.\<close>

definition server_ready ::
  "(char list \<Rightarrow> string) \<Rightarrow> byte_order \<Rightarrow> InetAddress \<Rightarrow> string \<Rightarrow> Option \<Rightarrow> int \<Rightarrow> addr \<Rightarrow> int \<Rightarrow>
    EventLoopThreadPool \<Rightarrow> server_functor EventLoop \<Rightarrow> TcpServer" where
  "server_ready ntop6 e a name option fd c idle p l =
     Acceptor.extend
       (set_chan c (Channel_new fd\<lparr>read_callback := True\<rparr>)
         (EventLoop.EventLoop.extend l
           (Acceptor.fields fd (setReusePort (option = kNoReusePort) (setReuseAddr True default_options)) c True True idle [])))
       (TcpServer.fields (InetAddress_toIpStr ntop6 e a) name p True 1 Map.empty Map.empty (\<lambda>_. []))"

lemma server_ready_fields [simp]:
  "loop_thread (server_ready ntop6 e a name option fd c idle p l) = loop_thread l"
  "current_thread (server_ready ntop6 e a name option fd c idle p l) = current_thread l"
  "chans (server_ready ntop6 e a name option fd c idle p l) = (chans l)(c \<mapsto> Channel_new fd\<lparr>read_callback := True\<rparr>)"
  "channels (server_ready ntop6 e a name option fd c idle p l) = channels l"
  "ctl_log (server_ready ntop6 e a name option fd c idle p l) = ctl_log l"
  "events_size (server_ready ntop6 e a name option fd c idle p l) = events_size l"
  "pending_functors (server_ready ntop6 e a name option fd c idle p l) = pending_functors l"
  "accept_channel (server_ready ntop6 e a name option fd c idle p l) = c"
  "listening (server_ready ntop6 e a name option fd c idle p l)"
  "has_new_connection_callback (server_ready ntop6 e a name option fd c idle p l)"
  "thread_pool (server_ready ntop6 e a name option fd c idle p l) = p"
  "ip_port (server_ready ntop6 e a name option fd c idle p l) = InetAddress_toIpStr ntop6 e a"
  "server_name (server_ready ntop6 e a name option fd c idle p l) = name"
  "next_conn_id (server_ready ntop6 e a name option fd c idle p l) = 1"
  "conn_objs (server_ready ntop6 e a name option fd c idle p l) = Map.empty"
  "connections (server_ready ntop6 e a name option fd c idle p l) = Map.empty"
  "io_functors (server_ready ntop6 e a name option fd c idle p l) = (\<lambda>_. [])"
  by (simp_all add: server_ready_def Acceptor.defs TcpServer.defs EventLoop.EventLoop.defs set_chan_def)

lemma boot_eq:
  assumes "current_thread l = loop_thread l" and "0 \<le> fd" and "0 \<le> bind_ret" and "0 \<le> listen_ret" and "0 \<le> n"
    and "EventLoopThreadPool_start (loop_thread l) spawn (Pool_setThreadNum n (EventLoopThreadPool_new (loop_thread l) name)) = Inr p"
  shows "server_boot ntop6 e a name option fd c idle bind_ret n spawn listen_ret l =
     Channel_change EnableReading c (server_ready ntop6 e a name option fd c idle p l)"
  using assms
  by (simp add: server_boot_def TcpServer_new_def Acceptor_new_def createNonblockingSocketOrDie_def bindOrDie_def
      setNewConnectionCallback_def TcpServer_setThreadNum_def TcpServer_start_def run_at_def Acceptor_listen_def listenOrDie_def
      server_ready_def assertInLoopThread_def Acceptor.defs TcpServer.defs EventLoop.EventLoop.defs set_chan_def Let_def)

lemma EP_inv_server_ready:
  assumes "EP_inv l" and "chans l c = None"
  shows "EP_inv (server_ready ntop6 e a name option fd c idle p l)"
proof -
  let ?l = "Channel_create c fd l"
  have "EP_inv (set_chan c (Channel_new fd\<lparr>read_callback := True\<rparr>) ?l)"
    by (rule EP_inv_set_chan [OF EP_inv_create [OF assms]]) (simp_all add: Channel_create_def)
  then show ?thesis
    using EP_inv_cong [of "server_ready ntop6 e a name option fd c idle p l" "set_chan c (Channel_new fd\<lparr>read_callback := True\<rparr>) ?l"]
    by (simp add: Channel_create_def)
qed

lemma boot_ok:
  assumes "EP_inv l" and "pending_functors l = []" and "chans l c = None" and "channels l fd = None"
    and "0 \<le> fd" and "0 \<le> bind_ret" and "0 \<le> listen_ret" and "0 \<le> n"
  shows "\<exists>w. server_boot ntop6 e a name option fd c idle bind_ret n spawn listen_ret l = Inr w \<and>
     server_inv w \<and> EP_inv w \<and> listening w \<and> has_new_connection_callback w \<and> conn_objs w = Map.empty \<and> next_conn_id w = 1"
proof -
  let ?p = "started_pool (loop_thread l) name n spawn"
  let ?w = "server_ready ntop6 e a name option fd c idle ?p l"
  let ?ch = "Channel_new fd\<lparr>read_callback := True\<rparr>"
  let ?w' = "changed EnableReading c ?ch ?w"
  have t: "current_thread l = loop_thread l" using EP_invD(5) [OF assms(1)] by simp
  note ep = EP_inv_server_ready [OF assms(1,3), of ntop6 e a name option fd idle ?p]
  have ch: "chans ?w c = Some ?ch" "channels ?w (ch_fd ?ch) = None \<or> channels ?w (ch_fd ?ch) = Some c"
    using assms(4) by (simp_all add: Channel_new_def)
  have "server_boot ntop6 e a name option fd c idle bind_ret n spawn listen_ret l = Inr ?w'"
    using boot_eq [OF t assms(5-8) pool_started] Channel_change_eq [OF ep ch] by simp
  moreover have "server_inv ?w'"
    using assms(2) length_toIpStr [of ntop6 e a]
    by (simp add: server_inv_def names_ok_def conn_ok_def queued_def changed_def Let_def)
  moreover have "EP_inv ?w'" by (rule EP_inv_changed [OF ep ch])
  ultimately show ?thesis by (simp add: changed_def Let_def)
qed

text \<open>What the methods of a connection do to its state.\<close>

lemma Channel_change_state: "EP_inv w \<Longrightarrow> Channel_change x (conn_channel w) w = Inr w' \<Longrightarrow> conn_state w' = conn_state w"
  for w :: TcpConnection
  by (erule (1) Channel_change_Inr) (simp add: changed_def Let_def)

lemma Channel_remove_state: "EP_inv w \<Longrightarrow> Channel_remove (conn_channel w) w = Inr w' \<Longrightarrow> conn_state w' = conn_state w"
  for w :: TcpConnection
  by (erule (1) Channel_remove_Inr) (simp add: unregistered_def)

lemma EP_inv_setState: "EP_inv (setState s w) = EP_inv w"
  by (rule EP_inv_cong) (simp_all add: setState_def)

lemma callback_state: "connection_callback w = Inr w' \<Longrightarrow> conn_state w' = conn_state w"
  by (auto simp: connection_callback_def call_user_def result_eqs)

lemma disable_then_callback_state:
  assumes "EP_inv w" and "result_bind (Channel_change DisableAll (conn_channel w) (setState s w)) connection_callback = Inr w'"
  shows "conn_state w' = s \<and> EP_inv w' \<and> conn_channel w' = conn_channel w"
proof -
  obtain w1 where w1: "Channel_change DisableAll (conn_channel w) (setState s w) = Inr w1" "connection_callback w1 = Inr w'"
    using assms(2) by (auto simp: result_eqs)
  have ep: "EP_inv (setState s w)" using assms(1) by (simp add: EP_inv_setState)
  obtain ch where "w1 = changed DisableAll (conn_channel w) ch (setState s w)" by (rule Channel_change_Inr [OF ep w1(1)])
  moreover have "EP_inv w1" by (rule EP_inv_change [OF ep w1(1)])
  moreover have "w' = w1\<lparr>calls := calls w1 @ [ConnectionCall (isConnected w1)]\<rparr>"
    using w1(2) by (auto simp: connection_callback_def call_user_def result_eqs)
  moreover have "EP_inv (w1\<lparr>calls := x\<rparr>) = EP_inv w1" for x by (rule EP_inv_cong) simp_all
  ultimately show ?thesis by (simp add: changed_def setState_def Let_def)
qed

lemma life_refines_close:
  assumes "EP_inv w" and "handleClose w = Inr w'"
  shows "life_close (conn_state w) = Inr (conn_state w')"
proof -
  from assms(2) obtain w2 where st: "conn_state w = kConnected \<or> conn_state w = kDisconnecting"
    and w2: "result_bind (Channel_change DisableAll (conn_channel w) (setState kDisconnected w)) connection_callback = Inr w2"
    and w': "w' = w2\<lparr>calls := calls w2 @ [CloseCall]\<rparr>"
    by (auto simp: handleClose_def assertInLoopThread_def call_user_def result_eqs)
  from disable_then_callback_state [OF assms(1) w2] st w' show ?thesis by (simp add: life_close_def)
qed

lemma life_refines_destroyed:
  assumes "EP_inv w" and "connectDestroyed w = Inr w'"
  shows "conn_state w' = life_destroyed (conn_state w)"
proof (cases "conn_state w = kConnected")
  case True
  with assms(2) obtain w1 where
    w1: "result_bind (Channel_change DisableAll (conn_channel w) (setState kDisconnected w)) connection_callback = Inr w1"
      "Channel_remove (conn_channel w1) w1 = Inr w'"
    by (auto simp: connectDestroyed_def assertInLoopThread_def result_eqs)
  from disable_then_callback_state [OF assms(1) w1(1)] Channel_remove_state [OF _ w1(2)] True
  show ?thesis by (simp add: life_destroyed_def)
next
  case False
  with assms Channel_remove_state [OF assms(1)] show ?thesis
    by (auto simp: connectDestroyed_def assertInLoopThread_def life_destroyed_def result_eqs)
qed

lemma life_refines_established:
  assumes "EP_inv w" and "connectEstablished obj w = Inr w'"
  shows "life_established (conn_state w) = Inr (conn_state w')"
proof -
  let ?v = "setState kConnected w"
  from assms(2) obtain ch w1 where st: "conn_state w = kConnecting" and ch: "chans w (conn_channel w) = Some ch"
    and w1: "Channel_change EnableReading (conn_channel w) (set_chan (conn_channel w) (Channel_tie obj ch) ?v) = Inr w1"
      "connection_callback w1 = Inr w'"
    by (auto simp: connectEstablished_def assertInLoopThread_def chan_def setState_def result_eqs Let_def
        split: option.splits)
  have "EP_inv (set_chan (conn_channel w) (Channel_tie obj ch) ?v)"
    by (rule EP_inv_set_chan [of _ _ ch]) (use assms(1) ch in \<open>simp_all add: EP_inv_setState setState_def Channel_tie_def\<close>)
  then have "conn_state w1 = kConnected"
    using Channel_change_state [of "set_chan (conn_channel w) (Channel_tie obj ch) ?v"] w1(1)
    by (simp add: set_chan_def setState_def)
  with callback_state [OF w1(2)] st show ?thesis by (simp add: life_established_def)
qed

lemma life_refines_shutdown: "TcpConnection_shutdown w = Inr w' \<Longrightarrow> conn_state w' = life_shutdown (conn_state w)"
  by (auto simp: TcpConnection_shutdown_def runInLoop_def shutdownInLoop_def assertInLoopThread_def chan_def setState_def
      life_shutdown_def result_eqs split: if_splits option.splits)

lemmas life_refines = life_refines_established life_refines_shutdown life_refines_close life_refines_destroyed

text \<open>\<open>SO_REUSEPORT\<close> is set exactly when the option asks for no reuse.\<close>

lemma reuse_port_inverted:
  "TcpServer_new ntop6 e a name option fd c idle bind_ret l = Inr w \<Longrightarrow>
     opt_reuseport (accept_options w) \<longleftrightarrow> option = kNoReusePort"
  by (auto simp: TcpServer_new_def Acceptor_new_def setNewConnectionCallback_def setReusePort_def setsockopt_int_def on_off_def
      createNonblockingSocketOrDie_def bindOrDie_def Acceptor.defs TcpServer.defs EventLoop.EventLoop.defs set_chan_def
      result_eqs Let_def split: if_splits)

subsection \<open>Properties\<close>


definition demo_base_loop :: "server_functor EventLoop" where
  "demo_base_loop =
     \<lparr>chans = Map.empty, channels = Map.empty, events_size = 16, ctl_log = [], loop_thread = 1,
      current_thread = 1, loop_handling = False, active_channels = [], current_active_channel = None,
      looping = False, quit_flag = False, calling_pending_functors = False, iteration = 0,
      poll_return_time = 0, wakeup_channel = 9, pending_functors = [], eventfd = 0\<rparr>"


end
