(* ===== verification/LogProducers.thy ===== *)
theory LogProducers
  imports LogBufferQueue
begin

text \<open>
  Several producers in \<open>LogBufferQueue::push\<close> at the same time (util/LogBufferQueue.cpp): each call is cut into its
  atomic operations, and the calls of any number of threads are interleaved.

  \<^item> The place of a thread inside \<open>push\<close>, \<open>LogBuffer::push\<close> and \<open>setupNextWriteLogBuffer\<close> is a \<open>producer\<close>, with the
    local variables that are live there; \<open>producer_step\<close> executes the next atomic operation.
  \<^item> Memory is sequentially consistent. The operations of \<open>RingQueue\<close> and the end of \<open>setupNextWriteLogBuffer\<close> are one
    step each, as their spin locks make them.
  \<^item> \<open>tickets\<close> is an auxiliary variable: the reservations of slots, in order, each with its thread and line;
    \<open>called\<close> are the lines a thread has passed to \<open>push\<close>.
\<close>

subsection \<open>The steps of a call\<close>

datatype producer =
    Idle
  | Reserving LogLine                 \<comment> \<open>before \<open>write_index_.fetch_add\<close>\<close>
  | Spinning LogLine                  \<comment> \<open>the loop on \<open>write_index_\<close>\<close>
  | Reserved LogLine nat              \<comment> \<open>before \<open>current_write_buffer_.load\<close>\<close>
  | Holding LogLine nat addr          \<comment> \<open>before the item is constructed\<close>
  | Written nat addr                  \<comment> \<open>before \<open>write_states_[write_index].store\<close>\<close>
  | Flagged nat addr                  \<comment> \<open>before \<open>write_states_[kSize].fetch_add\<close>\<close>
  | Resetting addr                    \<comment> \<open>before \<open>write_states_[kSize].store(0)\<close>\<close>
  | SettingUp                         \<comment> \<open>before \<open>backup_log_buffers_.pop\<close>\<close>
  | Publishing pointer                \<comment> \<open>before \<open>current_write_buffer_.store\<close>\<close>
  | Enqueuing pointer                 \<comment> \<open>before the critical section\<close>

definition push_call :: "LogLine \<Rightarrow> LogBufferQueue \<Rightarrow> producer result" where
  "push_call line q = assert_c (current_write q \<noteq> None) (Inr (Reserving line))"

definition reserve :: "LogLine \<Rightarrow> LogBufferQueue \<Rightarrow> producer \<times> LogBufferQueue" where
  "reserve line q =
     (if lq_write_index q < kSize then Reserved line (lq_write_index q) else Spinning line,
      q\<lparr>lq_write_index := lq_write_index q + 1\<rparr>)"

definition with_buffer :: "addr \<Rightarrow> LogBufferQueue \<Rightarrow> (LogBuffer \<Rightarrow> (LogBuffer \<times> producer) result) \<Rightarrow> (producer \<times> LogBufferQueue) result" where
  "with_buffer a q k =
     (case buffer_heap q a of
        None \<Rightarrow> Inl UseAfterFree
      | Some b \<Rightarrow> result_bind (k b) (\<lambda>(b', pc). Inr (pc, q\<lparr>buffer_heap := (buffer_heap q)(a \<mapsto> b')\<rparr>)))"

definition construct_item :: "LogLine \<Rightarrow> nat \<Rightarrow> LogBuffer \<Rightarrow> LogBuffer result" where
  "construct_item line i b =
     check OutOfBounds (i < length (buf_items b)) (Inr (b\<lparr>buf_items := (buf_items b)[i := Some line]\<rparr>))"

definition store_state :: "nat \<Rightarrow> nat \<Rightarrow> LogBuffer \<Rightarrow> LogBuffer result" where
  "store_state i v b =
     check OutOfBounds (i < length (write_states b)) (Inr (b\<lparr>write_states := (write_states b)[i := v]\<rparr>))"

definition take_buffer :: "LogBufferQueue \<Rightarrow> producer \<times> LogBufferQueue" where
  "take_buffer q =
     (case RingQueue_pop (backups q) of
        (None, r) \<Rightarrow> (Publishing (Some (next_addr q)),
                      q\<lparr>buffer_heap := (buffer_heap q)(next_addr q \<mapsto> LogBuffer_new), next_addr := next_addr q + 1, backups := r\<rparr>)
      | (Some p, r) \<Rightarrow> (Publishing p, q\<lparr>backups := r\<rparr>))"

fun producer_step :: "producer \<Rightarrow> LogBufferQueue \<Rightarrow> (producer \<times> LogBufferQueue) result" where
  "producer_step Idle q = Inr (Idle, q)"
| "producer_step (Reserving line) q = Inr (reserve line q)"
| "producer_step (Spinning line) q =
     (if kSize \<le> lq_write_index q then Inr (Spinning line, q)
      else result_bind (push_call line q) (\<lambda>pc. Inr (pc, q)))"
| "producer_step (Reserved line i) q =
     (case current_write q of None \<Rightarrow> Inl NullCallback | Some a \<Rightarrow> Inr (Holding line i a, q))"
| "producer_step (Holding line i a) q =
     with_buffer a q (\<lambda>b. result_bind (construct_item line i b) (\<lambda>b'. Inr (b', Written i a)))"
| "producer_step (Written i a) q =
     with_buffer a q (\<lambda>b. result_bind (store_state i 1 b) (\<lambda>b'. Inr (b', Flagged i a)))"
| "producer_step (Flagged i a) q =
     with_buffer a q (\<lambda>b. let n = write_states b ! kSize + 1
        in result_bind (store_state kSize n b) (\<lambda>b'. Inr (b', if n = kSize then Resetting a else Idle)))"
| "producer_step (Resetting a) q =
     with_buffer a q (\<lambda>b. result_bind (store_state kSize 0 b) (\<lambda>b'. Inr (b', SettingUp)))"
| "producer_step SettingUp q = Inr (take_buffer q)"
| "producer_step (Publishing p) q = Inr (Enqueuing p, q\<lparr>current_write := p\<rparr>)"
| "producer_step (Enqueuing p) q = Inr (Idle, q\<lparr>log_buffers := log_buffers q @ [p], lq_write_index := 0\<rparr>)"

subsection \<open>One producer alone\<close>

text \<open>Steps of one thread until it is idle again; \<open>n\<close> bounds their number.\<close>

fun run_alone :: "nat \<Rightarrow> producer \<Rightarrow> LogBufferQueue \<Rightarrow> (producer \<times> LogBufferQueue) result" where
  "run_alone 0 pc q = Inr (pc, q)"
| "run_alone (Suc n) pc q =
     (if pc = Idle then Inr (Idle, q) else result_bind (producer_step pc q) (\<lambda>(pc', q'). run_alone n pc' q'))"

subsection \<open>Producers together\<close>

record producers =
  pq :: LogBufferQueue
  pcs :: "nat \<Rightarrow> producer"
  tickets :: "(nat \<times> LogLine) list"
  called :: "nat \<Rightarrow> LogLine list"

definition producers_start :: producers where
  "producers_start = \<lparr>pq = LogBufferQueue_new, pcs = (\<lambda>_. Idle), tickets = [], called = (\<lambda>_. [])\<rparr>"

text \<open>Thread \<open>t\<close> calls \<open>push\<close>, or makes its next step.\<close>

datatype producer_event = PCall nat LogLine | PStep nat

definition ticket_of :: "nat \<Rightarrow> producer \<Rightarrow> LogBufferQueue \<Rightarrow> (nat \<times> LogLine) list" where
  "ticket_of t pc q =
     (case pc of Reserving line \<Rightarrow> if lq_write_index q < kSize then [(t, line)] else [] | _ \<Rightarrow> [])"

fun producers_step :: "producer_event \<Rightarrow> producers \<Rightarrow> producers result" where
  "producers_step (PCall t line) s =
     result_bind (push_call line (pq s)) (\<lambda>pc.
       Inr (s\<lparr>pcs := (pcs s)(t := pc), called := (called s)(t := called s t @ [line])\<rparr>))"
| "producers_step (PStep t) s =
     result_bind (producer_step (pcs s t) (pq s)) (\<lambda>(pc, q).
       Inr (s\<lparr>pq := q, pcs := (pcs s)(t := pc), tickets := tickets s @ ticket_of t (pcs s t) (pq s)\<rparr>))"

fun producers_event_ok :: "producer_event \<Rightarrow> producers \<Rightarrow> bool" where
  "producers_event_ok (PCall t line) s \<longleftrightarrow> pcs s t = Idle"
| "producers_event_ok (PStep t) s \<longleftrightarrow> pcs s t \<noteq> Idle"

subsection \<open>The invariant\<close>

text \<open>The slot a thread has reserved, whether its item and its flag are still missing.\<close>

fun slot :: "producer \<Rightarrow> nat option" where
  "slot (Reserved line i) = Some i"
| "slot (Holding line i a) = Some i"
| "slot (Written i a) = Some i"
| "slot (Flagged i a) = Some i"
| "slot _ = None"

fun unwritten :: "producer \<Rightarrow> bool" where
  "unwritten (Reserved line i) = True" | "unwritten (Holding line i a) = True" | "unwritten _ = False"

fun unflagged :: "producer \<Rightarrow> bool" where
  "unflagged (Reserved line i) = True" | "unflagged (Holding line i a) = True" | "unflagged (Written i a) = True"
| "unflagged _ = False"

fun switching :: "producer \<Rightarrow> bool" where
  "switching (Resetting a) = True" | "switching SettingUp = True" | "switching (Publishing p) = True"
| "switching (Enqueuing p) = True" | "switching _ = False"

text \<open>The line a thread still has to place, the buffer it writes to, and the line of its slot.\<close>

fun waiting_line :: "producer \<Rightarrow> LogLine list" where
  "waiting_line (Reserving line) = [line]" | "waiting_line (Spinning line) = [line]" | "waiting_line _ = []"

fun target :: "producer \<Rightarrow> addr option" where
  "target (Holding line i a) = Some a" | "target (Written i a) = Some a" | "target (Flagged i a) = Some a"
| "target _ = None"

fun carried :: "producer \<Rightarrow> LogLine option" where
  "carried (Reserved line i) = Some line" | "carried (Holding line i a) = Some line" | "carried _ = None"

text \<open>Slot \<open>i\<close> is held by a thread whose place satisfies \<open>P\<close>.\<close>

definition held :: "(producer \<Rightarrow> bool) \<Rightarrow> (nat \<Rightarrow> producer) \<Rightarrow> nat \<Rightarrow> bool" where
  "held P f i \<longleftrightarrow> (\<exists>t. slot (f t) = Some i \<and> P (f t))"

text \<open>The buffer \<open>W\<close> being written, of which \<open>n\<close> slots have been reserved by the tickets \<open>T\<close>.\<close>

definition current_ok :: "nat \<Rightarrow> nat \<Rightarrow> (nat \<times> LogLine) list \<Rightarrow> (nat \<Rightarrow> producer) \<Rightarrow> LogBuffer \<Rightarrow> bool" where
  "current_ok W n T f b \<longleftrightarrow>
     length (write_states b) = kSize + 1 \<and> length (buf_items b) = kSize + 1 \<and>
     write_states b ! kSize = card {i. i < n \<and> \<not> held (\<lambda>_. True) f i} \<and> write_states b ! kSize < kSize \<and>
     (\<forall>i < kSize. write_states b ! i = (if i < n \<and> \<not> held unflagged f i then 1 else 0)) \<and>
     (\<forall>i < n. \<not> held unwritten f i \<longrightarrow> buf_items b ! i = Some (snd (T ! (W * kSize + i))))"

definition slots_ok :: "nat \<Rightarrow> nat \<Rightarrow> (nat \<times> LogLine) list \<Rightarrow> (nat \<Rightarrow> producer) \<Rightarrow> bool" where
  "slots_ok W n T f \<longleftrightarrow>
     (\<forall>t i. slot (f t) = Some i \<longrightarrow>
        i < n \<and> fst (T ! (W * kSize + i)) = t \<and>
        (\<forall>l. carried (f t) = Some l \<longrightarrow> snd (T ! (W * kSize + i)) = l) \<and>
        (\<forall>a. target (f t) = Some a \<longrightarrow> a = W))"

text \<open>A buffer all of whose slots are filled; \<open>c\<close> is the value of its counter.\<close>

definition full_ok :: "(nat \<times> LogLine) list \<Rightarrow> nat \<Rightarrow> nat \<Rightarrow> LogBuffer \<Rightarrow> bool" where
  "full_ok T c k b \<longleftrightarrow>
     length (write_states b) = kSize + 1 \<and> length (buf_items b) = kSize + 1 \<and> write_states b ! kSize = c \<and>
     (\<forall>i < kSize. write_states b ! i = 1 \<and> buf_items b ! i = Some (snd (T ! (k * kSize + i))))"

definition olds_ok :: "(nat \<times> LogLine) list \<Rightarrow> nat \<Rightarrow> LogBufferQueue \<Rightarrow> bool" where
  "olds_ok T W q \<longleftrightarrow> (\<forall>k < W. \<exists>b. buffer_heap q k = Some b \<and> full_ok T 0 k b)"

definition running :: "nat \<Rightarrow> producers \<Rightarrow> bool" where
  "running W s \<longleftrightarrow>
     (\<forall>t. \<not> switching (pcs s t)) \<and> current_write (pq s) = Some W \<and> log_buffers (pq s) = map Some [0..<W + 1] \<and>
     next_addr (pq s) = W + 1 \<and> length (tickets s) = W * kSize + min (lq_write_index (pq s)) kSize \<and>
     olds_ok (tickets s) W (pq s) \<and>
     (\<exists>b. buffer_heap (pq s) W = Some b \<and>
        current_ok W (min (lq_write_index (pq s)) kSize) (tickets s) (pcs s) b) \<and>
     slots_ok W (min (lq_write_index (pq s)) kSize) (tickets s) (pcs s)"

text \<open>A thread has completed buffer \<open>W\<close> and is at place \<open>pc\<close> of installing the next one.\<close>

definition install_ok :: "nat \<Rightarrow> producer \<Rightarrow> (nat \<times> LogLine) list \<Rightarrow> LogBufferQueue \<Rightarrow> bool" where
  "install_ok W pc T q \<longleftrightarrow>
     (\<exists>b. buffer_heap q W = Some b \<and> full_ok T (if \<exists>a. pc = Resetting a then kSize else 0) W b) \<and>
     (case pc of
        Resetting a \<Rightarrow> a = W \<and> next_addr q = W + 1 \<and> current_write q = Some W
      | SettingUp \<Rightarrow> next_addr q = W + 1 \<and> current_write q = Some W
      | Publishing p \<Rightarrow> p = Some (W + 1) \<and> next_addr q = W + 2 \<and> buffer_heap q (W + 1) = Some LogBuffer_new \<and>
          current_write q = Some W
      | Enqueuing p \<Rightarrow> p = Some (W + 1) \<and> next_addr q = W + 2 \<and> buffer_heap q (W + 1) = Some LogBuffer_new \<and>
          current_write q = Some (W + 1)
      | _ \<Rightarrow> False)"

text \<open>Every other thread is outside or has to spin.\<close>

definition installing :: "nat \<Rightarrow> nat \<Rightarrow> producers \<Rightarrow> bool" where
  "installing W t s \<longleftrightarrow>
     (\<forall>u. u \<noteq> t \<longrightarrow> slot (pcs s u) = None \<and> \<not> switching (pcs s u)) \<and>
     kSize \<le> lq_write_index (pq s) \<and> length (tickets s) = W * kSize + kSize \<and>
     log_buffers (pq s) = map Some [0..<W + 1] \<and> olds_ok (tickets s) W (pq s) \<and>
     install_ok W (pcs s t) (tickets s) (pq s)"

definition quiet :: "producers \<Rightarrow> bool" where
  "quiet s \<longleftrightarrow>
     ring_inv 4 (backups (pq s)) \<and> ring_contents (backups (pq s)) = [] \<and> lq_read_index (pq s) = 0 \<and>
     current_read (pq s) = None \<and>
     (\<forall>t. map snd (filter (\<lambda>x. fst x = t) (tickets s)) @ waiting_line (pcs s t) = called s t)"

definition producers_inv :: "producers \<Rightarrow> bool" where
  "producers_inv s \<longleftrightarrow> quiet s \<and> (\<exists>W. running W s \<or> (\<exists>t. installing W t s))"

subsection \<open>Who holds a slot\<close>

lemma slots_okD:
  assumes "slots_ok W n T f" and "slot (f t) = Some i"
  shows "i < n" and "fst (T ! (W * kSize + i)) = t"
    and "carried (f t) = Some l \<Longrightarrow> snd (T ! (W * kSize + i)) = l" and "target (f t) = Some a \<Longrightarrow> a = W"
  using assms unfolding slots_ok_def by blast+

lemma slot_owner:
  "slots_ok W n T f \<Longrightarrow> slot (f t) = Some i \<Longrightarrow> slot (f u) = Some i \<Longrightarrow> u = t"
  unfolding slots_ok_def by metis

lemma held_below: "slots_ok W n T f \<Longrightarrow> held P f i \<Longrightarrow> i < n"
  unfolding slots_ok_def held_def by blast

lemma held_outside: "slot (f t) = None \<Longrightarrow> slot pc = None \<Longrightarrow> held P (f(t := pc)) = held P f"
  unfolding held_def fun_eq_iff by (metis fun_upd_apply option.distinct(1))

lemma held_upd:
  "held P (f(t := pc)) j \<longleftrightarrow> slot pc = Some j \<and> P pc \<or> (\<exists>u. u \<noteq> t \<and> slot (f u) = Some j \<and> P (f u))"
  unfolding held_def by auto

lemma held_enter:
  assumes "slot (f t) = None" and "slot pc = Some i"
  shows "held P (f(t := pc)) j \<longleftrightarrow> held P f j \<or> j = i \<and> P pc"
proof -
  have "held P f j \<longleftrightarrow> (\<exists>u. u \<noteq> t \<and> slot (f u) = Some j \<and> P (f u))"
    using assms(1) unfolding held_def by (metis option.distinct(1))
  then show ?thesis using assms(2) unfolding held_upd by auto
qed

lemma held_owner: "slots_ok W n T f \<Longrightarrow> slot (f t) = Some i \<Longrightarrow> held P f i \<longleftrightarrow> P (f t)"
  unfolding held_def by (metis slot_owner)

lemma held_change:
  assumes "slots_ok W n T f" and "slot (f t) = Some i" and "slot pc = Some i \<or> slot pc = None"
  shows "held P (f(t := pc)) j \<longleftrightarrow> (if j = i then slot pc = Some i \<and> P pc else held P f j)"
proof (cases "j = i")
  case True
  then have "\<not> (\<exists>u. u \<noteq> t \<and> slot (f u) = Some j \<and> P (f u))" using slot_owner [OF assms(1,2)] by blast
  with True show ?thesis unfolding held_upd by auto
next
  case False
  then have "slot pc \<noteq> Some j" "slot (f t) \<noteq> Some j" using assms(2,3) by auto
  with False show ?thesis unfolding held_upd held_def by auto
qed

lemma slots_ok_leave: "slots_ok W n T f \<Longrightarrow> slot pc = None \<Longrightarrow> slots_ok W n T (f(t := pc))"
  unfolding slots_ok_def by simp

lemma slots_ok_move:
  assumes "slots_ok W n T f" and "slot (f t) = Some i" and "slot pc = Some i"
    and "carried pc = None \<or> carried pc = carried (f t)" and "target pc = Some W"
  shows "slots_ok W n T (f(t := pc))"
  using assms unfolding slots_ok_def by (simp add: all_conj_distrib) (metis option.distinct(1))

lemma slots_ok_enter:
  assumes "slots_ok W n T f" and "length T = W * kSize + n"
  shows "slots_ok W (n + 1) (T @ [(t, l)]) (f(t := Reserved l n))"
  using assms unfolding slots_ok_def by (simp add: nth_append) (meson less_SucI)

subsection \<open>The buffer being written\<close>

lemma current_ok_held:
  assumes "\<And>i. held (\<lambda>_. True) f' i = held (\<lambda>_. True) f i" and "\<And>i. held unflagged f' i = held unflagged f i"
    and "\<And>i. held unwritten f' i = held unwritten f i" and "current_ok W n T f b"
  shows "current_ok W n T f' b"
  using assms(4) unfolding current_ok_def assms(1-3) .

lemma current_ok_enter:
  assumes c: "current_ok W n T f b" and s: "slots_ok W n T f" and "slot (f t) = None" and "length T = W * kSize + n"
  shows "current_ok W (n + 1) (T @ [(t, l)]) (f(t := Reserved l n)) b"
proof -
  have h: "held P (f(t := Reserved l n)) j \<longleftrightarrow> held P f j \<or> j = n \<and> P (Reserved l n)" for P j
    by (rule held_enter) (use assms in simp_all)
  have "{i. i < n + 1 \<and> \<not> held (\<lambda>_. True) (f(t := Reserved l n)) i} = {i. i < n \<and> \<not> held (\<lambda>_. True) f i}"
    unfolding h by auto
  with c assms(4) show ?thesis unfolding current_ok_def h by (simp add: nth_append less_Suc_eq)
qed

lemma current_ok_construct:
  assumes c: "current_ok W n T f b" and s: "slots_ok W n T f" and ft: "f t = Holding l i a" and n: "n \<le> kSize"
  shows "construct_item l i b = Inr (b\<lparr>buf_items := (buf_items b)[i := Some l]\<rparr>) \<and>
    current_ok W n T (f(t := Written i a)) (b\<lparr>buf_items := (buf_items b)[i := Some l]\<rparr>)"
proof -
  have i: "i < n" "snd (T ! (W * kSize + i)) = l" using slots_okD [OF s, of t i] ft by simp_all
  have h: "held P (f(t := Written i a)) j \<longleftrightarrow> (if j = i then P (Written i a) else held P f j)" for P j
    using held_change [OF s, of t i "Written i a" P j] ft by simp
  have "held (\<lambda>_. True) f i" "held unflagged f i" using held_owner [OF s, of t i] ft by simp_all
  then have same: "held (\<lambda>_. True) (f(t := Written i a)) = held (\<lambda>_. True) f"
    "held unflagged (f(t := Written i a)) = held unflagged f"
    unfolding fun_eq_iff h by auto
  from c i n show ?thesis
    unfolding current_ok_def construct_item_def same unfolding h by (simp add: nth_list_update)
qed

lemma current_ok_flag:
  assumes c: "current_ok W n T f b" and s: "slots_ok W n T f" and ft: "f t = Written i a" and n: "n \<le> kSize"
  shows "store_state i 1 b = Inr (b\<lparr>write_states := (write_states b)[i := 1]\<rparr>) \<and>
    current_ok W n T (f(t := Flagged i a)) (b\<lparr>write_states := (write_states b)[i := 1]\<rparr>)"
proof -
  have i: "i < n" using slots_okD(1) [OF s, of t i] ft by simp
  have h: "held P (f(t := Flagged i a)) j \<longleftrightarrow> (if j = i then P (Flagged i a) else held P f j)" for P j
    using held_change [OF s, of t i "Flagged i a" P j] ft by simp
  have "held (\<lambda>_. True) f i" "\<not> held unwritten f i" using held_owner [OF s, of t i] ft by simp_all
  then have same: "held (\<lambda>_. True) (f(t := Flagged i a)) = held (\<lambda>_. True) f"
    "held unwritten (f(t := Flagged i a)) = held unwritten f"
    unfolding fun_eq_iff h by auto
  from c i n show ?thesis
    unfolding current_ok_def store_state_def same unfolding h by (simp add: nth_list_update)
qed

text \<open>Counting the last slot completes the buffer.\<close>

lemma current_ok_count:
  assumes c: "current_ok W n T f b" and s: "slots_ok W n T f" and ft: "f t = Flagged i a" and n: "n \<le> kSize"
    and m: "m = write_states b ! kSize + 1" and b': "b' = b\<lparr>write_states := (write_states b)[kSize := m]\<rparr>"
  shows "store_state kSize m b = Inr b'"
    and "m \<noteq> kSize \<Longrightarrow> current_ok W n T (f(t := Idle)) b'"
    and "m = kSize \<Longrightarrow> n = kSize \<and> full_ok T kSize W b' \<and> (\<forall>u. u \<noteq> t \<longrightarrow> slot (f u) = None)"
proof -
  have i: "i < n" using slots_okD(1) [OF s, of t i] ft by simp
  have h: "held P (f(t := Idle)) j \<longleftrightarrow> (if j = i then False else held P f j)" for P j
    using held_change [OF s, of t i Idle P j] ft by simp
  have hi: "held (\<lambda>_. True) f i" "\<not> held unwritten f i" "\<not> held unflagged f i"
    using held_owner [OF s, of t i] ft by simp_all
  then have same: "held unwritten (f(t := Idle)) = held unwritten f" "held unflagged (f(t := Idle)) = held unflagged f"
    unfolding fun_eq_iff h by auto
  let ?D = "{j. j < n \<and> \<not> held (\<lambda>_. True) (f(t := Idle)) j}"
  have "?D = insert i {j. j < n \<and> \<not> held (\<lambda>_. True) f j}" using i unfolding h by auto
  then have card: "card ?D = m" using c m hi(1) unfolding current_ok_def by simp
  show "store_state kSize m b = Inr b'" using c by (simp add: current_ok_def store_state_def b')
  have "m \<le> kSize" using c m by (simp add: current_ok_def)
  then show "current_ok W n T (f(t := Idle)) b'" if "m \<noteq> kSize"
    using c card that unfolding current_ok_def same b' by simp
  show "n = kSize \<and> full_ok T kSize W b' \<and> (\<forall>u. u \<noteq> t \<longrightarrow> slot (f u) = None)" if mk: "m = kSize"
  proof (intro conjI)
    have sub: "?D \<subseteq> {..<n}" by auto
    from card_mono [OF _ sub] card mk n show n': "n = kSize" by simp
    from card_subset_eq [OF _ sub] card mk n' have D: "?D = {..<n}" by simp
    have none: "\<not> held (\<lambda>_. True) (f(t := Idle)) j" for j
      using D held_below [OF slots_ok_leave [OF s, of Idle t], of "\<lambda>_. True" j] by (cases "j < n") auto
    then show "\<forall>u. u \<noteq> t \<longrightarrow> slot (f u) = None" unfolding held_upd by (metis not_Some_eq)
    have "\<not> held P f j" if "P = unwritten \<or> P = unflagged" for P j
      using none [of j] same that unfolding held_def by metis
    then show "full_ok T kSize W b'" using c mk n' unfolding current_ok_def full_ok_def b' by simp
  qed
qed

subsection \<open>Every step keeps the invariant\<close>

lemma with_buffer_ok:
  "buffer_heap q a = Some b \<Longrightarrow> k b = Inr (b', pc) \<Longrightarrow>
     with_buffer a q k = Inr (pc, q\<lparr>buffer_heap := (buffer_heap q)(a \<mapsto> b')\<rparr>)"
  by (simp add: with_buffer_def)

lemma olds_ok_append: "olds_ok T W q \<Longrightarrow> W * kSize \<le> length T \<Longrightarrow> olds_ok (T @ [x]) W q"
  unfolding olds_ok_def full_ok_def using block_before [of _ W] by (simp add: nth_append) (meson less_le_trans)

lemma olds_ok_heap: "olds_ok T W q \<Longrightarrow> buffer_heap q' = (buffer_heap q)(a \<mapsto> b) \<Longrightarrow> W \<le> a \<Longrightarrow> olds_ok T W q'"
  unfolding olds_ok_def by auto

lemma quiet_upd:
  assumes "quiet s" and "backups q = backups (pq s)" and "lq_read_index q = lq_read_index (pq s)"
    and "current_read q = current_read (pq s)" and "waiting_line pc = waiting_line (pcs s t)"
  shows "quiet (s\<lparr>pq := q, pcs := (pcs s)(t := pc)\<rparr>)"
  using assms unfolding quiet_def by simp

lemma quiet_ticket:
  assumes "quiet s" and "pcs s t = Reserving l" and "waiting_line pc = []"
  shows "quiet (s\<lparr>pq := (pq s)\<lparr>lq_write_index := n\<rparr>, pcs := (pcs s)(t := pc), tickets := tickets s @ [(t, l)]\<rparr>)"
  using assms unfolding quiet_def by (auto split: if_splits) (metis waiting_line.simps(1))

lemma running_outside:
  assumes "running W s" and "slot (pcs s t) = None" and "slot pc = None" and "\<not> switching pc"
    and "min n kSize = min (lq_write_index (pq s)) kSize"
  shows "running W (s\<lparr>pq := (pq s)\<lparr>lq_write_index := n\<rparr>, pcs := (pcs s)(t := pc)\<rparr>)"
  using assms slots_ok_leave [OF _ assms(3)]
  unfolding running_def olds_ok_def by (simp add: current_ok_def held_outside)

lemma running_write:
  assumes r: "running W s" and n: "n = min (lq_write_index (pq s)) kSize"
    and c: "current_ok W n (tickets s) ((pcs s)(t := pc)) b'" and sl: "slots_ok W n (tickets s) ((pcs s)(t := pc))"
    and "\<not> switching pc"
  shows "running W (s\<lparr>pq := (pq s)\<lparr>buffer_heap := (buffer_heap (pq s))(W \<mapsto> b')\<rparr>, pcs := (pcs s)(t := pc)\<rparr>)"
  using assms olds_ok_heap [of "tickets s" W "pq s"] unfolding running_def by simp

lemma running_reserve:
  assumes r: "running W s" and pc: "pcs s t = Reserving l" and n: "lq_write_index (pq s) < kSize"
  shows "running W (s\<lparr>pq := (pq s)\<lparr>lq_write_index := lq_write_index (pq s) + 1\<rparr>,
     pcs := (pcs s)(t := Reserved l (lq_write_index (pq s))), tickets := tickets s @ [(t, l)]\<rparr>)"
proof -
  let ?n = "lq_write_index (pq s)"
  have m: "min ?n kSize = ?n" "min (?n + 1) kSize = ?n + 1" using n by simp_all
  have T: "length (tickets s) = W * kSize + ?n" and sl: "slots_ok W ?n (tickets s) (pcs s)"
    and o: "olds_ok (tickets s) W (pq s)"
    using r unfolding running_def m by blast+
  obtain b where b: "buffer_heap (pq s) W = Some b" "current_ok W ?n (tickets s) (pcs s) b"
    using r unfolding running_def m by blast
  have "olds_ok (tickets s @ [(t, l)]) W ((pq s)\<lparr>lq_write_index := ?n + 1\<rparr>)"
    using olds_ok_append [OF o, of "(t, l)"] T by (simp add: olds_ok_def)
  with r b(1) current_ok_enter [OF b(2) sl _ T, of t l] slots_ok_enter [OF sl T, of t l] pc T
  show ?thesis unfolding running_def by (simp add: m(2) [simplified])
qed

lemma producers_step_eq:
  assumes "producer_step (pcs s t) (pq s) = Inr (pc, q)" and "ticket_of t (pcs s t) (pq s) = []"
  shows "producers_step (PStep t) s = Inr (s\<lparr>pq := q, pcs := (pcs s)(t := pc)\<rparr>)"
  using assms by simp

text \<open>A thread outside a slot: it reserves one, or spins.\<close>

lemma running_step_outside:
  assumes r: "running W s" and q: "quiet s" and pc: "pcs s t = Reserving l \<or> pcs s t = Spinning l"
  shows "\<exists>s'. producers_step (PStep t) s = Inr s' \<and> quiet s' \<and> running W s'"
proof (cases "pcs s t = Reserving l \<and> lq_write_index (pq s) < kSize")
  case True
  then show ?thesis
    using running_reserve [OF r, of t l] quiet_ticket [OF q, of t l "Reserved l (lq_write_index (pq s))"]
    by (simp add: reserve_def ticket_of_def)
next
  case False
  let ?n = "if pcs s t = Reserving l then lq_write_index (pq s) + 1 else lq_write_index (pq s)"
  let ?pc = "if pcs s t = Spinning l \<and> lq_write_index (pq s) < kSize then Reserving l else Spinning l"
  have "current_write (pq s) = Some W" using r by (simp add: running_def)
  then have "producers_step (PStep t) s = Inr (s\<lparr>pq := (pq s)\<lparr>lq_write_index := ?n\<rparr>, pcs := (pcs s)(t := ?pc)\<rparr>)"
    using pc False by (intro producers_step_eq) (auto simp: reserve_def push_call_def ticket_of_def)
  moreover have "running W (s\<lparr>pq := (pq s)\<lparr>lq_write_index := ?n\<rparr>, pcs := (pcs s)(t := ?pc)\<rparr>)"
    by (rule running_outside [OF r]) (use pc False in auto)
  moreover have "quiet (s\<lparr>pq := (pq s)\<lparr>lq_write_index := ?n\<rparr>, pcs := (pcs s)(t := ?pc)\<rparr>)"
    by (rule quiet_upd [OF q]) (use pc in auto)
  ultimately show ?thesis by blast
qed

text \<open>A thread with a slot in the buffer being written.\<close>

lemma running_step_write:
  assumes r: "running W s" and q: "quiet s" and pc: "pcs s t = Holding l i a \<or> pcs s t = Written i a"
  shows "\<exists>s'. producers_step (PStep t) s = Inr s' \<and> quiet s' \<and> running W s'"
proof -
  let ?n = "min (lq_write_index (pq s)) kSize"
  have sl: "slots_ok W ?n (tickets s) (pcs s)" using r by (simp add: running_def)
  obtain b where b: "buffer_heap (pq s) W = Some b" "current_ok W ?n (tickets s) (pcs s) b"
    using r unfolding running_def by blast
  have a: "a = W" using slots_okD(4) [OF sl, of t i a] pc by auto
  obtain pc' b' where step: "producer_step (pcs s t) (pq s) = Inr (pc', (pq s)\<lparr>buffer_heap := (buffer_heap (pq s))(W \<mapsto> b')\<rparr>)"
    "current_ok W ?n (tickets s) ((pcs s)(t := pc')) b'" "pc' = Written i a \<or> pc' = Flagged i a"
  proof (cases "pcs s t = Written i a")
    case True
    with current_ok_flag [OF b(2) sl True] b(1) a that show ?thesis by (simp add: with_buffer_def)
  next
    case False
    with pc have h: "pcs s t = Holding l i a" by simp
    with current_ok_construct [OF b(2) sl h] b(1) a that show ?thesis by (simp add: with_buffer_def)
  qed
  have "slots_ok W ?n (tickets s) ((pcs s)(t := pc'))"
    by (rule slots_ok_move [OF sl, of _ i]) (use pc step(3) a in auto)
  from running_write [OF r refl step(2) this] step(3)
  have "running W (s\<lparr>pq := (pq s)\<lparr>buffer_heap := (buffer_heap (pq s))(W \<mapsto> b')\<rparr>, pcs := (pcs s)(t := pc')\<rparr>)" by auto
  moreover have "quiet (s\<lparr>pq := (pq s)\<lparr>buffer_heap := (buffer_heap (pq s))(W \<mapsto> b')\<rparr>, pcs := (pcs s)(t := pc')\<rparr>)"
    by (rule quiet_upd [OF q]) (use pc step(3) in auto)
  moreover have "ticket_of t (pcs s t) (pq s) = []" using pc by (auto simp: ticket_of_def)
  ultimately show ?thesis using producers_step_eq [OF step(1)] by blast
qed

lemma running_step_load:
  assumes r: "running W s" and q: "quiet s" and pc: "pcs s t = Reserved l i"
  shows "\<exists>s'. producers_step (PStep t) s = Inr s' \<and> quiet s' \<and> running W s'"
proof -
  let ?n = "min (lq_write_index (pq s)) kSize" and ?f = "(pcs s)(t := Holding l i W)"
  let ?s = "s\<lparr>pq := pq s, pcs := ?f\<rparr>"
  have sl: "slots_ok W ?n (tickets s) (pcs s)" and cw: "current_write (pq s) = Some W"
    using r by (simp_all add: running_def)
  have h: "held P ?f j \<longleftrightarrow> held P (pcs s) j" if "P (Holding l i W) = P (Reserved l i)" for P j
    using held_change [OF sl, of t i "Holding l i W" P j] held_owner [OF sl, of t i P] pc that by simp
  obtain b where b: "buffer_heap (pq s) W = Some b" "current_ok W ?n (tickets s) (pcs s) b"
    using r unfolding running_def by blast
  have "current_ok W ?n (tickets s) ?f b" by (rule current_ok_held [OF _ _ _ b(2)]) (simp_all add: h)
  moreover have "slots_ok W ?n (tickets s) ?f" by (rule slots_ok_move [OF sl, of _ i]) (use pc in simp_all)
  ultimately have "running W ?s" using r b(1) unfolding running_def by simp
  moreover have "quiet ?s" by (rule quiet_upd [OF q]) (use pc in simp_all)
  moreover have "producers_step (PStep t) s = Inr ?s"
    by (rule producers_step_eq) (use pc cw in \<open>simp_all add: ticket_of_def\<close>)
  ultimately show ?thesis by blast
qed

lemma running_step_count:
  assumes r: "running W s" and q: "quiet s" and pc: "pcs s t = Flagged i a"
  shows "\<exists>s'. producers_step (PStep t) s = Inr s' \<and> quiet s' \<and> (running W s' \<or> installing W t s')"
proof -
  let ?n = "min (lq_write_index (pq s)) kSize"
  have sl: "slots_ok W ?n (tickets s) (pcs s)" using r by (simp add: running_def)
  obtain b where b: "buffer_heap (pq s) W = Some b" "current_ok W ?n (tickets s) (pcs s) b"
    using r unfolding running_def by blast
  have a: "a = W" using slots_okD(4) [OF sl, of t i a] pc by simp
  define m where "m = write_states b ! kSize + 1"
  define b' where "b' = b\<lparr>write_states := (write_states b)[kSize := m]\<rparr>"
  define pc' where "pc' = (if m = kSize then Resetting W else Idle)"
  note count = current_ok_count [OF b(2) sl pc min.cobounded2 m_def b'_def]
  let ?s = "s\<lparr>pq := (pq s)\<lparr>buffer_heap := (buffer_heap (pq s))(W \<mapsto> b')\<rparr>, pcs := (pcs s)(t := pc')\<rparr>"
  have step: "producers_step (PStep t) s = Inr ?s"
    by (rule producers_step_eq)
      (use pc a b(1) count(1) in \<open>simp_all add: with_buffer_def ticket_of_def pc'_def m_def Let_def\<close>)
  have qs: "quiet ?s" by (rule quiet_upd [OF q]) (use pc in \<open>simp_all add: pc'_def\<close>)
  show ?thesis
  proof (cases "m = kSize")
    case False
    from count(2) [OF this] slots_ok_leave [OF sl, of Idle t] False
    have "running W ?s" by (intro running_write [OF r refl]) (simp_all add: pc'_def)
    with step qs show ?thesis by blast
  next
    case True
    from count(3) [OF this] True r have "installing W t ?s"
      unfolding installing_def install_ok_def running_def olds_ok_def by (simp add: pc'_def min_def split: if_splits)
    with step qs show ?thesis by blast
  qed
qed

lemma running_step:
  assumes "running W s" and "quiet s" and "pcs s t \<noteq> Idle"
  shows "\<exists>s'. producers_step (PStep t) s = Inr s' \<and> quiet s' \<and> (running W s' \<or> installing W t s')"
proof -
  have "\<not> switching (pcs s t)" using assms(1) by (simp add: running_def)
  with assms running_step_outside [OF assms(1,2)] running_step_write [OF assms(1,2)]
    running_step_load [OF assms(1,2)] running_step_count [OF assms(1,2)]
  show ?thesis by (cases "pcs s t") (simp_all del: producers_step.simps, blast+)
qed

lemma ring_pop_none: "ring_inv n r \<Longrightarrow> ring_contents r = [] \<Longrightarrow> RingQueue_pop r = (None, r)"
  using ring.pop_refines [of n r] by (auto simp: list_pop_def RingQueue_pop_def split: if_splits)

lemma installing_step_reset:
  assumes s: "installing W t s" and q: "quiet s" and pc: "pcs s t = Resetting a"
  shows "\<exists>s'. producers_step (PStep t) s = Inr s' \<and> quiet s' \<and> installing W t s'"
proof -
  have a: "a = W" using s pc by (simp add: installing_def install_ok_def)
  obtain b where b: "buffer_heap (pq s) W = Some b" "full_ok (tickets s) kSize W b"
    using s pc unfolding installing_def install_ok_def by auto
  let ?b = "b\<lparr>write_states := (write_states b)[kSize := 0]\<rparr>"
  let ?s = "s\<lparr>pq := (pq s)\<lparr>buffer_heap := (buffer_heap (pq s))(W \<mapsto> ?b)\<rparr>, pcs := (pcs s)(t := SettingUp)\<rparr>"
  have "producers_step (PStep t) s = Inr ?s"
    by (rule producers_step_eq) (use pc a b in \<open>simp_all add: with_buffer_def ticket_of_def store_state_def full_ok_def\<close>)
  moreover have "quiet ?s" by (rule quiet_upd [OF q]) (use pc in simp_all)
  moreover have "full_ok (tickets s) 0 W ?b" using b(2) by (simp add: full_ok_def)
  then have "installing W t ?s" using s pc a unfolding installing_def install_ok_def olds_ok_def by simp
  ultimately show ?thesis by blast
qed

lemma installing_step_take:
  assumes s: "installing W t s" and q: "quiet s" and pc: "pcs s t = SettingUp"
  shows "\<exists>s'. producers_step (PStep t) s = Inr s' \<and> quiet s' \<and> installing W t s'"
proof -
  have "next_addr (pq s) = W + 1" using s pc by (simp add: installing_def install_ok_def)
  moreover have "RingQueue_pop (backups (pq s)) = (None, backups (pq s))"
    using q by (intro ring_pop_none [of 4]) (simp_all add: quiet_def)
  ultimately have step: "producer_step (pcs s t) (pq s) = Inr (Publishing (Some (W + 1)),
      (pq s)\<lparr>buffer_heap := (buffer_heap (pq s))(W + 1 \<mapsto> LogBuffer_new), next_addr := W + 2\<rparr>)"
    using pc by (simp add: take_buffer_def)
  let ?s = "s\<lparr>pq := (pq s)\<lparr>buffer_heap := (buffer_heap (pq s))(W + 1 \<mapsto> LogBuffer_new), next_addr := W + 2\<rparr>,
      pcs := (pcs s)(t := Publishing (Some (W + 1)))\<rparr>"
  have "quiet ?s" by (rule quiet_upd [OF q]) (use pc in simp_all)
  moreover have "installing W t ?s" using s pc unfolding installing_def install_ok_def olds_ok_def by simp
  moreover have "producers_step (PStep t) s = Inr ?s"
    by (rule producers_step_eq [OF step]) (simp add: pc ticket_of_def)
  ultimately show ?thesis by blast
qed

lemma installing_step_publish:
  assumes s: "installing W t s" and q: "quiet s" and pc: "pcs s t = Publishing p"
  shows "\<exists>s'. producers_step (PStep t) s = Inr s' \<and> quiet s' \<and> installing W t s'"
proof -
  let ?s = "s\<lparr>pq := (pq s)\<lparr>current_write := p\<rparr>, pcs := (pcs s)(t := Enqueuing p)\<rparr>"
  have "quiet ?s" by (rule quiet_upd [OF q]) (use pc in simp_all)
  moreover have "installing W t ?s" using s pc unfolding installing_def install_ok_def olds_ok_def by simp
  moreover have "producers_step (PStep t) s = Inr ?s"
    by (rule producers_step_eq) (simp_all add: pc ticket_of_def)
  ultimately show ?thesis by blast
qed

lemma current_ok_fresh: "(\<And>u. slot (f u) = None) \<Longrightarrow> current_ok W 0 T f LogBuffer_new"
  using kSize_pos by (simp add: current_ok_def LogBuffer_new_def del: replicate_Suc)

lemma installing_step_enqueue:
  assumes s: "installing W t s" and q: "quiet s" and pc: "pcs s t = Enqueuing p"
  shows "\<exists>s'. producers_step (PStep t) s = Inr s' \<and> quiet s' \<and> running (W + 1) s'"
proof -
  let ?q = "(pq s)\<lparr>log_buffers := log_buffers (pq s) @ [p], lq_write_index := 0\<rparr>"
  let ?s = "s\<lparr>pq := ?q, pcs := (pcs s)(t := Idle)\<rparr>"
  have out: "slot (((pcs s)(t := Idle)) u) = None" "\<not> switching (((pcs s)(t := Idle)) u)" for u
    using s by (simp_all add: installing_def)
  have i: "install_ok W (Enqueuing p) (tickets s) (pq s)" "olds_ok (tickets s) W (pq s)"
    using s pc by (simp_all add: installing_def)
  then have "olds_ok (tickets s) (W + 1) ?q" unfolding olds_ok_def install_ok_def by (auto simp: less_Suc_eq)
  moreover have "slots_ok (W + 1) 0 (tickets s) ((pcs s)(t := Idle))" unfolding slots_ok_def out by simp
  ultimately have "running (W + 1) ?s"
    using s pc i(1) out current_ok_fresh [of "(pcs s)(t := Idle)" "W + 1" "tickets s", OF out(1)]
    unfolding running_def installing_def install_ok_def by simp
  moreover have "quiet ?s" by (rule quiet_upd [OF q]) (use pc in simp_all)
  moreover have "producers_step (PStep t) s = Inr ?s"
    by (rule producers_step_eq) (simp_all add: pc ticket_of_def)
  ultimately show ?thesis by blast
qed

text \<open>While a buffer is installed every other thread is outside, and finds no free slot.\<close>

lemma installing_other:
  assumes s: "installing W t s" and "u \<noteq> t" and "slot pc = None" and "\<not> switching pc" and "kSize \<le> n"
  shows "installing W t (s\<lparr>pq := (pq s)\<lparr>lq_write_index := n\<rparr>, pcs := (pcs s)(u := pc)\<rparr>)"
  using assms unfolding installing_def install_ok_def olds_ok_def by (simp cong: producer.case_cong)

lemma installing_step_other:
  assumes s: "installing W t s" and q: "quiet s" and u: "u \<noteq> t" "pcs s u \<noteq> Idle"
  shows "\<exists>s'. producers_step (PStep u) s = Inr s' \<and> quiet s' \<and> installing W t s'"
proof -
  have "slot (pcs s u) = None" "\<not> switching (pcs s u)" and n: "kSize \<le> lq_write_index (pq s)"
    using s u(1) by (simp_all add: installing_def)
  with u(2) obtain l where l: "pcs s u = Reserving l \<or> pcs s u = Spinning l" by (cases "pcs s u") auto
  let ?n = "if pcs s u = Reserving l then lq_write_index (pq s) + 1 else lq_write_index (pq s)"
  let ?s = "s\<lparr>pq := (pq s)\<lparr>lq_write_index := ?n\<rparr>, pcs := (pcs s)(u := Spinning l)\<rparr>"
  have "quiet ?s" by (rule quiet_upd [OF q]) (use l in auto)
  moreover have "installing W t ?s" by (rule installing_other [OF s u(1)]) (use n in auto)
  moreover have "producers_step (PStep u) s = Inr ?s"
    by (rule producers_step_eq) (use l n in \<open>auto simp: reserve_def ticket_of_def\<close>)
  ultimately show ?thesis by blast
qed

lemma installing_step:
  assumes "installing W t s" and "quiet s" and "pcs s u \<noteq> Idle"
  shows "\<exists>s'. producers_step (PStep u) s = Inr s' \<and> quiet s' \<and> (running (W + 1) s' \<or> installing W t s')"
proof (cases "u = t")
  case True
  have "install_ok W (pcs s t) (tickets s) (pq s)" using assms(1) by (simp add: installing_def)
  then have "switching (pcs s t)" by (cases "pcs s t") (simp_all add: install_ok_def)
  with True installing_step_reset [OF assms(1,2)] installing_step_take [OF assms(1,2)]
    installing_step_publish [OF assms(1,2)] installing_step_enqueue [OF assms(1,2)]
  show ?thesis by (cases "pcs s t") (simp_all del: producers_step.simps, blast+)
next
  case False
  with installing_step_other [OF assms(1,2) False assms(3)] show ?thesis by blast
qed

lemma call_ok:
  assumes inv: "producers_inv s" and t: "pcs s t = Idle"
  shows "\<exists>s'. producers_step (PCall t l) s = Inr s' \<and> producers_inv s'"
proof -
  obtain W where W: "running W s \<or> (\<exists>u. installing W u s)" and q: "quiet s"
    using inv by (auto simp: producers_inv_def)
  let ?s = "s\<lparr>pcs := (pcs s)(t := Reserving l), called := (called s)(t := called s t @ [l])\<rparr>"
  have q': "quiet ?s" using q t unfolding quiet_def by (auto split: if_splits) (metis append_Nil2 waiting_line.simps(3))
  from W show ?thesis
  proof
    assume r: "running W s"
    have "running W (s\<lparr>pq := (pq s)\<lparr>lq_write_index := lq_write_index (pq s)\<rparr>, pcs := (pcs s)(t := Reserving l)\<rparr>)"
      by (rule running_outside [OF r]) (use t in simp_all)
    then have "running W ?s" by (simp add: running_def)
    moreover have "current_write (pq s) = Some W" using r by (simp add: running_def)
    ultimately show ?thesis using q' by (auto simp: push_call_def producers_inv_def)
  next
    assume "\<exists>u. installing W u s"
    then obtain u where i: "installing W u s" ..
    then have "u \<noteq> t" using t by (auto simp: installing_def install_ok_def)
    then have "installing W u (s\<lparr>pq := (pq s)\<lparr>lq_write_index := lq_write_index (pq s)\<rparr>, pcs := (pcs s)(t := Reserving l)\<rparr>)"
      using i by (intro installing_other [OF i]) (auto simp: installing_def)
    then have "installing W u ?s" by (simp add: installing_def)
    moreover have "current_write (pq s) \<noteq> None"
      using i by (auto simp: installing_def install_ok_def split: producer.splits)
    ultimately show ?thesis using q' by (auto simp: push_call_def producers_inv_def)
  qed
qed

interpretation producers: safe_machine producers_step producers_event_ok producers_inv
proof (unfold_locales, goal_cases)
  case (1 s e)
  then obtain W where W: "running W s \<or> (\<exists>u. installing W u s)" and q: "quiet s"
    by (auto simp: producers_inv_def)
  show ?case
  proof (cases e)
    case (PCall t l)
    with 1 call_ok [of s t l] show ?thesis by simp
  next
    case (PStep t)
    with 1 have t: "pcs s t \<noteq> Idle" by simp
    show ?thesis using W running_step [OF _ q t] installing_step [OF _ q t]
      unfolding PStep producers_inv_def by blast
  qed
qed

lemma producers_start_inv: "producers_inv producers_start"
proof -
  have new: "buffer_heap LogBufferQueue_new 0 = Some LogBuffer_new"
    by (simp add: LogBufferQueue_new_def setupNextWriteLogBuffer_def RingQueue_pop_def RingQueue_new_def)
  have cr: "current_read LogBufferQueue_new = None"
    by (simp add: LogBufferQueue_new_def setupNextWriteLogBuffer_def RingQueue_pop_def RingQueue_new_def)
  have "current_ok 0 0 [] (\<lambda>_. Idle) LogBuffer_new" by (rule current_ok_fresh) simp
  with queue_new new have "running 0 producers_start"
    by (simp add: running_def producers_start_def queue_holds_def slots_ok_def olds_ok_def)
  moreover have "quiet producers_start" using queue_new cr by (simp add: quiet_def producers_start_def queue_holds_def)
  ultimately show ?thesis unfolding producers_inv_def by blast
qed

lemma idle_running:
  assumes "producers_inv s" and "\<And>t. pcs s t = Idle"
  obtains W where "running W s" "quiet s"
proof -
  have "\<not> installing W t s" for W t using assms(2) by (simp add: installing_def install_ok_def)
  with assms(1) that show thesis by (auto simp: producers_inv_def)
qed

text \<open>When no call is in progress the queue is one that holds the lines in the order of their reservations.\<close>

lemma idle_queue_holds:
  assumes "running W s" and "quiet s" and "\<And>t. pcs s t = Idle"
  shows "queue_holds (map snd (tickets s)) W (lq_write_index (pq s)) 0 0 (pq s)"
proof -
  have none: "\<not> held P (pcs s) i" for P i using assms(3) by (simp add: held_def)
  obtain b where b: "buffer_heap (pq s) W = Some b"
    "current_ok W (min (lq_write_index (pq s)) kSize) (tickets s) (pcs s) b"
    using assms(1) unfolding running_def by blast
  have "{i. i < m \<and> \<not> held (\<lambda>_. True) (pcs s) i} = {i. i < m}" for m using none by blast
  with b(2) have "card {i. i < min (lq_write_index (pq s)) kSize} < kSize" unfolding current_ok_def by metis
  then have "min (lq_write_index (pq s)) kSize < kSize" by (simp only: card_Collect_less_nat)
  then have n: "lq_write_index (pq s) < kSize" "min (lq_write_index (pq s)) kSize = lq_write_index (pq s)" by simp_all
  have T: "length (tickets s) = W * kSize + lq_write_index (pq s)" using assms(1) unfolding running_def n(2) by blast
  have "block (map snd (tickets s)) W (lq_write_index (pq s)) 0 W b"
    using b(2) T n(1) none unfolding n(2) by (simp add: block_def current_ok_def)
  moreover have "\<exists>b. buffer_heap (pq s) k = Some b \<and> block (map snd (tickets s)) W (lq_write_index (pq s)) 0 k b"
    if k: "k < W" for k
  proof -
    obtain c where c: "buffer_heap (pq s) k = Some c" "full_ok (tickets s) 0 k c"
      using assms(1) k by (auto simp: running_def olds_ok_def)
    have "k * kSize + i < length (tickets s)" if "i < kSize" for i using block_before [OF k that] T by simp
    with c k show ?thesis by (auto simp: block_def full_ok_def)
  qed
  ultimately have "\<forall>k \<le> W. \<exists>b. buffer_heap (pq s) k = Some b \<and> block (map snd (tickets s)) W (lq_write_index (pq s)) 0 k b"
    using b(1) by (metis le_neq_implies_less)
  with assms(1,2) T n(1) kSize_pos show ?thesis by (simp add: queue_holds_def running_def quiet_def)
qed

lemma slots_distinct: "producers_inv s \<Longrightarrow> slot (pcs s t) = Some i \<Longrightarrow> slot (pcs s u) = Some i \<Longrightarrow> t = u"
proof -
  assume s: "producers_inv s" "slot (pcs s t) = Some i" "slot (pcs s u) = Some i"
  then obtain W where "running W s \<or> (\<exists>v. installing W v s)" by (auto simp: producers_inv_def)
  then show "t = u"
  proof
    assume "running W s"
    then show ?thesis using slot_owner [OF _ s(3,2)] by (auto simp: running_def)
  next
    assume "\<exists>v. installing W v s"
    then obtain v where v: "installing W v s" ..
    then have "slot (pcs s v) = None" by (cases "pcs s v") (simp_all add: installing_def install_ok_def)
    with v s(2) show ?thesis by (cases "t = v") (simp_all add: installing_def)
  qed
qed

text \<open>Some thread makes progress.\<close>

lemma somebody_moves:
  assumes inv: "producers_inv s" and t: "pcs s t \<noteq> Idle"
  shows "\<exists>u. pcs s u \<noteq> Idle \<and> (\<forall>l. pcs s u = Spinning l \<longrightarrow> lq_write_index (pq s) < kSize)"
proof (cases "\<exists>l. pcs s t = Spinning l \<and> kSize \<le> lq_write_index (pq s)")
  case False
  with t show ?thesis by (metis not_less)
next
  case True
  from inv obtain W where "running W s \<or> (\<exists>v. installing W v s)" by (auto simp: producers_inv_def)
  then show ?thesis
  proof
    assume "running W s"
    with True obtain b where "current_ok W kSize (tickets s) (pcs s) b" by (auto simp: running_def min_def split: if_splits)
    then have "card {i. i < kSize \<and> \<not> held (\<lambda>_. True) (pcs s) i} \<noteq> card {i. i < kSize}" by (simp add: current_ok_def)
    then have "{i. i < kSize \<and> \<not> held (\<lambda>_. True) (pcs s) i} \<noteq> {i. i < kSize}" by metis
    then obtain u i where "slot (pcs s u) = Some i" by (auto simp: held_def)
    then show ?thesis by (intro exI [of _ u]) auto
  next
    assume "\<exists>v. installing W v s"
    then obtain v where "installing W v s" ..
    then show ?thesis by (intro exI [of _ v]) (auto simp: installing_def install_ok_def)
  qed
qed

subsection \<open>One producer alone\<close>

lemma run_alone_Idle [simp]: "run_alone n Idle q = Inr (Idle, q)"
  by (cases n) simp_all

text \<open>The end of the call, from a full buffer on.\<close>

lemma run_alone_setup: "run_alone (Suc (Suc (Suc n))) SettingUp q = Inr (Idle, setupNextWriteLogBuffer q)"
  by (simp add: take_buffer_def setupNextWriteLogBuffer_def split: prod.split option.split)

lemma run_alone_end:
  assumes "buffer_heap q a = Some b" and "length (write_states b) = kSize + 1"
  shows "run_alone (Suc (Suc (Suc (Suc (Suc n))))) (Flagged i a) q =
     Inr (Idle, let full = (write_states b ! kSize + 1 = kSize);
                    q' = q\<lparr>buffer_heap := (buffer_heap q)(a \<mapsto> b\<lparr>write_states :=
                           (write_states b)[kSize := if full then 0 else write_states b ! kSize + 1]\<rparr>)\<rparr>
                in if full then setupNextWriteLogBuffer q' else q')"
  using assms by (cases "write_states b ! kSize + 1 = kSize")
    (simp_all add: with_buffer_def store_state_def Let_def run_alone_setup del: run_alone.simps(2) add: run_alone.simps(2) [of _ "Flagged i a"]
      run_alone.simps(2) [of _ "Resetting a"])

lemma run_alone_begin:
  assumes "current_write q = Some a" and "lq_write_index q < kSize" and "buffer_heap q a = Some b"
    and "lq_write_index q < length (buf_items b)" and "length (write_states b) = kSize + 1"
  shows "run_alone (Suc (Suc (Suc (Suc n)))) (Reserving line) q =
     run_alone n (Flagged (lq_write_index q) a) (q\<lparr>lq_write_index := lq_write_index q + 1,
       buffer_heap := (buffer_heap q)(a \<mapsto> b\<lparr>buf_items := (buf_items b)[lq_write_index q := Some line],
         write_states := (write_states b)[lq_write_index q := 1]\<rparr>)\<rparr>)"
  using assms by (simp add: reserve_def with_buffer_def construct_item_def store_state_def)

subsection \<open>Properties\<close>

text \<open>Cutting \<open>push\<close> into atomic steps changes nothing for a thread that runs alone: whenever the sequential \<open>push\<close> returns,
  at most nine steps of the thread end its call in the same state.\<close>

theorem push_alone:
  assumes "LogBufferQueue_push line q = Some (Inr q')"
    and "\<And>a b. buffer_heap q a = Some b \<Longrightarrow> length (write_states b) = kSize + 1"
  shows "run_alone 9 (Reserving line) q = Inr (Idle, q')"
proof -
  let ?i = "lq_write_index q"
  obtain a b where ab: "current_write q = Some a" "?i < kSize" "buffer_heap q a = Some b"
    and "\<exists>x. LogBuffer_push line ?i b = Inr x"
    using assms(1) by (auto simp: LogBufferQueue_push_def Let_def result_eqs split: option.splits if_splits)
  then have len: "?i < length (buf_items b)" "length (write_states b) = kSize + 1"
    using assms(2) by (auto simp: LogBuffer_push_def check_def split: if_splits)
  let ?b = "b\<lparr>buf_items := (buf_items b)[?i := Some line], write_states := (write_states b)[?i := 1]\<rparr>"
  let ?q = "q\<lparr>lq_write_index := ?i + 1, buffer_heap := (buffer_heap q)(a \<mapsto> ?b)\<rparr>"
  have five: "5 = Suc (Suc (Suc (Suc (Suc 0))))" by simp
  have "run_alone 9 (Reserving line) q = run_alone 5 (Flagged ?i a) ?q"
    using run_alone_begin [OF ab len, of 5] by simp
  also have "\<dots> = Inr (Idle, q')"
    using assms(1) ab len run_alone_end [of ?q a ?b 0 ?i, folded five]
    by (cases b) (auto simp: LogBufferQueue_push_def LogBuffer_push_def Let_def split: if_splits)
  finally show ?thesis .
qed

theorem push_alone_witness:
  "\<exists>q'. LogBufferQueue_push LogLine_empty LogBufferQueue_new = Some (Inr q') \<and>
     run_alone 9 (Reserving LogLine_empty) LogBufferQueue_new = Inr (Idle, q')"
proof -
  have "\<exists>q'. LogBufferQueue_push LogLine_empty LogBufferQueue_new = Some (Inr q')"
    using queue_push [OF queue_new] by blast
  moreover have "length (write_states b) = kSize + 1" if "buffer_heap LogBufferQueue_new a = Some b" for a b
    using that by (auto simp: LogBufferQueue_new_def setupNextWriteLogBuffer_def RingQueue_pop_def RingQueue_new_def
        LogBuffer_new_def split: if_splits)
  ultimately show ?thesis using push_alone by blast
qed


text \<open>Two calls interleaved: the second thread reserves first.\<close>

definition demo_schedule :: "LogLine \<Rightarrow> LogLine \<Rightarrow> producer_event list" where
  "demo_schedule a b = [PCall 0 a, PCall 1 b, PStep 1, PStep 0, PStep 0, PStep 1, PStep 0, PStep 1, PStep 0, PStep 0, PStep 1, PStep 1]"

lemma demo_schedule_runs:
  "\<exists>s. run_schedule producers_step producers_event_ok (demo_schedule a b) producers_start = Some s \<and>
     (\<forall>t. pcs s t = Idle) \<and> tickets s = [(1, b), (0, a)]"
proof -
  have new: "LogBufferQueue_new = \<lparr>buffer_heap = [0 \<mapsto> LogBuffer_new], next_addr = 1, log_buffers = [Some 0],
      current_write = Some 0, current_read = None, lq_write_index = 0, lq_read_index = 0, backups = RingQueue_new 4\<rparr>"
    by (simp add: LogBufferQueue_new_def setupNextWriteLogBuffer_def RingQueue_pop_def) (simp add: RingQueue_new_def)
  have b: "length (write_states LogBuffer_new) = kSize + 1" "length (buf_items LogBuffer_new) = kSize + 1"
    "write_states LogBuffer_new ! kSize = 0" "buf_items LogBuffer_new \<noteq> []" "write_states LogBuffer_new \<noteq> []"
    by (simp_all add: LogBuffer_new_def del: replicate_Suc)
  have K: "Suc 0 < kSize" "Suc (Suc 0) \<noteq> kSize" "kSize \<noteq> Suc 0" "0 < kSize" by (simp_all add: kSize_def)
  show ?thesis
    using b K by (simp add: demo_schedule_def producers_start_def new push_call_def reserve_def ticket_of_def
        with_buffer_def construct_item_def store_state_def nth_list_update)
qed


text \<open>C27. Producers never wait for each other for ever. In every state they reach with a call in progress, some thread
  inside \<open>push\<close> makes a step that is not another turn of the spin loop: the thread that has to install the next
  buffer, or one whose line is still missing in the current one.\<close>

theorem producers_progress:
  assumes "machine_run producers_step producers_event_ok silent producers_start [] s" and "pcs s t \<noteq> Idle"
  shows "\<exists>u s'. producers_step (PStep u) s = Inr s' \<and> pcs s u \<noteq> Idle \<and> pcs s' u \<noteq> pcs s u"
proof -
  note inv = producers.run_inv [OF assms(1) producers_start_inv]
  obtain u where u: "pcs s u \<noteq> Idle" "\<And>l. pcs s u = Spinning l \<Longrightarrow> lq_write_index (pq s) < kSize"
    using somebody_moves [OF inv assms(2)] by blast
  obtain s' where s': "producers_step (PStep u) s = Inr s'"
    using producers.step_safe [OF inv, of "PStep u"] u(1) by auto
  have "pcs s' u \<noteq> pcs s u"
    using s' u by (cases "pcs s u")
      (auto simp: reserve_def push_call_def with_buffer_def take_buffer_def Let_def result_eqs
        split: if_splits option.splits prod.splits sum.splits)
  with s' u(1) show ?thesis by blast
qed

theorem producers_progress_witness:
  "\<exists>s u s'. run_schedule producers_step producers_event_ok [PCall 0 LogLine_empty, PStep 0] producers_start = Some s \<and>
     producers_step (PStep u) s = Inr s' \<and> pcs s' u \<noteq> pcs s u"
proof -
  have "current_write LogBufferQueue_new \<noteq> None" "lq_write_index LogBufferQueue_new < kSize"
    using queue_new by (simp_all add: queue_holds_def)
  then obtain s where s: "run_schedule producers_step producers_event_ok [PCall 0 LogLine_empty, PStep 0] producers_start = Some s"
    "pcs s 0 \<noteq> Idle"
    by (simp add: producers_start_def push_call_def reserve_def)
  from producers_progress [OF run_schedule_run [OF s(1)] s(2)] s(1) show ?thesis by blast
qed

end
