(* ===== verification/LogReader.thy ===== *)
theory LogReader
  imports LogProducers
begin

text \<open>
  The writer thread of the logger in \<open>LogBufferQueue::pop\<close> while producers are in \<open>push\<close> (util/LogBufferQueue.cpp).

  \<^item> \<open>reader_call\<close> and \<open>reader_step\<close> cut \<open>pop\<close> and \<open>LogBuffer::pop\<close> into the operations that touch shared memory; a machine
    interleaves them with those of the producers.
  \<^item> The queue of such a run is that of a run of the producers alone, with the lines already popped moved out of
    their slots (\<open>consumed\<close>): the proofs are a simulation of the machine of \<open>LogProducers\<close>.
  \<^item> Runs end before the reader has finished the first buffer; from then on buffers are used again
    (\<open>reused_buffer_stale\<close>).
\<close>

subsection \<open>The steps of a call\<close>

datatype reader =
    ReaderIdle
  | Loading     \<comment> \<open>before \<open>write_states_[read_index].load\<close>\<close>
  | Moving      \<comment> \<open>before the line is moved out of its slot\<close>

definition reader_call :: "LogBufferQueue \<Rightarrow> reader \<times> LogBufferQueue" where
  "reader_call q0 =
     (let q = (if current_read q0 = None then q0\<lparr>current_read := getNextReadLogBuffer q0\<rparr> else q0)
      in (if current_read q = None then ReaderIdle else Loading, q))"

definition read_buffer :: "LogBufferQueue \<Rightarrow> (addr \<times> LogBuffer) result" where
  "read_buffer q =
     (case current_read q of
        None \<Rightarrow> Inl NullCallback
      | Some a \<Rightarrow> (case buffer_heap q a of None \<Rightarrow> Inl UseAfterFree | Some b \<Rightarrow> Inr (a, b)))"

fun reader_step :: "reader \<Rightarrow> LogBufferQueue \<Rightarrow> (reader \<times> LogLine option \<times> LogBufferQueue) result" where
  "reader_step ReaderIdle q = Inr (ReaderIdle, None, q)"
| "reader_step Loading q =
     result_bind (read_buffer q) (\<lambda>(a, b).
       check OutOfBounds (lq_read_index q < length (write_states b))
         (Inr (if write_states b ! lq_read_index q \<noteq> 0 then Moving else ReaderIdle, None, q)))"
| "reader_step Moving q =
     result_bind (read_buffer q) (\<lambda>(a, b).
       check OutOfBounds (lq_read_index q < length (buf_items b))
         (case buf_items b ! lq_read_index q of
            None \<Rightarrow> Inl OutOfBounds
          | Some l \<Rightarrow>
              (case LogLine_move l of (line, rest) \<Rightarrow>
                 let q1 = q\<lparr>buffer_heap := (buffer_heap q)(a \<mapsto> b\<lparr>buf_items := (buf_items b)[lq_read_index q := Some rest]\<rparr>),
                            lq_read_index := lq_read_index q + 1\<rparr>
                 in if lq_read_index q1 = kSize
                    then result_bind (retire_front (q1\<lparr>lq_read_index := 0, current_read := None\<rparr>))
                           (\<lambda>q2. Inr (ReaderIdle, Some line, q2))
                    else Inr (ReaderIdle, Some line, q1))))"

text \<open>A call of a reader that is not interrupted.\<close>

definition reader_alone :: "LogBufferQueue \<Rightarrow> (LogLine option \<times> LogBufferQueue) result" where
  "reader_alone q0 =
     (case reader_call q0 of
        (ReaderIdle, q) \<Rightarrow> Inr (None, q)
      | (pc, q) \<Rightarrow>
          result_bind (reader_step pc q) (\<lambda>(pc1, y, q1).
            if pc1 = ReaderIdle then Inr (y, q1)
            else result_bind (reader_step pc1 q1) (\<lambda>(pc2, y2, q2). Inr (y2, q2))))"

subsection \<open>Producers and a reader\<close>

record traffic =
  sources :: producers
  rd :: reader
  popped :: "LogLine list"

definition traffic_start :: traffic where
  "traffic_start = \<lparr>sources = producers_start, rd = ReaderIdle, popped = []\<rparr>"

datatype traffic_event = Producer producer_event | ReadCall | ReadStep

fun traffic_step :: "traffic_event \<Rightarrow> traffic \<Rightarrow> traffic result" where
  "traffic_step (Producer e) s = result_bind (producers_step e (sources s)) (\<lambda>p. Inr (s\<lparr>sources := p\<rparr>))"
| "traffic_step ReadCall s =
     (case reader_call (pq (sources s)) of (pc, q) \<Rightarrow> Inr (s\<lparr>sources := (sources s)\<lparr>pq := q\<rparr>, rd := pc\<rparr>))"
| "traffic_step ReadStep s =
     result_bind (reader_step (rd s) (pq (sources s))) (\<lambda>(pc, y, q).
       Inr (s\<lparr>sources := (sources s)\<lparr>pq := q\<rparr>, rd := pc,
              popped := popped s @ (case y of None \<Rightarrow> [] | Some l \<Rightarrow> [l])\<rparr>))"

text \<open>The reader stays in the first buffer.\<close>

fun traffic_event_ok :: "traffic_event \<Rightarrow> traffic \<Rightarrow> bool" where
  "traffic_event_ok (Producer e) s \<longleftrightarrow> producers_event_ok e (sources s)"
| "traffic_event_ok ReadCall s \<longleftrightarrow> rd s = ReaderIdle"
| "traffic_event_ok ReadStep s \<longleftrightarrow>
     rd s \<noteq> ReaderIdle \<and> (rd s = Moving \<longrightarrow> lq_read_index (pq (sources s)) + 1 < kSize)"

subsection \<open>The invariant\<close>

text \<open>A buffer whose first \<open>m\<close> lines have been moved out, and the queue of which it is the first buffer.\<close>

definition consume :: "nat \<Rightarrow> LogBuffer \<Rightarrow> LogBuffer" where
  "consume m b = b\<lparr>buf_items := map (map_option (\<lambda>l. snd (LogLine_move l))) (take m (buf_items b)) @ drop m (buf_items b)\<rparr>"

definition consumed :: "nat \<Rightarrow> pointer \<Rightarrow> LogBufferQueue \<Rightarrow> LogBufferQueue" where
  "consumed m cr q =
     q\<lparr>buffer_heap := (buffer_heap q)(0 := map_option (consume m) (buffer_heap q 0)),
       lq_read_index := m, current_read := cr\<rparr>"

definition flagged_upto :: "nat \<Rightarrow> LogBufferQueue \<Rightarrow> bool" where
  "flagged_upto m q \<longleftrightarrow> m \<le> kSize \<and> (\<exists>b. buffer_heap q 0 = Some b \<and> (\<forall>i < m. write_states b ! i = 1))"

definition simulates :: "nat \<Rightarrow> pointer \<Rightarrow> traffic \<Rightarrow> producers \<Rightarrow> bool" where
  "simulates m cr s p \<longleftrightarrow>
     producers_inv p \<and> sources s = p\<lparr>pq := consumed m cr (pq p)\<rparr> \<and> m < kSize \<and>
     (cr = None \<and> rd s = ReaderIdle \<or> cr = Some 0) \<and>
     flagged_upto (if rd s = Moving then m + 1 else m) (pq p) \<and> popped s = take m (map snd (tickets p))"

definition traffic_inv :: "traffic \<Rightarrow> bool" where "traffic_inv s \<longleftrightarrow> (\<exists>m cr p. simulates m cr s p)"

subsection \<open>The first buffer under the producers\<close>

lemma producers_inv_cases:
  assumes "producers_inv p"
  obtains W where "running W p" | W t where "installing W t p"
  using assms by (auto simp: producers_inv_def)

lemma unwritten_unflagged: "unwritten pc \<Longrightarrow> unflagged pc"
  by (cases pc) simp_all

lemma held_unwritten: "held unwritten f i \<Longrightarrow> held unflagged f i"
  unfolding held_def using unwritten_unflagged by blast

definition first_ok :: "producers \<Rightarrow> LogBuffer \<Rightarrow> bool" where
  "first_ok p b \<longleftrightarrow>
     length (write_states b) = kSize + 1 \<and> length (buf_items b) = kSize + 1 \<and>
     (\<forall>i < kSize. write_states b ! i \<noteq> 0 \<longrightarrow> i < length (tickets p) \<and> buf_items b ! i = Some (snd (tickets p ! i)))"

lemma first_ok_full: "full_ok (tickets p) c 0 b \<Longrightarrow> kSize \<le> length (tickets p) \<Longrightarrow> first_ok p b"
  by (auto simp: full_ok_def first_ok_def)

lemma first_buffer:
  assumes "producers_inv p"
  shows "\<exists>b. buffer_heap (pq p) 0 = Some b \<and> first_ok p b"
  using assms
proof (cases rule: producers_inv_cases)
  case (1 W)
  let ?n = "min (lq_write_index (pq p)) kSize"
  show ?thesis
  proof (cases "W = 0")
    case True
    with 1 obtain b where b: "buffer_heap (pq p) 0 = Some b" "current_ok 0 ?n (tickets p) (pcs p) b"
      and n: "length (tickets p) = ?n" unfolding running_def by auto
    have "i < ?n \<and> \<not> held unflagged (pcs p) i" if "i < kSize" "write_states b ! i \<noteq> 0" for i
      using b(2) that unfolding current_ok_def by (metis (lifting))
    with b(2) n have "first_ok p b"
      unfolding first_ok_def current_ok_def using held_unwritten [of "pcs p"] by auto
    with b(1) show ?thesis by blast
  next
    case False
    then have "kSize \<le> W * kSize" by simp
    moreover have "length (tickets p) = W * kSize + ?n" using 1 unfolding running_def by blast
    ultimately have "kSize \<le> length (tickets p)" by linarith
    with 1 False show ?thesis unfolding running_def olds_ok_def using first_ok_full by blast
  qed
next
  case (2 W t)
  then have T: "kSize \<le> length (tickets p)" by (simp add: installing_def)
  show ?thesis
  proof (cases "W = 0")
    case True
    with 2 T show ?thesis unfolding installing_def install_ok_def using first_ok_full by blast
  next
    case False
    with 2 T show ?thesis unfolding installing_def olds_ok_def using first_ok_full by blast
  qed
qed

lemma flags_binary:
  assumes "producers_inv p" and "buffer_heap (pq p) 0 = Some b" and "i < kSize"
  shows "write_states b ! i = 0 \<or> write_states b ! i = 1"
  using assms(1)
proof (cases rule: producers_inv_cases)
  case (1 W)
  with assms(2,3) show ?thesis
    by (cases "W = 0") (auto simp: running_def olds_ok_def current_ok_def full_ok_def)
next
  case (2 W t)
  with assms(2,3) show ?thesis
    by (cases "W = 0") (auto simp: installing_def install_ok_def olds_ok_def full_ok_def)
qed

lemma producers_frame:
  assumes "producers_inv p"
  shows "0 < next_addr (pq p)" and "getNextReadLogBuffer (pq p) = Some 0" and "current_write (pq p) \<noteq> None"
  using assms
  by (cases rule: producers_inv_cases;
      auto simp: running_def installing_def install_ok_def getNextReadLogBuffer_def upt_rec split: producer.splits)+

text \<open>A thread about to fill a slot of the first buffer has not flagged it.\<close>

lemma filling_unflagged:
  assumes "producers_inv p" and "pcs p t = Holding l i 0" and "buffer_heap (pq p) 0 = Some b"
  shows "i < kSize \<and> write_states b ! i = 0"
  using assms(1)
proof (cases rule: producers_inv_cases)
  case (1 W)
  let ?n = "min (lq_write_index (pq p)) kSize"
  have sl: "slots_ok W ?n (tickets p) (pcs p)" using 1 by (simp add: running_def)
  have W: "W = 0" and i: "i < ?n" using slots_okD [OF sl, of t i] assms(2) by auto
  have "held unflagged (pcs p) i" using held_owner [OF sl, of t i unflagged] assms(2) by simp
  moreover have "current_ok W ?n (tickets p) (pcs p) b" using 1 W assms(3) by (auto simp: running_def)
  ultimately show ?thesis using i by (simp add: current_ok_def)
next
  case (2 W u)
  then have "t = u" using assms(2) by (force simp: installing_def)
  with 2 assms(2) show ?thesis by (simp add: installing_def install_ok_def)
qed

subsection \<open>Producers do not see the reader\<close>

lemma consume_write_states [simp]: "write_states (consume m b) = write_states b"
  by (simp add: consume_def)

lemma consume_store [simp]: "consume m (b\<lparr>write_states := x\<rparr>) = (consume m b)\<lparr>write_states := x\<rparr>"
  by (simp add: consume_def)

lemma length_consume [simp]: "length (buf_items (consume m b)) = length (buf_items b)"
  by (simp add: consume_def)

lemma consume_item: "m \<le> i \<Longrightarrow> consume m (b\<lparr>buf_items := (buf_items b)[i := x]\<rparr>) = (consume m b)\<lparr>buf_items := (buf_items (consume m b))[i := x]\<rparr>"
  by (cases "i < length (buf_items b)") (simp_all add: consume_def list_update_append drop_update_swap min_def)

lemma store_state_consume: "store_state i v (consume m b) = result_bind (store_state i v b) (\<lambda>b'. Inr (consume m b'))"
  by (simp add: store_state_def check_def)

lemma construct_item_consume:
  "m \<le> i \<Longrightarrow> construct_item l i (consume m b) = result_bind (construct_item l i b) (\<lambda>b'. Inr (consume m b'))"
  by (simp add: construct_item_def check_def consume_item)

lemma consumed_simps [simp]:
  "lq_read_index (consumed m cr q) = m" "current_read (consumed m cr q) = cr"
  "lq_write_index (consumed m cr q) = lq_write_index q" "current_write (consumed m cr q) = current_write q"
  "log_buffers (consumed m cr q) = log_buffers q" "next_addr (consumed m cr q) = next_addr q"
  "backups (consumed m cr q) = backups q"
  "buffer_heap (consumed m cr q) a = (if a = 0 then map_option (consume m) (buffer_heap q 0) else buffer_heap q a)"
  by (simp_all add: consumed_def)

lemma consumed_upd:
  "(consumed m cr q)\<lparr>lq_write_index := n\<rparr> = consumed m cr (q\<lparr>lq_write_index := n\<rparr>)"
  "(consumed m cr q)\<lparr>current_write := w\<rparr> = consumed m cr (q\<lparr>current_write := w\<rparr>)"
  "(consumed m cr q)\<lparr>log_buffers := bs\<rparr> = consumed m cr (q\<lparr>log_buffers := bs\<rparr>)"
  "(consumed m cr q)\<lparr>next_addr := k\<rparr> = consumed m cr (q\<lparr>next_addr := k\<rparr>)"
  "(consumed m cr q)\<lparr>backups := r\<rparr> = consumed m cr (q\<lparr>backups := r\<rparr>)"
  by (simp_all add: consumed_def)

lemma consumed_heap:
  "(consumed m cr q)\<lparr>buffer_heap := (buffer_heap (consumed m cr q))(a \<mapsto> (if a = 0 then consume m b else b))\<rparr> =
     consumed m cr (q\<lparr>buffer_heap := (buffer_heap q)(a \<mapsto> b)\<rparr>)"
  by (cases "a = 0") (simp_all add: consumed_def fun_upd_twist)

lemma with_buffer_consumed:
  assumes "with_buffer a q k = Inr (pc, q')"
    and "\<And>b. a = 0 \<Longrightarrow> buffer_heap q a = Some b \<Longrightarrow> k (consume m b) = result_bind (k b) (\<lambda>(b', pc). Inr (consume m b', pc))"
  shows "with_buffer a (consumed m cr q) k = Inr (pc, consumed m cr q')"
proof -
  obtain b b' where b: "buffer_heap q a = Some b" "k b = Inr (b', pc)" "q' = q\<lparr>buffer_heap := (buffer_heap q)(a \<mapsto> b')\<rparr>"
    using assms(1) by (auto simp: with_buffer_def result_eqs split: option.splits)
  have "k (if a = 0 then consume m b else b) = Inr (if a = 0 then consume m b' else b', pc)"
    using assms(2) [OF _ b(1)] b(2) by simp
  moreover have "buffer_heap (consumed m cr q) a = Some (if a = 0 then consume m b else b)"
    using b(1) by (cases "a = 0") simp_all
  ultimately show ?thesis unfolding b(3) consumed_heap [symmetric] by (rule with_buffer_ok [rotated])
qed

lemma producer_step_consumed:
  assumes "producer_step pc q = Inr (pc', q')" and "0 < next_addr q" and "\<And>l i. pc = Holding l i 0 \<Longrightarrow> m \<le> i"
  shows "producer_step pc (consumed m cr q) = Inr (pc', consumed m cr q')"
proof (cases pc)
  case (Holding l i a)
  show ?thesis using assms(1,3) unfolding Holding producer_step.simps
    by (intro with_buffer_consumed) (auto simp: construct_item_consume result_bind_assoc)
next
  case (Written i a)
  show ?thesis using assms(1) unfolding Written producer_step.simps
    by (intro with_buffer_consumed) (auto simp: store_state_consume result_bind_assoc)
next
  case (Flagged i a)
  show ?thesis using assms(1) unfolding Flagged producer_step.simps
    by (intro with_buffer_consumed) (auto simp: store_state_consume result_bind_assoc Let_def)
next
  case (Resetting a)
  show ?thesis using assms(1) unfolding Resetting producer_step.simps
    by (intro with_buffer_consumed) (auto simp: store_state_consume result_bind_assoc)
next
  case SettingUp
  have heap: "(consumed m cr q)\<lparr>buffer_heap := (buffer_heap (consumed m cr q))(next_addr q \<mapsto> b)\<rparr> =
      consumed m cr (q\<lparr>buffer_heap := (buffer_heap q)(next_addr q \<mapsto> b)\<rparr>)" for b
    using consumed_heap [of m cr q "next_addr q" b] assms(2) by simp
  show ?thesis using assms(1,2)
    by (auto simp: SettingUp take_buffer_def heap consumed_upd split: prod.splits option.splits)
qed (use assms(1) in \<open>auto simp: reserve_def push_call_def consumed_upd result_eqs split: if_splits option.splits\<close>)

lemma ticket_of_consumed: "ticket_of t pc (consumed m cr q) = ticket_of t pc q"
  by (simp add: ticket_of_def split: producer.split)

lemma store_state_keeps:
  assumes "store_state j v b = Inr b'" and "j < kSize \<longrightarrow> v = 1" and "i < kSize" and "write_states b ! i = 1"
  shows "write_states b' ! i = 1"
  using assms by (auto simp: store_state_def result_eqs nth_list_update)

lemma with_buffer_flagged:
  assumes "with_buffer a q k = Inr (pc, q')" and "flagged_upto m q"
    and "\<And>b b' pc i. k b = Inr (b', pc) \<Longrightarrow> i < kSize \<Longrightarrow> write_states b ! i = 1 \<Longrightarrow> write_states b' ! i = 1"
  shows "flagged_upto m q'"
proof -
  obtain b b' where b: "buffer_heap q a = Some b" "k b = Inr (b', pc)" "q' = q\<lparr>buffer_heap := (buffer_heap q)(a \<mapsto> b')\<rparr>"
    using assms(1) by (auto simp: with_buffer_def result_eqs split: option.splits)
  show ?thesis using assms(2) assms(3) [OF b(2)] b(1) unfolding flagged_upto_def b(3) by (cases "a = 0") auto
qed

text \<open>A flag, once set, stays.\<close>

lemma producer_step_flagged:
  assumes step: "producer_step pc q = Inr (pc', q')" and f: "flagged_upto m q" and n: "0 < next_addr q"
  shows "flagged_upto m q'"
proof (cases pc)
  case (Holding l i a)
  with step show ?thesis by (auto simp: construct_item_def result_eqs intro!: with_buffer_flagged [OF _ f])
next
  case (Written i a)
  with step show ?thesis by (auto simp: result_eqs elim!: store_state_keeps [unfolded One_nat_def] intro!: with_buffer_flagged [OF _ f])
next
  case (Flagged i a)
  with step show ?thesis
    by (auto simp: result_eqs Let_def elim!: store_state_keeps [unfolded One_nat_def] intro!: with_buffer_flagged [OF _ f])
next
  case (Resetting a)
  with step show ?thesis by (auto simp: result_eqs elim!: store_state_keeps [unfolded One_nat_def] intro!: with_buffer_flagged [OF _ f])
next
  case SettingUp
  with step f n show ?thesis by (auto simp: take_buffer_def flagged_upto_def split: prod.splits option.splits)
qed (use step f in \<open>auto simp: reserve_def push_call_def flagged_upto_def result_eqs split: if_splits option.splits\<close>)

subsection \<open>The simulation\<close>

lemma producers_step_consumed:
  assumes inv: "producers_inv p" and ok: "producers_event_ok e p" and f: "flagged_upto k (pq p)" and m: "m \<le> k"
  shows "\<exists>p' ts. producers_step e p = Inr p' \<and> producers_inv p' \<and> flagged_upto k (pq p') \<and> tickets p' = tickets p @ ts \<and>
    producers_step e (p\<lparr>pq := consumed m cr (pq p)\<rparr>) = Inr (p'\<lparr>pq := consumed m cr (pq p')\<rparr>)"
proof -
  obtain p' where p': "producers_step e p = Inr p'" "producers_inv p'"
    using producers.step_safe [OF inv ok] by blast
  show ?thesis
  proof (cases e)
    case (PCall t l)
    with p' f show ?thesis by (auto simp: push_call_def result_eqs)
  next
    case (PStep t)
    with p'(1) obtain pc q where q: "producer_step (pcs p t) (pq p) = Inr (pc, q)"
      "p' = p\<lparr>pq := q, pcs := (pcs p)(t := pc), tickets := tickets p @ ticket_of t (pcs p t) (pq p)\<rparr>"
      by (auto simp: result_eqs)
    have "m \<le> i" if "pcs p t = Holding l i 0" for l i
    proof (rule ccontr)
      assume "\<not> m \<le> i"
      moreover obtain b where b: "buffer_heap (pq p) 0 = Some b" "\<forall>j < k. write_states b ! j = 1"
        using f by (auto simp: flagged_upto_def)
      ultimately show False using filling_unflagged [OF inv that b(1)] m by simp
    qed
    with producer_step_consumed [OF q(1) producers_frame(1) [OF inv], of m cr]
      producer_step_flagged [OF q(1) f producers_frame(1) [OF inv]] p'
    show ?thesis by (simp add: PStep q(2) ticket_of_consumed)
  qed
qed

lemma flagged_tickets:
  assumes "producers_inv p" and "flagged_upto k (pq p)"
  shows "k \<le> length (tickets p)"
proof (cases k)
  case (Suc i)
  obtain b where b: "buffer_heap (pq p) 0 = Some b" "first_ok p b" using first_buffer [OF assms(1)] by blast
  with assms(2) Suc have "i < kSize" "write_states b ! i \<noteq> 0" by (auto simp: flagged_upto_def)
  with b(2) have "i < length (tickets p)" unfolding first_ok_def by blast
  with Suc show ?thesis by simp
qed simp

lemma traffic_producer:
  assumes sim: "simulates m cr s p" and ok: "producers_event_ok e (sources s)"
  shows "\<exists>s'. traffic_step (Producer e) s = Inr s' \<and> traffic_inv s'"
proof -
  let ?k = "if rd s = Moving then m + 1 else m"
  have p: "producers_inv p" "sources s = p\<lparr>pq := consumed m cr (pq p)\<rparr>" "flagged_upto ?k (pq p)"
    "popped s = take m (map snd (tickets p))"
    using sim by (simp_all add: simulates_def)
  have k: "m \<le> ?k" by simp
  have ok': "producers_event_ok e p" using ok unfolding p(2) by (cases e) simp_all
  obtain p' ts where p': "producers_inv p'" "flagged_upto ?k (pq p')" "tickets p' = tickets p @ ts"
    "producers_step e (sources s) = Inr (p'\<lparr>pq := consumed m cr (pq p')\<rparr>)"
    using producers_step_consumed [OF p(1) ok' p(3) k, of cr] unfolding p(2) by blast
  have "m \<le> length (tickets p)" using flagged_tickets [OF p(1,3)] by (auto split: if_splits)
  with sim p' p(4) have "simulates m cr (s\<lparr>sources := p'\<lparr>pq := consumed m cr (pq p')\<rparr>\<rparr>) p'"
    unfolding simulates_def by simp
  with p'(4) show ?thesis by (auto simp: traffic_inv_def)
qed

lemma traffic_call:
  assumes sim: "simulates m cr s p" and ok: "rd s = ReaderIdle"
  shows "\<exists>s'. traffic_step ReadCall s = Inr s' \<and> traffic_inv s'"
proof -
  let ?s = "s\<lparr>sources := p\<lparr>pq := consumed m (Some 0) (pq p)\<rparr>, rd := Loading\<rparr>"
  have p: "producers_inv p" "sources s = p\<lparr>pq := consumed m cr (pq p)\<rparr>" "cr = None \<or> cr = Some 0"
    using sim by (auto simp: simulates_def)
  have "getNextReadLogBuffer (consumed m cr (pq p)) = Some 0"
    using producers_frame(2) [OF p(1)] by (simp add: getNextReadLogBuffer_def)
  moreover have "(consumed m cr (pq p))\<lparr>current_read := Some 0\<rparr> = consumed m (Some 0) (pq p)"
    by (simp add: consumed_def)
  ultimately have "reader_call (consumed m cr (pq p)) = (Loading, consumed m (Some 0) (pq p))"
    using p(3) by (auto simp: reader_call_def Let_def)
  then have "traffic_step ReadCall s = Inr ?s" by (simp add: p(2))
  moreover have "simulates m (Some 0) ?s p" using sim ok by (simp add: simulates_def)
  ultimately show ?thesis by (auto simp: traffic_inv_def)
qed

text \<open>The reader finds in its slot the line of the next reservation, once the flag is set.\<close>

lemma consume_read:
  assumes "i < length (buf_items b)" and "buf_items b ! i = Some l"
  shows "buf_items (consume i b) ! i = Some l"
    and "(consume i b)\<lparr>buf_items := (buf_items (consume i b))[i := Some (snd (LogLine_move l))]\<rparr> = consume (i + 1) b"
  using assms by (simp_all add: consume_def nth_append take_Suc_conv_app_nth list_update_append Cons_nth_drop_Suc [symmetric])

lemma consumed_next:
  assumes "buffer_heap q 0 = Some b" and "m < length (buf_items b)" and "buf_items b ! m = Some l"
  shows "(consumed m cr q)\<lparr>buffer_heap := (buffer_heap (consumed m cr q))(0 \<mapsto>
       (consume m b)\<lparr>buf_items := (buf_items (consume m b))[m := Some (snd (LogLine_move l))]\<rparr>), lq_read_index := m + 1\<rparr> =
     consumed (m + 1) cr q"
  unfolding consume_read(2) [OF assms(2,3)] using assms(1) by (simp add: consumed_def)

lemma traffic_read:
  assumes sim: "simulates m cr s p" and ok: "traffic_event_ok ReadStep s"
  shows "\<exists>s'. traffic_step ReadStep s = Inr s' \<and> traffic_inv s'"
proof -
  have p: "producers_inv p" "sources s = p\<lparr>pq := consumed m cr (pq p)\<rparr>" "m < kSize" "cr = Some 0"
    "popped s = take m (map snd (tickets p))"
    using sim ok by (auto simp: simulates_def)
  obtain b where b: "buffer_heap (pq p) 0 = Some b" "first_ok p b" using first_buffer [OF p(1)] by blast
  have len: "m < length (write_states b)" "m < length (buf_items b)" using b(2) p(3) by (simp_all add: first_ok_def)
  have rb: "read_buffer (consumed m cr (pq p)) = Inr (0, consume m b)" using p(4) b(1) by (simp add: read_buffer_def)
  show ?thesis
  proof (cases "rd s")
    case Loading
    let ?pc = "if write_states b ! m \<noteq> 0 then Moving else ReaderIdle"
    have "traffic_step ReadStep s = Inr (s\<lparr>rd := ?pc\<rparr>)" using Loading rb len p(2) by simp
    moreover have "write_states b ! m = 1" if "write_states b ! m \<noteq> 0"
      using flags_binary [OF p(1) b(1) p(3)] that by simp
    then have "simulates m cr (s\<lparr>rd := ?pc\<rparr>) p"
      using sim Loading b(1) p(3,4) by (auto simp: simulates_def flagged_upto_def less_Suc_eq)
    ultimately show ?thesis unfolding traffic_inv_def by blast
  next
    case Moving
    with sim b(1) have f: "flagged_upto (m + 1) (pq p)" "write_states b ! m = 1"
      by (auto simp: simulates_def flagged_upto_def)
    then have l: "m < length (tickets p)" "buf_items b ! m = Some (snd (tickets p ! m))"
      using b(2) p(3) by (simp_all add: first_ok_def)
    have m: "m + 1 < kSize" using ok Moving p(2) by simp
    let ?l = "snd (tickets p ! m)"
    let ?s = "s\<lparr>sources := p\<lparr>pq := consumed (m + 1) cr (pq p)\<rparr>, rd := ReaderIdle, popped := popped s @ [?l]\<rparr>"
    have "reader_step Moving (consumed m cr (pq p)) = Inr (ReaderIdle, Some ?l, consumed (m + 1) cr (pq p))"
      using rb len consume_read(1) [OF len(2) l(2)] m consumed_next [OF b(1) len(2) l(2), of cr]
      by (simp add: Let_def LogLine_move_def)
    then have "traffic_step ReadStep s = Inr ?s" using Moving p(2) by simp
    moreover have "simulates (m + 1) cr ?s p"
      using sim f(1) m l(1) p(4,5) by (simp add: simulates_def take_Suc_conv_app_nth)
    ultimately show ?thesis by (auto simp: traffic_inv_def)
  qed (use ok in simp)
qed

interpretation traffic: safe_machine traffic_step traffic_event_ok traffic_inv
proof (unfold_locales, goal_cases)
  case (1 s e)
  then obtain m cr p where sim: "simulates m cr s p" by (auto simp: traffic_inv_def)
  show ?case
    using traffic_producer [OF sim] traffic_call [OF sim] traffic_read [OF sim] 1(2) by (cases e) auto
qed

lemma traffic_start_inv: "traffic_inv traffic_start"
proof -
  obtain b where b: "buffer_heap (pq producers_start) 0 = Some b" using first_buffer [OF producers_start_inv] by blast
  have "quiet producers_start" using producers_start_inv by (simp add: producers_inv_def)
  then have q: "current_read (pq producers_start) = None" "lq_read_index (pq producers_start) = 0"
    by (simp_all add: quiet_def)
  have "consume 0 b = b" for b by (simp add: consume_def)
  then have "consumed 0 None (pq producers_start) = pq producers_start"
    using b q by (cases "pq producers_start") (simp add: consumed_def fun_upd_idem)
  then have "simulates 0 None traffic_start producers_start"
    using producers_start_inv b kSize_pos by (simp add: simulates_def traffic_start_def flagged_upto_def)
  then show ?thesis by (auto simp: traffic_inv_def)
qed

subsection \<open>A reader alone\<close>

lemma reader_alone_pop:
  assumes "\<And>a b. buffer_heap q a = Some b \<Longrightarrow> length (buf_items b) = length (write_states b)"
  shows "reader_alone q = LogBufferQueue_pop q"
proof (cases "current_read (attached q)")
  case None
  then show ?thesis by (auto simp: reader_alone_def reader_call_def LogBufferQueue_pop_def attached_def Let_def split: if_splits)
next
  case (Some a)
  then have call: "reader_call q = (Loading, attached q)"
    by (auto simp: reader_call_def attached_def Let_def split: if_splits)
  have heap: "buffer_heap (attached q) = buffer_heap q" by (simp add: attached_def)
  show ?thesis
  proof (cases "buffer_heap q a")
    case None
    with Some heap show ?thesis
      unfolding reader_alone_def call LogBufferQueue_pop_def attached_def [symmetric] by (simp add: read_buffer_def Let_def)
  next
    case b: (Some b)
    have "buffer_heap (attached q) a = Some b" using b heap by simp
    note pop = pop_attached [OF Some this]
    show ?thesis
      unfolding reader_alone_def call pop using Some b heap assms [OF b]
      by (auto simp: read_buffer_def LogBuffer_pop_def check_def Let_def LogLine_move_def result_bind_assoc
          split: option.split if_splits)
  qed
qed

subsection \<open>At rest\<close>

lemma block_consume:
  assumes "block L W j 0 k b" and "m < kSize" and "m \<le> length L"
  shows "block L W j m k (if k = 0 then consume m b else b)"
proof (cases "k = 0")
  case True
  with assms show ?thesis by (auto simp: block_def consume_def nth_append min_def)
next
  case False
  then have "kSize \<le> k * kSize" by simp
  then have "\<not> k * kSize + i < m" for i using assms(2) by linarith
  with False assms(1) show ?thesis by (simp add: block_def)
qed

lemma queue_holds_consumed:
  assumes q: "queue_holds L W j 0 0 q" and m: "m < kSize" "m \<le> length L" and "cr = None \<or> cr = Some 0"
  shows "queue_holds L W j 0 m (consumed m cr q)"
proof -
  have "\<exists>b. buffer_heap (consumed m cr q) k = Some b \<and> block L W j (0 * kSize + m) k b" if "k \<le> W" for k
  proof -
    have "\<exists>b. buffer_heap q k = Some b \<and> block L W j (0 * kSize + 0) k b" using q that unfolding queue_holds_def by blast
    then obtain b where "buffer_heap q k = Some b" "block L W j 0 k b" by auto
    with block_consume [OF this(2) m] show ?thesis by (cases "k = 0") simp_all
  qed
  with assms show ?thesis by (simp add: queue_holds_def)
qed

subsection \<open>Properties\<close>

text \<open>C8. The log queue works while it is written and read at the same time. However the atomic steps of any number of producers
  and of one reader are interleaved, as long as the reader has not finished the first buffer, no step of either side
  fails; the lines popped so far are the first reserved ones in order, each once; a slot is read only after its line
  is complete. When no call is in progress, the queue answers as a queue that holds exactly the other lines.\<close>

theorem concurrent_reader_fifo:
  assumes "machine_run traffic_step traffic_event_ok silent traffic_start [] s"
  shows "(\<forall>e. traffic_event_ok e s \<longrightarrow> is_ok (traffic_step e s)) \<and>
    (\<exists>rest. map snd (tickets (sources s)) = popped s @ rest \<and>
       ((\<forall>t. pcs (sources s) t = Idle) \<and> rd s = ReaderIdle \<longrightarrow>
          (\<forall>t. map snd (filter (\<lambda>x. fst x = t) (tickets (sources s))) = called (sources s) t) \<and>
          (\<forall>ops. length (popped s) + pop_count ops < kSize \<longrightarrow>
             (\<exists>q'. lq_run ops (pq (sources s)) = Some (Inr (fst (fifo_outs ops rest), q'))))))"
proof -
  obtain m cr p where sim: "simulates m cr s p"
    using traffic.run_inv [OF assms traffic_start_inv] by (auto simp: traffic_inv_def)
  let ?L = "map snd (tickets (sources s))"
  have p: "producers_inv p" "sources s = p\<lparr>pq := consumed m cr (pq p)\<rparr>" "m < kSize" "cr = None \<or> cr = Some 0"
    "popped s = take m ?L" "m \<le> length ?L"
    using sim flagged_tickets [of p m] flagged_tickets [of p "m + 1"] by (auto simp: simulates_def split: if_splits)
  have "(\<forall>t. map snd (filter (\<lambda>x. fst x = t) (tickets (sources s))) = called (sources s) t) \<and>
      (\<forall>ops. length (popped s) + pop_count ops < kSize \<longrightarrow>
         (\<exists>q'. lq_run ops (pq (sources s)) = Some (Inr (fst (fifo_outs ops (drop m ?L)), q'))))"
    if "\<forall>t. pcs (sources s) t = Idle"
  proof (intro conjI allI impI)
    have idle: "pcs p t = Idle" for t using that p(2) by simp
    obtain W where W: "running W p" "quiet p" by (rule idle_running [OF p(1) idle])
    show "map snd (filter (\<lambda>x. fst x = t) (tickets (sources s))) = called (sources s) t" for t
      using W(2) idle p(2) by (simp add: quiet_def)
    have "queue_holds ?L W (lq_write_index (pq p)) 0 m (pq (sources s))"
      using queue_holds_consumed [OF idle_queue_holds [OF W idle] p(3) _ p(4)] p(2,6) by simp
    then show "\<exists>q'. lq_run ops (pq (sources s)) = Some (Inr (fst (fifo_outs ops (drop m ?L)), q'))"
      if "length (popped s) + pop_count ops < kSize" for ops
      using queue_run [of ?L W _ 0 m "pq (sources s)" ops] that p(5,6) by auto
  qed
  moreover have "?L = popped s @ drop m ?L" unfolding p(5) by simp
  ultimately show ?thesis using traffic.run_safe [OF assms traffic_start_inv] by blast
qed

text \<open>A reader that comes after the first of two reservations has been completed and before the second.\<close>

definition demo_traffic :: "LogLine \<Rightarrow> LogLine \<Rightarrow> traffic_event list" where
  "demo_traffic a b = map Producer [PCall 0 a, PCall 1 b, PStep 1, PStep 0, PStep 1, PStep 1, PStep 1] @
     [ReadCall, ReadStep, Producer (PStep 1), ReadStep] @ map Producer [PStep 0, PStep 0, PStep 0, PStep 0]"

lemma demo_traffic_runs:
  "\<exists>s. run_schedule traffic_step traffic_event_ok (demo_traffic a b) traffic_start = Some s \<and>
     (\<forall>t. pcs (sources s) t = Idle) \<and> rd s = ReaderIdle \<and> popped s = [b] \<and> tickets (sources s) = [(1, b), (0, a)]"
proof -
  have new: "LogBufferQueue_new = \<lparr>buffer_heap = [0 \<mapsto> LogBuffer_new], next_addr = 1, log_buffers = [Some 0],
      current_write = Some 0, current_read = None, lq_write_index = 0, lq_read_index = 0, backups = RingQueue_new 4\<rparr>"
    by (simp add: LogBufferQueue_new_def setupNextWriteLogBuffer_def RingQueue_pop_def) (simp add: RingQueue_new_def)
  have b: "length (write_states LogBuffer_new) = kSize + 1" "length (buf_items LogBuffer_new) = kSize + 1"
    "write_states LogBuffer_new ! kSize = 0" "buf_items LogBuffer_new \<noteq> []" "write_states LogBuffer_new \<noteq> []"
    by (simp_all add: LogBuffer_new_def del: replicate_Suc)
  have K: "Suc 0 < kSize" "Suc (Suc 0) \<noteq> kSize" "kSize \<noteq> Suc 0" "0 < kSize" by (simp_all add: kSize_def)
  show ?thesis
    using b K by (simp add: demo_traffic_def traffic_start_def producers_start_def new push_call_def reserve_def ticket_of_def
        with_buffer_def construct_item_def store_state_def nth_list_update reader_call_def getNextReadLogBuffer_def
        read_buffer_def LogLine_move_def)
qed

theorem concurrent_reader_fifo_witness:
  "\<exists>s q'. run_schedule traffic_step traffic_event_ok (demo_traffic LogLine_empty (LogLine_empty\<lparr>used_bytes := 1\<rparr>)) traffic_start = Some s \<and>
     popped s = [LogLine_empty\<lparr>used_bytes := 1\<rparr>] \<and> lq_run [LPop, LPop] (pq (sources s)) = Some (Inr ([Some LogLine_empty, None], q'))"
proof -
  let ?b = "LogLine_empty\<lparr>used_bytes := 1\<rparr>"
  obtain s where s: "run_schedule traffic_step traffic_event_ok (demo_traffic LogLine_empty ?b) traffic_start = Some s"
    "\<forall>t. pcs (sources s) t = Idle" "rd s = ReaderIdle" "popped s = [?b]" "tickets (sources s) = [(1, ?b), (0, LogLine_empty)]"
    using demo_traffic_runs by blast
  have "length (popped s) + pop_count [LPop, LPop] < kSize" using s(4) by (simp add: kSize_def)
  moreover obtain rest where rest: "map snd (tickets (sources s)) = popped s @ rest"
    "\<forall>ops. length (popped s) + pop_count ops < kSize \<longrightarrow>
       (\<exists>q'. lq_run ops (pq (sources s)) = Some (Inr (fst (fifo_outs ops rest), q')))"
    using concurrent_reader_fifo [OF run_schedule_run [OF s(1)]] s(2,3) by blast
  ultimately have "\<exists>q'. lq_run [LPop, LPop] (pq (sources s)) = Some (Inr (fst (fifo_outs [LPop, LPop] rest), q'))" by blast
  moreover have "rest = [LogLine_empty]" using rest s(4,5) by simp
  then have "fst (fifo_outs [LPop, LPop] rest) = [Some LogLine_empty, None]" by simp
  ultimately show ?thesis using s(1,4) by metis
qed

end
