(* ===== verification/Examples.thy ===== *)
theory Examples
  imports HttpServer TcpServer
begin

text \<open>
  The programs under examples/: EchoServer.cpp, EchoClient.cpp, HttpServer/HttpServer.cpp and
  HttpServer/ReadSmallFile.cpp. Each is the library's components with callbacks of its own, so the theorems
  here are about the library as a whole.

  \<^item> An echo server's message callback runs in the loop of its connection; the bytes \<open>readv\<close> delivers and the
    outcome of \<open>write\<close> are arguments of an event.
  \<^item> The results of \<open>open\<close>, \<open>fstat\<close> and \<open>read\<close> are arguments of \<open>ReadSmallFile\<close>; when the list of \<open>read\<close> results runs
    out, the call is still waiting (\<open>None\<close>).
  \<^item> \<open>main\<close> of the HTTP server is its callback, the table of files and the setting of zero worker threads.
\<close>

subsection \<open>EchoServer\<close>

definition EchoServer_new ::
  "(char list \<Rightarrow> string) \<Rightarrow> byte_order \<Rightarrow> InetAddress \<Rightarrow> string \<Rightarrow> int \<Rightarrow> addr \<Rightarrow> int \<Rightarrow> int \<Rightarrow>
    server_functor EventLoop \<Rightarrow> TcpServer result" where
  "EchoServer_new ntop6 e address name fd c idle bind_ret l =
     result_bind (TcpServer_new ntop6 e address name kNoReusePort fd c idle bind_ret l) (TcpServer_setThreadNum 0)"

definition EchoServer_start :: "int \<Rightarrow> TcpServer \<Rightarrow> TcpServer result" where
  "EchoServer_start listen_ret w = TcpServer_start (\<lambda>_. 0) listen_ret w"

text \<open>\<open>r\<close> is the address of the connection's input buffer.\<close>

definition EchoServer_onMessage :: "addr \<Rightarrow> write_result \<Rightarrow> TcpConnection \<Rightarrow> TcpConnection result" where
  "EchoServer_onMessage r wr w =
     result_bind (send_buffer r (input_buffer w) wr w) (\<lambda>(b, w1). Inr (w1\<lparr>input_buffer := b\<rparr>))"

datatype echo_event =
    EchoReadable "int + string" TimeStamp write_result | EchoWritable write_result | EchoHup | EchoError

fun echo_step :: "addr \<Rightarrow> echo_event \<Rightarrow> TcpConnection \<Rightarrow> TcpConnection result" where
  "echo_step r (EchoReadable rd t wr) w =
     result_bind (TcpConnection_handleRead rd t w) (\<lambda>w1.
       case rd of Inl e \<Rightarrow> Inr w1 | Inr bytes \<Rightarrow> if bytes \<noteq> [] then EchoServer_onMessage r wr w1 else Inr w1)"
| "echo_step r (EchoWritable wr) w = handleWrite wr w"
| "echo_step r EchoHup w = handleClose w"
| "echo_step r EchoError w = Inr (handleError w)"

fun echo_event_ok :: "echo_event \<Rightarrow> TcpConnection \<Rightarrow> bool" where
  "echo_event_ok (EchoReadable rd t wr) w \<longleftrightarrow>
     live w \<and> (case rd of Inl e \<Rightarrow> True
              | Inr bytes \<Rightarrow> length bytes \<le> writableBytes (input_buffer w) \<and> send_room bytes wr w)"
| "echo_event_ok (EchoWritable wr) w \<longleftrightarrow> write_spec (length (Buffer_contents (output_buffer w))) wr"
| "echo_event_ok EchoHup w \<longleftrightarrow> live w"
| "echo_event_ok EchoError w \<longleftrightarrow> True"

text \<open>The bytes received, unless the peer turns out to be gone when they are sent back.\<close>

fun echo_received :: "echo_event \<Rightarrow> TcpConnection \<Rightarrow> string list" where
  "echo_received (EchoReadable (Inr bytes) t wr) w = (if bytes \<noteq> [] \<and> \<not> dropped wr w then [bytes] else [])"
| "echo_received _ w = []"

definition echo_inv :: "TcpConnection \<Rightarrow> bool" where
  "echo_inv w \<longleftrightarrow>
     conn_inv w \<and> (conn_state w = kConnected \<or> conn_state w = kDisconnected) \<and>
     (conn_state w = kConnected \<longrightarrow> Buffer_wf (input_buffer w) \<and> Buffer_contents (input_buffer w) = [])"

lemma echo_onMessage:
  assumes inv: "conn_inv w" and st: "conn_state w = kConnected" and ib: "Buffer_wf (input_buffer w)"
    and room: "send_room (Buffer_contents (input_buffer w)) wr w"
  shows "\<exists>w'. EchoServer_onMessage r wr w = Inr w' \<and> echo_inv w' \<and>
     stream w' = stream w @ (if dropped wr w then [] else Buffer_contents (input_buffer w))"
proof -
  let ?m = "Buffer_contents (input_buffer w)"
  obtain w1 where w1: "sendInLoop ?m wr w = Inr w1" "conn_inv w1" "conn_state w1 = kConnected"
    "stream w1 = stream w @ (if dropped wr w then [] else ?m)"
    using sendInLoop_ok [OF inv st, of ?m wr] room by (auto simp: send_room_def)
  have "isInLoopThread w" by (rule isInLoopThread_inv [OF conn_invD(1) [OF inv]])
  then have "EchoServer_onMessage r wr w = Inr (w1\<lparr>input_buffer := retrieveAll (input_buffer w)\<rparr>)"
    using st w1(1) by (simp add: EchoServer_onMessage_def send_buffer_def Buffer_toString_ok [OF ib])
  with w1 retrieveAll_ok [OF ib] show ?thesis by (simp add: echo_inv_def)
qed

lemma echo_closed: "conn_inv w \<Longrightarrow> conn_state w = kDisconnected \<Longrightarrow> echo_inv w"
  by (simp add: echo_inv_def)

lemma echo_read:
  assumes inv: "echo_inv w" and ok: "echo_event_ok (EchoReadable rd t wr) w"
  shows "\<exists>w'. echo_step r (EchoReadable rd t wr) w = Inr w' \<and> echo_inv w' \<and>
     stream w' = stream w @ concat (echo_received (EchoReadable rd t wr) w)"
proof -
  have w: "conn_inv w" "conn_state w = kConnected" "Buffer_wf (input_buffer w)" "Buffer_contents (input_buffer w) = []"
    and lv: "live w"
    using inv ok by (auto simp: echo_inv_def live_def)
  show ?thesis
  proof (cases rd)
    case (Inl e)
    with inv w show ?thesis
      by (simp add: TcpConnection_handleRead_def in_loop [OF conn_invD(1) [OF w(1)]] readFd_error handleError_def)
  next
    case (Inr bytes)
    with ok have fits: "length bytes \<le> writableBytes (input_buffer w)" and room: "send_room bytes wr w" by simp_all
    show ?thesis
    proof (cases "bytes = []")
      case True
      from readFd_fits [OF w(3), of "[]"] obtain ib where ib: "readFd (input_buffer w) (Inr []) = Inr (ib, Inr 0)" by auto
      have "conn_inv (w\<lparr>input_buffer := ib\<rparr>)" "live (w\<lparr>input_buffer := ib\<rparr>)" using w(1) lv by (simp_all add: live_def)
      from handleClose_ok [OF this] obtain w' where "handleClose (w\<lparr>input_buffer := ib\<rparr>) = Inr w'" "conn_inv w'"
        "conn_state w' = kDisconnected" "sock_out w' = sock_out w" "output_buffer w' = output_buffer w" by auto
      with True Inr ib echo_closed [of w'] show ?thesis
        by (simp add: TcpConnection_handleRead_def in_loop [OF conn_invD(1) [OF w(1)]] stream_def)
    next
      case False
      from handleRead_message [OF w(1,3) False fits, of t] obtain ib where
        ib: "TcpConnection_handleRead (Inr bytes) t w = Inr (w\<lparr>input_buffer := ib, calls := calls w @ [MessageCall t]\<rparr>)"
          "Buffer_wf ib" "Buffer_contents ib = bytes" using w(4) by auto
      let ?w = "w\<lparr>input_buffer := ib, calls := calls w @ [MessageCall t]\<rparr>"
      have v: "conn_inv ?w" "conn_state ?w = kConnected" "stream ?w = stream w" "dropped wr ?w = dropped wr w"
        using w(1,2) by (simp_all add: conn_inv_def chan_state_def live_def stream_def dropped_def)
      from echo_onMessage [OF v(1,2), of wr r] ib v room False Inr show ?thesis by (auto simp: send_room_def)
    qed
  qed
qed

lemma echo_step_ok:
  assumes inv: "echo_inv w" and ok: "echo_event_ok ev w"
  shows "\<exists>w'. echo_step r ev w = Inr w' \<and> echo_inv w' \<and> stream w' = stream w @ concat (echo_received ev w)"
proof -
  have w: "conn_inv w" using inv by (simp add: echo_inv_def)
  show ?thesis
  proof (cases ev)
    case (EchoReadable rd t wr)
    with echo_read [OF inv] ok show ?thesis by simp
  next
    case (EchoWritable wr)
    with handleWrite_stream [OF w, of wr] ok inv show ?thesis by (auto simp: echo_inv_def)
  next
    case EchoHup
    with ok have "live w" by simp
    from handleClose_ok [OF w this] obtain w' where "handleClose w = Inr w'" "conn_inv w'"
      "conn_state w' = kDisconnected" "sock_out w' = sock_out w" "output_buffer w' = output_buffer w" by blast
    with EchoHup echo_closed [of w'] show ?thesis by (simp add: stream_def)
  next
    case EchoError
    with inv show ?thesis by (simp add: handleError_def)
  qed
qed

interpretation echo: output_machine "echo_step r" echo_event_ok echo_inv echo_received stream for r
proof
  fix w ev assume "echo_inv w" "echo_event_ok ev w"
  then show "\<exists>w'. echo_step r ev w = Inr w' \<and> echo_inv w'" using echo_step_ok [of w ev r] by blast
next
  fix w ev w' assume "echo_inv w" "echo_event_ok ev w" "echo_step r ev w = Inr w'"
  then show "stream w' = stream w @ concat (echo_received ev w)" using echo_step_ok [of w ev r] by auto
qed

subsection \<open>EchoClient\<close>

text \<open>The callbacks: the message is sent when the connection is up, the loop is told to quit when it goes down;
  what arrives is taken out of the buffer and captured by a timer that sends it back after 500 ms. \<open>r\<close> is the
  address of the message; the callbacks run in the loop, where \<open>send\<close> copies.\<close>

definition EchoClient_onConnection :: "string \<Rightarrow> addr \<Rightarrow> write_result \<Rightarrow> TcpConnection \<Rightarrow> TcpConnection result" where
  "EchoClient_onConnection msg r wr w =
     (if isConnected w then TcpConnection_send r msg wr w else Inr (EventLoop_quit w))"

definition EchoClient_onMessage :: "TcpConnection \<Rightarrow> (string \<times> TcpConnection) result" where
  "EchoClient_onMessage w =
     result_bind (retrieveAllAsString (input_buffer w)) (\<lambda>(msg, b). Inr (msg, w\<lparr>input_buffer := b\<rparr>))"

definition EchoClient_onTimer :: "addr \<Rightarrow> string \<Rightarrow> write_result \<Rightarrow> TcpConnection \<Rightarrow> TcpConnection result" where
  "EchoClient_onTimer r msg wr w = TcpConnection_send r msg wr w"

subsection \<open>ReadSmallFile\<close>

datatype file_mode = RegularFile | Directory | OtherFile

record file_stat =
  st_mode :: file_mode
  st_size :: nat
  st_mtim :: timespec
  st_ctim :: timespec

record ReadSmallFile =
  file_fd :: int
  file_err :: int
  file_size :: nat
  file_mtime :: TimeStamp
  file_ctime :: TimeStamp

text \<open>\<open>opened\<close> and \<open>statted\<close> are the outcomes of \<open>open\<close> and \<open>fstat\<close>; \<open>errno\<close> is its value after a successful \<open>fstat\<close>,
  which does not set it.\<close>

definition ReadSmallFile_new :: "int + int \<Rightarrow> int + file_stat \<Rightarrow> int \<Rightarrow> ReadSmallFile" where
  "ReadSmallFile_new opened statted errno =
     (let f = (case opened of
                 Inl e \<Rightarrow> \<lparr>file_fd = - 1, file_err = e, file_size = 0, file_mtime = 0, file_ctime = 0\<rparr>
               | Inr fd \<Rightarrow> \<lparr>file_fd = fd, file_err = 0, file_size = 0, file_mtime = 0, file_ctime = 0\<rparr>)
      in case statted of
           Inl e \<Rightarrow> f\<lparr>file_err := e\<rparr>
         | Inr st \<Rightarrow>
             (let g = (case st_mode st of
                         RegularFile \<Rightarrow> f\<lparr>file_size := st_size st\<rparr>
                       | Directory \<Rightarrow> f\<lparr>file_err := errno\<rparr>
                       | OtherFile \<Rightarrow> f)
              in g\<lparr>file_mtime := from_timespec (st_mtim st), file_ctime := from_timespec (st_ctim st)\<rparr>))"

text \<open>\<open>std::string::resize\<close>, and the loop of \<open>readToString\<close> on the results of \<open>read\<close>.\<close>

definition resize :: "nat \<Rightarrow> string \<Rightarrow> string" where
  "resize n s = take n s @ replicate (n - length s) (CHR 0x00)"

fun read_loop :: "nat \<Rightarrow> (int + string) list \<Rightarrow> nat \<Rightarrow> string \<Rightarrow> int \<Rightarrow> (int \<times> string) option" where
  "read_loop contentSize rs readStart content err =
     (if readStart < contentSize
      then case rs of
             [] \<Rightarrow> None
           | Inl e # rest \<Rightarrow> Some (e, content)
           | Inr bytes # rest \<Rightarrow>
               if bytes \<noteq> []
               then read_loop contentSize rest (readStart + length bytes)
                      (take readStart content @ bytes @ drop (readStart + length bytes) content) err
               else Some (err, content)
      else Some (err, content))"

declare read_loop.simps [simp del]

definition readToString :: "nat \<Rightarrow> (int + string) list \<Rightarrow> string \<Rightarrow> ReadSmallFile \<Rightarrow> (int \<times> string) option" where
  "readToString maxContentSize rs content f =
     (if 0 \<le> file_fd f
      then let contentSize = min maxContentSize (file_size f)
           in read_loop contentSize rs 0 (resize contentSize content) (file_err f)
      else Some (file_err f, content))"

text \<open>\<open>readFile\<close>, with the content the caller's string had before.\<close>

definition readFile ::
  "int + int \<Rightarrow> int + file_stat \<Rightarrow> int \<Rightarrow> (int + string) list \<Rightarrow> nat \<Rightarrow> string \<Rightarrow>
    (int \<times> string \<times> nat \<times> TimeStamp \<times> TimeStamp) option" where
  "readFile opened statted errno rs maxContentSize content =
     (let f = ReadSmallFile_new opened statted errno
      in map_option (\<lambda>(err, c). (err, c, file_size f, file_mtime f, file_ctime f))
           (readToString maxContentSize rs content f))"

definition k128KB :: nat where "k128KB = 1024 * 128"

subsection \<open>The HTTP example\<close>

definition index_path :: "string \<Rightarrow> string" where
  "index_path path = (if last path = CHR ''/'' then path @ ''index.html'' else path)"

text \<open>\<open>onRequest\<close>; \<open>back()\<close> of an empty string is undefined.\<close>

definition site_onRequest :: "(string \<rightharpoonup> string) \<Rightarrow> HttpRequest \<Rightarrow> HttpResponse \<Rightarrow> HttpResponse result" where
  "site_onRequest files request resp =
     check OutOfBounds (req_path request \<noteq> [])
       (let path = index_path (req_path request);
            resp1 = HttpResponse_addHeader ''Server'' ''Libfm'' (resp\<lparr>resp_version := req_version request\<rparr>)
        in Inr (if req_method request = kGet \<and> path \<in> dom files
                then resp1\<lparr>statusCode := k200OK, statusMessage := ''OK'', resp_body := the (files path)\<rparr>
                else resp1\<lparr>statusCode := k404NotFound, statusMessage := ''Not Found'', closeConnection := True\<rparr>))"

text \<open>The table of files: \<open>read_in\<close> gives the content \<open>readFile\<close> leaves for a file name.\<close>

definition site_paths :: "string list" where
  "site_paths = [''/index.html'', ''/xxx.jpg'', ''/favicon.ico'']"

definition site_files :: "string \<Rightarrow> (string \<Rightarrow> string) \<Rightarrow> (string \<rightharpoonup> string)" where
  "site_files root read_in = map_of (map (\<lambda>p. (p, read_in (root @ p))) site_paths)"

text \<open>The server of \<open>main\<close>: its callback and no worker threads. Where the callback is undefined its result is
  taken to be the response as it was; the theorems exclude that case.\<close>

definition site_server :: "(string \<rightharpoonup> string) \<Rightarrow> ((string \<rightharpoonup> string) \<Rightarrow> string list) \<Rightarrow> HttpServer result" where
  "site_server files order =
     result_bind
       (HttpServer_setThreadNum 0
         (setHttpCallback (\<lambda>request resp. case site_onRequest files request resp of Inl e \<Rightarrow> resp | Inr r \<Rightarrow> r)
           (HttpServer_new 10240 order)))
       HttpServer_start"

subsection \<open>Reading files\<close>

lemma read_loop_chunks:
  assumes "n = start + length (concat cs)" and "[] \<notin> set cs" and "length content = n"
  shows "read_loop n (map Inr cs @ rs) start content err = Some (err, take start content @ concat cs)"
  using assms
proof (induction cs arbitrary: start content)
  case Nil
  then show ?case by (simp add: read_loop.simps)
next
  case (Cons c cs)
  let ?content = "take start content @ c @ drop (start + length c) content"
  have len: "length ?content = n" "take (start + length c) ?content = take start content @ c" using Cons.prems by auto
  have "read_loop n (map Inr cs @ rs) (start + length c) ?content err = Some (err, take start content @ c @ concat cs)"
    using Cons.IH [of "start + length c" ?content] Cons.prems len by simp
  moreover have "start < n" "c \<noteq> []" using Cons.prems by auto
  ultimately show ?case by (simp add: read_loop.simps [of n "Inr c # map Inr cs @ rs"])
qed

lemma read_loop_short:
  assumes "start + length (concat cs) < n" and "[] \<notin> set cs" and "length content = n"
  shows "read_loop n (map Inr cs @ Inr [] # rs) start content err =
     Some (err, take start content @ concat cs @ drop (start + length (concat cs)) content)"
  using assms
proof (induction cs arbitrary: start content)
  case Nil
  then show ?case by (simp add: read_loop.simps [of n "Inr [] # rs"])
next
  case (Cons c cs)
  let ?content = "take start content @ c @ drop (start + length c) content"
  have len: "length ?content = n" "take (start + length c) ?content = take start content @ c"
    "drop (start + length c + k) ?content = drop (start + length c + k) content" for k using Cons.prems by (auto simp: ac_simps)
  have "read_loop n (map Inr cs @ Inr [] # rs) (start + length c) ?content err =
      Some (err, take start content @ c @ concat cs @ drop (start + length c + length (concat cs)) content)"
    using Cons.IH [of "start + length c" ?content] Cons.prems len by (simp add: add.assoc)
  moreover have "start < n" "c \<noteq> []" using Cons.prems by auto
  ultimately show ?case by (simp add: read_loop.simps [of n "Inr c # map Inr cs @ Inr [] # rs"] add.assoc)
qed

lemma length_resize: "length (resize n s) = n"
  by (simp add: resize_def)

subsection \<open>The site\<close>

lemma site_server_eq:
  "site_server files order =
     Inr \<lparr>http_pool = (ThreadPool_new ''ThreadPool'' 10240)\<lparr>pool_running := True\<rparr>,
          httpCallback = (\<lambda>request resp. case site_onRequest files request resp of Inl e \<Rightarrow> resp | Inr r \<Rightarrow> r),
          header_order = order\<rparr>"
  by (simp add: site_server_def HttpServer_setThreadNum_def ThreadPool_setThreadNum_def HttpServer_start_def
      setHttpCallback_def HttpServer_new_def ThreadPool_new_def ThreadPool_start_def)

lemma site_server_ok:
  assumes "site_server files order = Inr srv"
  shows "pool_threads (http_pool srv) = []" "header_order srv = order"
    "req_path request \<noteq> [] \<Longrightarrow> Inr (httpCallback srv request resp) = site_onRequest files request resp"
proof -
  note srv = assms [unfolded site_server_eq, symmetric]
  show "pool_threads (http_pool srv) = []" "header_order srv = order" using srv by (simp_all add: ThreadPool_new_def)
  assume "req_path request \<noteq> []"
  then have "\<exists>x. site_onRequest files request resp = Inr x" by (simp add: site_onRequest_def Let_def)
  then show "Inr (httpCallback srv request resp) = site_onRequest files request resp" using srv by auto
qed

text \<open>The bytes of the two answers of the site, on a connection that is kept and on one that is closed.\<close>

definition found_text :: "string \<Rightarrow> string" where
  "found_text body =
     ''HTTP/1.1 200 OK'' @ kCRLF @ ''Content-Length: '' @ show_nat (length body) @ kCRLF @
     ''Connection: keep-alive'' @ kCRLF @ ''Server: Libfm'' @ kCRLF @ kCRLF @ body"

definition not_found_text :: string where
  "not_found_text =
     ''HTTP/1.1 404 Not Found'' @ kCRLF @ ''Connection: close'' @ kCRLF @ ''Server: Libfm'' @ kCRLF @ kCRLF"

definition site_answer :: "(string \<rightharpoonup> string) \<Rightarrow> Method \<Rightarrow> string \<Rightarrow> string" where
  "site_answer files mt path =
     (case (if mt = kGet then files (index_path path) else None) of
        None \<Rightarrow> not_found_text | Some body \<Rightarrow> found_text body)"

lemma show_status: "show_nat 200 = ''200''" "show_nat 404 = ''404''"
  by code_simp+

text \<open>The response of the site to a request by HTTP/1.1 that does not ask to close the connection.\<close>

lemma site_response:
  assumes "req_path request \<noteq> []" and "req_version request = kHttp11" and "\<not> wants_close request"
    and "Inr resp = site_onRequest files request (HttpResponse_new (wants_close request))"
    and "order (Map.empty(''Server'' \<mapsto> ''Libfm'')) = [''Server'']"
  shows "resp_version resp = kHttp11"
    and "response_text (order (resp_headers resp)) resp = site_answer files (req_method request) (req_path request)"
    and "closeConnection resp \<longleftrightarrow> (if req_method request = kGet then files (index_path (req_path request)) else None) = None"
    and "resp_body resp = (case (if req_method request = kGet then files (index_path (req_path request)) else None) of
           None \<Rightarrow> [] | Some b \<Rightarrow> b)"
  using assms
  by (auto simp: site_onRequest_def Let_def HttpResponse_new_def HttpResponse_addHeader_def response_text_def site_answer_def
      found_text_def not_found_text_def show_status split: if_splits option.split)

lemma site_answers:
  assumes "conn_inv w" and "conn_state w = kConnected" and "site_server files order = Inr srv"
    and "Buffer_wf (input_buffer w)" and "Buffer_contents (input_buffer w) = request_text mt path query kHttp11 hs @ rest"
    and "mt \<noteq> kInvalidMethod" and "path \<noteq> []" and "good_target path query" and "\<forall>h\<in>set hs. good_header h"
    and "map_of (rev hs) ''Connection'' \<noteq> Some ''close''"
    and "order (Map.empty(''Server'' \<mapsto> ''Libfm'')) = [''Server'']" and "\<forall>p b. files p = Some b \<longrightarrow> length b < 10 ^ 13"
    and "t = site_answer files mt path" and "Buffer_used (output_buffer w) + length t \<le> vector_max"
    and "kCheapPrepend + length t \<le> vector_max" and "write_spec (length t) wr" and "\<not> dropped wr w"
  shows "\<exists>w' ctx'. HttpServer_onMessage r wr now (srv, w, HttpContext_new) = Some (Inr (srv, w', ctx')) \<and>
     stream w' = stream w @ t \<and> Buffer_contents (input_buffer w') = rest \<and>
     conn_state w' = (if (if mt = kGet then files (index_path path) else None) = None then kDisconnecting else kConnected) \<and>
     conn_inv w' \<and> parse_state ctx' = kParseRequestLine"
proof -
  note srv = site_server_ok [OF assms(3)]
  define request where "request = \<lparr>req_method = mt, req_version = kHttp11, req_path = path, req_query = query,
    receivedTime = now, req_headers = map_of (rev hs)\<rparr>"
  have req: "req_path request \<noteq> []" "req_version request = kHttp11" "req_method request = mt" "req_path request = path"
    "\<not> wants_close request"
    using assms(7,10) by (auto simp: request_def wants_close_def getHeader_def split: option.split)
  let ?resp = "http_response srv request"
  have "Inr ?resp = site_onRequest files request (HttpResponse_new (wants_close request))"
    unfolding http_response_def by (rule srv(3) [OF req(1)])
  note resp = site_response [OF req(1,2,5) this, of order, OF assms(11)]
  show ?thesis
    using request_answered [OF assms(1,2) srv(1) assms(4-6) _ assms(8,9) request_def refl refl, of wr r] resp srv(2) req assms(12-17)
    by (auto split: option.splits)
qed

subsection \<open>Properties\<close>



text \<open>Reading a file. However \<open>read\<close> cuts a regular file into pieces, \<open>readFile\<close> returns 0 and leaves exactly the
  first \<open>maxContentSize\<close> bytes of the file in the string, with its size; it makes no \<open>read\<close> after the last byte.\<close>

theorem readFile_whole:
  assumes "0 \<le> fd" and "st_mode st = RegularFile" and "st_size st = length d" and "concat cs = take maxContentSize d"
    and "[] \<notin> set cs"
  shows "readFile (Inr fd) (Inr st) errno (map Inr cs @ rs) maxContentSize content =
     Some (0, take maxContentSize d, length d, from_timespec (st_mtim st), from_timespec (st_ctim st))"
proof -
  let ?n = "min maxContentSize (length d)"
  have "?n = 0 + length (concat cs)" using assms(4) by (simp add: min.commute)
  from read_loop_chunks [OF this assms(5) length_resize]
  have "read_loop ?n (map Inr cs @ rs) 0 (resize ?n content) 0 = Some (0, take maxContentSize d)"
    using assms(4) by simp
  then show ?thesis
    using assms(1-3) by (simp add: readFile_def readToString_def ReadSmallFile_new_def Let_def)
qed

theorem readFile_whole_witness:
  "readFile (Inr 3) (Inr \<lparr>st_mode = RegularFile, st_size = 5, st_mtim = to_timespec 7, st_ctim = to_timespec 8\<rparr>) 0
     [Inr ''he'', Inr ''l''] 3 ''old'' = Some (0, ''hel'', 5, 7, 8)"
proof -
  have "from_timespec (to_timespec 7) = 7" "from_timespec (to_timespec 8) = 8" by code_simp+
  with readFile_whole [of 3 "\<lparr>st_mode = RegularFile, st_size = 5, st_mtim = to_timespec 7, st_ctim = to_timespec 8\<rparr>"
      "''hello''" "[''he'', ''l'']" 3 0 "[]" "''old''"]
  show ?thesis by simp
qed

text \<open>A file that is shorter than \<open>fstat\<close> said is padded with zero bytes and still reported as read.\<close>

lemma readFile_short:
  assumes "0 \<le> fd" and "st_mode st = RegularFile" and "length (concat cs) < min maxContentSize (st_size st)" and "[] \<notin> set cs"
  shows "readFile (Inr fd) (Inr st) errno (map Inr cs @ Inr [] # rs) maxContentSize [] =
     Some (0, concat cs @ replicate (min maxContentSize (st_size st) - length (concat cs)) (CHR 0x00), st_size st,
       from_timespec (st_mtim st), from_timespec (st_ctim st))"
  using assms read_loop_short [of 0 cs "min maxContentSize (st_size st)" "resize (min maxContentSize (st_size st)) []"]
  by (simp add: readFile_def readToString_def ReadSmallFile_new_def Let_def length_resize)
     (simp add: resize_def)

text \<open>A directory is read as an empty file without error, whatever \<open>errno\<close> happens to hold being reported.\<close>

lemma readFile_directory:
  "0 \<le> fd \<Longrightarrow> st_mode st = Directory \<Longrightarrow>
     readFile (Inr fd) (Inr st) 0 rs maxContentSize content =
       Some (0, [], 0, from_timespec (st_mtim st), from_timespec (st_ctim st))"
  by (simp add: readFile_def readToString_def ReadSmallFile_new_def Let_def read_loop.simps resize_def)


definition site_demo_files :: "string \<rightharpoonup> string" where
  "site_demo_files = site_files ''root'' (\<lambda>name. if name = ''root/index.html'' then ''hi'' else [])"

definition demo_get :: Buffer where
  "demo_get =
     \<lparr>buffer_data = replicate 8 (CHR 0x00) @ request_text kGet ''/'' [] kHttp11 [] @ ''zz'',
      read_index = 8, write_index = 8 + length (request_text kGet ''/'' [] kHttp11 [] @ ''zz'')\<rparr>"

lemma demo_get_facts:
  "Buffer_wf demo_get" "Buffer_contents demo_get = request_text kGet ''/'' [] kHttp11 [] @ ''zz''" "good_target ''/'' []"
  by (simp_all add: Buffer_wf_def demo_get_def Buffer_contents_def kCheapPrepend_def vector_max_def
      request_text_def request_line_def headers_text_def kCRLF_def good_target_def CR_def)

lemma site_demo_files_facts:
  "site_demo_files (index_path ''/'') = Some ''hi''" "\<forall>p b. site_demo_files p = Some b \<longrightarrow> length b < 10 ^ 13"
  by (auto simp: site_demo_files_def site_files_def site_paths_def index_path_def split: if_splits)


text \<open>A request whose target is only a query reaches the callback with an empty path, whose last character
  does not exist.\<close>

lemma empty_path_undefined: "req_path request = [] \<Longrightarrow> site_onRequest files request resp = Inl OutOfBounds"
  by (simp add: site_onRequest_def)

end
