(* ===== verification/EchoSession.thy ===== *)
theory EchoSession
  imports Examples "HOL-Library.Sublist"
begin

text \<open>
  The two echo programs talking to each other: a connection of examples/EchoServer.cpp and one of examples/EchoClient.cpp,
  each in its own loop, joined by a network that delivers bytes in order.

  \<^item> What one side has written (\<open>sock_out\<close>) reaches the other in pieces of any size; \<open>at_server\<close> and \<open>at_client\<close> count the
    bytes delivered so far.
  \<^item> \<open>timers\<close> are the messages captured by the client's timers. All of them are set with the same interval, so the one
    set first fires first.
  \<^item> Runs are those in which neither side closes the connection. Input comes in pieces that fit the input buffer
    (see \<open>readFd_loses_extra\<close>).
\<close>

subsection \<open>Sessions\<close>

record session =
  server_end :: TcpConnection
  client_end :: TcpConnection
  at_server :: nat
  at_client :: nat
  timers :: "string list"

datatype session_event =
    ServerReads nat TimeStamp write_result | ServerWrites write_result
  | ClientReads nat TimeStamp | ClientWrites write_result | TimerFires write_result

definition to_server :: "session \<Rightarrow> string" where
  "to_server s = drop (at_server s) (sock_out (client_end s))"

definition to_client :: "session \<Rightarrow> string" where
  "to_client s = drop (at_client s) (sock_out (server_end s))"

definition client_reads :: "string \<Rightarrow> TimeStamp \<Rightarrow> TcpConnection \<Rightarrow> (string \<times> TcpConnection) result" where
  "client_reads bytes t w = result_bind (TcpConnection_handleRead (Inr bytes) t w) EchoClient_onMessage"

fun session_step :: "addr \<Rightarrow> session_event \<Rightarrow> session \<Rightarrow> session result" where
  "session_step r (ServerReads n t wr) s =
     (let bytes = take n (to_server s)
      in result_bind (echo_step r (EchoReadable (Inr bytes) t wr) (server_end s)) (\<lambda>w.
           Inr (s\<lparr>server_end := w, at_server := at_server s + length bytes\<rparr>)))"
| "session_step r (ServerWrites wr) s =
     result_bind (echo_step r (EchoWritable wr) (server_end s)) (\<lambda>w. Inr (s\<lparr>server_end := w\<rparr>))"
| "session_step r (ClientReads n t) s =
     (let bytes = take n (to_client s)
      in result_bind (client_reads bytes t (client_end s)) (\<lambda>(msg, w).
           Inr (s\<lparr>client_end := w, at_client := at_client s + length bytes, timers := timers s @ [msg]\<rparr>)))"
| "session_step r (ClientWrites wr) s =
     result_bind (handleWrite wr (client_end s)) (\<lambda>w. Inr (s\<lparr>client_end := w\<rparr>))"
| "session_step r (TimerFires wr) s =
     result_bind (EchoClient_onTimer r (hd (timers s)) wr (client_end s)) (\<lambda>w.
       Inr (s\<lparr>client_end := w, timers := tl (timers s)\<rparr>))"

text \<open>The peer is there: a \<open>write\<close> is not refused for good.\<close>

definition peer_up :: "write_result \<Rightarrow> bool" where
  "peer_up wr \<longleftrightarrow> wr \<noteq> WriteError EPIPE \<and> wr \<noteq> WriteError ECONNRESET"

fun session_event_ok :: "session_event \<Rightarrow> session \<Rightarrow> bool" where
  "session_event_ok (ServerReads n t wr) s \<longleftrightarrow>
     (let bytes = take n (to_server s)
      in bytes \<noteq> [] \<and> length bytes \<le> writableBytes (input_buffer (server_end s)) \<and> send_room bytes wr (server_end s) \<and> peer_up wr)"
| "session_event_ok (ServerWrites wr) s \<longleftrightarrow> write_spec (length (Buffer_contents (output_buffer (server_end s)))) wr"
| "session_event_ok (ClientReads n t) s \<longleftrightarrow>
     (let bytes = take n (to_client s) in bytes \<noteq> [] \<and> length bytes \<le> writableBytes (input_buffer (client_end s)))"
| "session_event_ok (ClientWrites wr) s \<longleftrightarrow> write_spec (length (Buffer_contents (output_buffer (client_end s)))) wr"
| "session_event_ok (TimerFires wr) s \<longleftrightarrow> timers s \<noteq> [] \<and> send_room (hd (timers s)) wr (client_end s) \<and> peer_up wr"

text \<open>The bytes under way, from the next one the client will read to the last one waiting in a timer.\<close>

definition in_flight :: "session \<Rightarrow> string" where
  "in_flight s = to_client s @ Buffer_contents (output_buffer (server_end s)) @
     to_server s @ Buffer_contents (output_buffer (client_end s)) @ concat (timers s)"

subsection \<open>A connection that is up\<close>

text \<open>The input buffer is empty as it was when it was constructed; an empty output buffer has its whole vector free.\<close>

definition ready :: "Buffer \<Rightarrow> bool" where
  "ready b \<longleftrightarrow> Buffer_wf b \<and> Buffer_contents b = [] \<and> read_index b = kCheapPrepend \<and> 0 < writableBytes b"

definition up :: "TcpConnection \<Rightarrow> bool" where
  "up w \<longleftrightarrow> conn_inv w \<and> conn_state w = kConnected \<and>
     (Buffer_contents (output_buffer w) = [] \<longrightarrow> Buffer_used (output_buffer w) = kCheapPrepend)"

definition steady :: "TcpConnection \<Rightarrow> bool" where "steady w \<longleftrightarrow> up w \<and> ready (input_buffer w)"

lemma upD:
  assumes "up w"
  shows "conn_inv w" "conn_state w = kConnected" "EP_inv w" "live w"
    "Buffer_contents (output_buffer w) = [] \<Longrightarrow> Buffer_used (output_buffer w) = kCheapPrepend"
  using assms by (auto simp: up_def conn_inv_def live_def)

lemma up_frame [simp]: "up (w\<lparr>input_buffer := b\<rparr>) = up w" "up (w\<lparr>calls := c\<rparr>) = up w"
  by (simp_all add: up_def conn_inv_def live_def)

lemma stream_frame [simp]: "stream (w\<lparr>input_buffer := b\<rparr>) = stream w" "stream (w\<lparr>calls := c\<rparr>) = stream w"
  by (simp_all add: stream_def)

lemma written_frame [simp]:
  "written msg wr (w\<lparr>input_buffer := b\<rparr>) = written msg wr w" "written msg wr (w\<lparr>calls := c\<rparr>) = written msg wr w"
  by (simp_all add: written_def split: write_result.split)

lemma used_retrieveAll [simp]: "Buffer_used (retrieveAll b) = kCheapPrepend"
  by (simp add: retrieveAll_def Buffer_used_def)

lemma ready_write_index: "ready b \<Longrightarrow> write_index b = kCheapPrepend"
  using length_Buffer_contents [of b] readableBytes_wf [of b] by (auto simp: ready_def Buffer_wf_def)

text \<open>Reading into a buffer and taking everything out again leaves it ready.\<close>

lemma ready_again:
  assumes "ready b" and "Buffer_wf b'" and "length (buffer_data b') = length (buffer_data b)"
  shows "ready (retrieveAll b')"
proof -
  have "Buffer_wf (retrieveAll b')" "Buffer_contents (retrieveAll b') = []" using retrieveAll_ok [OF assms(2)] by blast+
  moreover have "writableBytes (retrieveAll b') = writableBytes b"
    using ready_write_index [OF assms(1)] assms(3) by (simp add: writableBytes_def retrieveAll_def)
  ultimately show ?thesis using assms(1) by (simp add: ready_def) (simp add: retrieveAll_def)
qed

lemma readFd_length: "readFd b (Inr bytes) = Inr (b', r) \<Longrightarrow> length bytes \<le> writableBytes b \<Longrightarrow> length (buffer_data b') = length (buffer_data b)"
  by (auto simp: readFd_def Let_def result_eqs mem_write_def)

lemma up_send:
  assumes "up w" and "send_room msg wr w" and "peer_up wr"
  shows "\<exists>w'. sendInLoop msg wr w = Inr w' \<and> up w' \<and> input_buffer w' = input_buffer w \<and> stream w' = stream w @ msg \<and>
     sock_out w' = sock_out w @ written msg wr w"
proof -
  note w = upD [OF assms(1)]
  have nd: "\<not> dropped wr w" using assms(3) by (auto simp: dropped_def peer_up_def)
  from sendInLoop_ok [OF w(1,2), of msg wr] assms(2) nd obtain w' where
    w': "sendInLoop msg wr w = Inr w'" "conn_inv w'" "conn_state w' = kConnected" "stream w' = stream w @ msg"
      "input_buffer w' = input_buffer w" "sock_out w' = sock_out w @ written msg wr w"
      "output_buffer w' = output_buffer w \<or> Buffer_contents (output_buffer w') \<noteq> []"
    by (auto simp: send_room_def)
  with w(5) have "up w'" by (auto simp: up_def)
  with w' show ?thesis by blast
qed

lemma up_write:
  assumes "up w" and "write_spec (length (Buffer_contents (output_buffer w))) wr"
  shows "\<exists>w'. handleWrite wr w = Inr w' \<and> up w' \<and> input_buffer w' = input_buffer w \<and> stream w' = stream w \<and>
     prefix (sock_out w) (sock_out w')"
proof (cases "Buffer_contents (output_buffer w) = [] \<or> wr = Wrote 0 \<or> (\<exists>e. wr = WriteError e)")
  case True
  with handleWrite_idle [OF upD(1) [OF assms(1)], of wr] assms(1) show ?thesis by auto
next
  case False
  note w = upD [OF assms(1)]
  from False obtain n where n: "wr = Wrote n" "0 < n" by (cases wr) auto
  with assms(2) have le: "n \<le> length (Buffer_contents (output_buffer w))" by (simp add: write_spec_def)
  from handleWrite_ok [OF w(1,4) _ n(2) le] False obtain w' where
    w': "handleWrite (Wrote n) w = Inr w'" "conn_inv w'" "conn_state w' = conn_state w" "input_buffer w' = input_buffer w"
      "sock_out w' = sock_out w @ take n (Buffer_contents (output_buffer w))"
      "Buffer_contents (output_buffer w') = drop n (Buffer_contents (output_buffer w))"
      "n = length (Buffer_contents (output_buffer w)) \<longrightarrow> output_buffer w' = retrieveAll (output_buffer w)" by blast
  have "up w'" using w w' le by (auto simp: up_def)
  moreover have "stream w' = stream w" using w'(5,6) by (simp add: stream_def)
  ultimately show ?thesis using w'(1,4,5) n(1) by (intro exI [of _ w']) simp
qed

text \<open>What \<open>handleRead\<close> leaves to the message callback: the same connection with the bytes in its input buffer.\<close>

lemma steady_read:
  assumes "steady w" and "bytes \<noteq> []" and "length bytes \<le> writableBytes (input_buffer w)"
  obtains ib where "TcpConnection_handleRead (Inr bytes) t w = Inr (w\<lparr>input_buffer := ib, calls := calls w @ [MessageCall t]\<rparr>)"
    "Buffer_wf ib" "Buffer_contents ib = bytes" "ready (retrieveAll ib)"
proof -
  have w: "up w" "ready (input_buffer w)" "Buffer_wf (input_buffer w)" "Buffer_contents (input_buffer w) = []"
    using assms(1) by (simp_all add: steady_def ready_def)
  note u = upD [OF w(1)]
  from readFd_fits [OF w(3) assms(3)] obtain ib where ib: "readFd (input_buffer w) (Inr bytes) = Inr (ib, Inr (length bytes))"
    "Buffer_wf ib" "Buffer_contents ib = Buffer_contents (input_buffer w) @ bytes" by blast
  then have "TcpConnection_handleRead (Inr bytes) t w = Inr (w\<lparr>input_buffer := ib, calls := calls w @ [MessageCall t]\<rparr>)"
    using assms(2) conn_invD(7) [OF u(1)] by (simp add: TcpConnection_handleRead_def call_user_def in_loop [OF u(3)])
  from ready_again [OF w(2) ib(2) readFd_length [OF ib(1) assms(3)]] this ib(2,3) w(4) that show ?thesis by simp
qed

lemma server_reads:
  assumes "steady w" and "bytes \<noteq> []" and "length bytes \<le> writableBytes (input_buffer w)"
    and "send_room bytes wr w" and "peer_up wr"
  shows "\<exists>w'. echo_step r (EchoReadable (Inr bytes) t wr) w = Inr w' \<and> steady w' \<and> stream w' = stream w @ bytes \<and>
     sock_out w' = sock_out w @ written bytes wr w"
proof -
  obtain ib where ib: "TcpConnection_handleRead (Inr bytes) t w = Inr (w\<lparr>input_buffer := ib, calls := calls w @ [MessageCall t]\<rparr>)"
    "Buffer_wf ib" "Buffer_contents ib = bytes" "ready (retrieveAll ib)" by (rule steady_read [OF assms(1-3)])
  let ?w = "w\<lparr>input_buffer := ib, calls := calls w @ [MessageCall t]\<rparr>"
  have v: "up ?w" "send_room bytes wr ?w" using assms(1,4) by (simp_all add: steady_def send_room_def)
  from up_send [OF v assms(5)] obtain w' where w': "sendInLoop bytes wr ?w = Inr w'" "up w'" "stream w' = stream w @ bytes"
    "sock_out w' = sock_out w @ written bytes wr w" by auto
  have "echo_step r (EchoReadable (Inr bytes) t wr) w = Inr (w'\<lparr>input_buffer := retrieveAll ib\<rparr>)"
    using assms(2) ib(1,3) w'(1) Buffer_toString_ok [OF ib(2)] isInLoopThread_inv [OF upD(3) [OF v(1)]] upD(2) [OF v(1)]
    by (simp add: EchoServer_onMessage_def send_buffer_def)
  with w' ib(4) show ?thesis by (simp add: steady_def)
qed

lemma client_reads_ok:
  assumes "steady w" and "bytes \<noteq> []" and "length bytes \<le> writableBytes (input_buffer w)"
  shows "\<exists>w'. client_reads bytes t w = Inr (bytes, w') \<and> steady w' \<and> stream w' = stream w \<and> sock_out w' = sock_out w"
proof -
  obtain ib where ib: "TcpConnection_handleRead (Inr bytes) t w = Inr (w\<lparr>input_buffer := ib, calls := calls w @ [MessageCall t]\<rparr>)"
    "Buffer_wf ib" "Buffer_contents ib = bytes" "ready (retrieveAll ib)" by (rule steady_read [OF assms])
  have "retrieveAllAsString ib = Inr (bytes, retrieveAll ib)"
    using ib(2,3) length_Buffer_contents [OF ib(2)] Buffer_range_contents [OF ib(2), of "readableBytes ib"]
    by (simp add: retrieveAllAsString_def retrieveAsString_def retrieve_def)
  then have "client_reads bytes t w = Inr (bytes, w\<lparr>input_buffer := retrieveAll ib, calls := calls w @ [MessageCall t]\<rparr>)"
    using ib(1) by (simp add: client_reads_def EchoClient_onMessage_def)
  with assms(1) ib(4) show ?thesis by (simp add: steady_def)
qed

lemma timer_fires:
  assumes "steady w" and "send_room msg wr w" and "peer_up wr"
  shows "\<exists>w'. EchoClient_onTimer r msg wr w = Inr w' \<and> steady w' \<and> stream w' = stream w @ msg \<and>
     sock_out w' = sock_out w @ written msg wr w"
proof -
  have "up w" using assms(1) by (simp add: steady_def)
  with up_send [OF this assms(2,3)] assms(1) isInLoopThread_inv [OF upD(3)] upD(2) show ?thesis
    by (auto simp: EchoClient_onTimer_def TcpConnection_send_def steady_def)
qed

subsection \<open>The message goes round\<close>

text \<open>The server has sent on all it read; what the client sent and holds in timers is the message and all it read.\<close>

definition session_inv :: "string \<Rightarrow> session \<Rightarrow> bool" where
  "session_inv M s \<longleftrightarrow> steady (server_end s) \<and> steady (client_end s) \<and>
     at_server s \<le> length (sock_out (client_end s)) \<and> at_client s \<le> length (sock_out (server_end s)) \<and>
     stream (server_end s) = take (at_server s) (sock_out (client_end s)) \<and> [] \<notin> set (timers s) \<and>
     stream (client_end s) @ concat (timers s) = M @ take (at_client s) (sock_out (server_end s))"

lemma take_prefix: "prefix xs ys \<Longrightarrow> n \<le> length xs \<Longrightarrow> take n ys = take n xs"
  by (auto simp: prefix_def)

lemma take_more: "take (n + length (take k (drop n xs))) xs = take n xs @ take k (drop n xs)"
  by (simp add: take_add min_def)

lemma session_step_ok:
  assumes inv: "session_inv M s" and ok: "session_event_ok ev s"
  shows "\<exists>s'. session_step r ev s = Inr s' \<and> session_inv M s'"
proof -
  let ?sv = "server_end s" and ?cl = "client_end s"
  have st: "steady ?sv" "steady ?cl" "up ?sv" "up ?cl" "ready (input_buffer ?sv)" "ready (input_buffer ?cl)"
    using inv by (simp_all add: session_inv_def steady_def)
  have le: "at_server s \<le> length (sock_out ?cl)" "at_client s \<le> length (sock_out ?sv)"
    "stream ?sv = take (at_server s) (sock_out ?cl)" "stream ?cl @ concat (timers s) = M @ take (at_client s) (sock_out ?sv)"
    "[] \<notin> set (timers s)"
    using inv by (simp_all add: session_inv_def)
  show ?thesis
  proof (cases ev)
    case (ServerReads n t wr)
    let ?b = "take n (to_server s)"
    from ServerReads ok server_reads [OF st(1), of ?b wr r t] obtain w' where
      w': "echo_step r (EchoReadable (Inr ?b) t wr) ?sv = Inr w'" "steady w'" "stream w' = stream ?sv @ ?b"
        "prefix (sock_out ?sv) (sock_out w')" by (auto simp: Let_def prefix_def)
    have "at_server s + length ?b \<le> length (sock_out ?cl)" using le(1) by (simp add: to_server_def)
    then show ?thesis
      using ServerReads w' st le take_prefix [OF w'(4) le(2)] prefix_length_le [OF w'(4)]
      by (simp add: session_inv_def Let_def del: length_take) (simp add: to_server_def take_more del: length_take)
  next
    case (ServerWrites wr)
    with ok up_write [OF st(3), of wr] obtain w' where
      w': "handleWrite wr ?sv = Inr w'" "up w'" "input_buffer w' = input_buffer ?sv" "stream w' = stream ?sv"
        "prefix (sock_out ?sv) (sock_out w')" by auto
    then show ?thesis
      using ServerWrites st le take_prefix [OF w'(5) le(2)] prefix_length_le [OF w'(5)]
      by (simp add: session_inv_def steady_def)
  next
    case (ClientReads n t)
    let ?b = "take n (to_client s)"
    from ClientReads ok client_reads_ok [OF st(2), of ?b t] obtain w' where
      w': "client_reads ?b t ?cl = Inr (?b, w')" "steady w'" "stream w' = stream ?cl" "sock_out w' = sock_out ?cl"
      by (auto simp: Let_def)
    have "at_client s + length ?b \<le> length (sock_out ?sv)" using le(2) by (simp add: to_client_def)
    moreover have "?b \<noteq> []" using ok ClientReads by (simp add: Let_def)
    ultimately show ?thesis
      using ClientReads w' st le
      by (simp add: session_inv_def Let_def del: length_take take_eq_Nil take_eq_Nil2)
         (simp add: to_client_def take_more flip: append_assoc del: length_take)
  next
    case (ClientWrites wr)
    with ok up_write [OF st(4), of wr] obtain w' where
      w': "handleWrite wr ?cl = Inr w'" "up w'" "input_buffer w' = input_buffer ?cl" "stream w' = stream ?cl"
        "prefix (sock_out ?cl) (sock_out w')" by auto
    then show ?thesis
      using ClientWrites st le take_prefix [OF w'(5) le(1)] prefix_length_le [OF w'(5)]
      by (simp add: session_inv_def steady_def)
  next
    case (TimerFires wr)
    with ok timer_fires [OF st(2), of "hd (timers s)" wr r] obtain w' where
      w': "EchoClient_onTimer r (hd (timers s)) wr ?cl = Inr w'" "steady w'" "stream w' = stream ?cl @ hd (timers s)"
        "prefix (sock_out ?cl) (sock_out w')" by (auto simp: prefix_def)
    moreover obtain m ms where "timers s = m # ms" using ok TimerFires by (cases "timers s") simp_all
    ultimately show ?thesis
      using TimerFires st le take_prefix [OF w'(4) le(1)] prefix_length_le [OF w'(4)]
      by (simp add: session_inv_def)
  qed
qed

interpretation session: safe_machine "session_step r" session_event_ok "session_inv M" for r M
  by unfold_locales (rule session_step_ok)

text \<open>A text that is a word followed by a beginning of itself is periodic.\<close>

lemma periodic_nth:
  assumes "C = M @ take n C" and "i < length C" and "M \<noteq> []"
  shows "C ! i = M ! (i mod length M)"
  using assms(2)
proof (induction i rule: less_induct)
  case (less i)
  show ?case
  proof (cases "i < length M")
    case True
    then show ?thesis by (subst assms(1)) (simp add: nth_append)
  next
    case False
    have len: "length C = length M + min n (length C)" using arg_cong [OF assms(1), of length] by simp
    have "C ! i = take n C ! (i - length M)" using False by (subst assms(1)) (simp add: nth_append)
    also have "\<dots> = C ! (i - length M)" using False less.prems len by simp
    also have "0 < length M" using assms(3) by simp
    then have "C ! (i - length M) = M ! ((i - length M) mod length M)"
      using False less.prems by (intro less.IH) linarith+
    finally show ?thesis using False by (simp add: le_mod_geq)
  qed
qed

lemma periodic_rotate:
  assumes "C = M @ take n C" and "n \<le> length C"
  shows "drop n C = rotate n M"
proof (rule nth_equalityI)
  have len: "length C = length M + n" using arg_cong [OF assms(1), of length] assms(2) by simp
  then show "length (drop n C) = length (rotate n M)" by simp
  fix i assume "i < length (drop n C)"
  with len have i: "i < length M" "n + i < length C" "M \<noteq> []" by auto
  with periodic_nth [OF assms(1) i(2,3)] show "drop n C ! i = rotate n M ! i"
    by (simp add: nth_rotate add.commute assms(2))
qed

lemma in_flight_drop:
  assumes "session_inv M s"
  shows "in_flight s = drop (at_client s) (stream (client_end s) @ concat (timers s))"
    and "take (at_client s) (sock_out (server_end s)) = take (at_client s) (stream (client_end s) @ concat (timers s))"
    and "at_client s \<le> length (stream (client_end s) @ concat (timers s))"
proof -
  let ?so = "sock_out (server_end s)" and ?co = "sock_out (client_end s)"
  have le: "at_server s \<le> length ?co" "at_client s \<le> length ?so"
    "?so @ Buffer_contents (output_buffer (server_end s)) = take (at_server s) ?co"
    using assms by (simp_all add: session_inv_def stream_def)
  from arg_cong [OF le(3), of length] le(1,2) have ac: "at_client s \<le> at_server s" by simp
  have "take (at_client s) ?so = take (at_client s) (take (at_server s) ?co)" using le(2) by (simp flip: le(3))
  then show "take (at_client s) ?so = take (at_client s) (stream (client_end s) @ concat (timers s))"
    using ac le(1) by (simp add: stream_def min_def)
  have "in_flight s = drop (at_client s) (take (at_server s) ?co) @ drop (at_server s) ?co @
      Buffer_contents (output_buffer (client_end s)) @ concat (timers s)"
    using le(2) by (simp add: in_flight_def to_client_def to_server_def flip: le(3))
  also have "\<dots> = drop (at_client s) (take (at_server s) ?co @ drop (at_server s) ?co) @
      Buffer_contents (output_buffer (client_end s)) @ concat (timers s)"
    using ac le(1) by (simp del: append_take_drop_id)
  finally show "in_flight s = drop (at_client s) (stream (client_end s) @ concat (timers s))"
    using ac le(1) by (simp add: stream_def)
  show "at_client s \<le> length (stream (client_end s) @ concat (timers s))" using ac le(1) by (simp add: stream_def)
qed

lemma in_flight_rotate:
  assumes "session_inv M s"
  shows "in_flight s = rotate (at_client s) M"
    and "M \<noteq> [] \<Longrightarrow> i < at_client s \<Longrightarrow> sock_out (server_end s) ! i = M ! (i mod length M)"
proof -
  let ?C = "stream (client_end s) @ concat (timers s)"
  note d = in_flight_drop [OF assms]
  have C: "?C = M @ take (at_client s) ?C" using assms d(2) by (simp only: session_inv_def)
  from periodic_rotate [OF this d(3)] d(1) show "in_flight s = rotate (at_client s) M" by simp
  assume "M \<noteq> []" and i: "i < at_client s"
  have "sock_out (server_end s) ! i = take (at_client s) (sock_out (server_end s)) ! i" using i by simp
  also have "\<dots> = take (at_client s) ?C ! i" by (simp only: d(2))
  also have "\<dots> = ?C ! i" using i by (rule nth_take)
  also have "\<dots> = M ! (i mod length M)" using periodic_nth [OF C _ \<open>M \<noteq> []\<close>, of i] i d(3) by linarith
  finally show "sock_out (server_end s) ! i = M ! (i mod length M)" .
qed

subsection \<open>Progress\<close>

text \<open>The number of moves bytes have made: into the client's output, out of it, into the server, out of it, into the client.\<close>

definition hops :: "session \<Rightarrow> nat" where
  "hops s = length (stream (client_end s)) + length (sock_out (client_end s)) + at_server s + length (sock_out (server_end s)) + at_client s"

lemma write_one:
  assumes "up w" and "Buffer_contents (output_buffer w) \<noteq> []"
  shows "write_spec (length (Buffer_contents (output_buffer w))) (Wrote 1)"
    and "handleWrite (Wrote 1) w = Inr w' \<Longrightarrow> length (sock_out w') = length (sock_out w) + 1 \<and> stream w' = stream w"
proof -
  note w = upD [OF assms(1)]
  have one: "1 \<le> length (Buffer_contents (output_buffer w))" using assms(2) by (cases "Buffer_contents (output_buffer w)") simp_all
  then show "write_spec (length (Buffer_contents (output_buffer w))) (Wrote 1)" by (simp add: write_spec_def)
  assume "handleWrite (Wrote 1) w = Inr w'"
  with handleWrite_ok [OF w(1,4) assms(2) _ one] one show "length (sock_out w') = length (sock_out w) + 1 \<and> stream w' = stream w"
    by (auto simp: stream_def)
qed

lemma room_when_empty:
  assumes "up w" and "Buffer_contents (output_buffer w) = []" and "kCheapPrepend + length msg \<le> vector_max" and "n \<le> length msg"
  shows "send_room msg (Wrote n) w"
  using upD(5) [OF assms(1,2)] assms(3,4) by (simp add: send_room_def write_spec_def)

lemma session_moves:
  assumes inv: "session_inv M s" and "in_flight s \<noteq> []" and M: "kCheapPrepend + length M \<le> vector_max" "M \<noteq> []"
  shows "\<exists>ev s'. session_event_ok ev s \<and> session_step r ev s = Inr s' \<and> hops s < hops s'"
proof -
  let ?sv = "server_end s" and ?cl = "client_end s"
  have st: "steady ?sv" "steady ?cl" "up ?sv" "up ?cl" "0 < writableBytes (input_buffer ?sv)" "0 < writableBytes (input_buffer ?cl)"
    using inv by (simp_all add: session_inv_def steady_def ready_def)
  have one: "kCheapPrepend + 1 \<le> vector_max" by (simp add: kCheapPrepend_def vector_max_def)
  have head: "take 1 xs \<noteq> []" "length (take 1 xs) = 1" if "xs \<noteq> []" for xs :: string using that by (cases xs; simp)+
  note ok = session_step_ok [OF inv, of _ r]
  consider (client) "to_client s \<noteq> []" | (out) "Buffer_contents (output_buffer ?sv) \<noteq> []"
    | (server) "Buffer_contents (output_buffer ?sv) = []" "to_server s \<noteq> []"
    | (send) "Buffer_contents (output_buffer ?cl) \<noteq> []"
    | (timer) m ms where "Buffer_contents (output_buffer ?cl) = []" "timers s = m # ms" "in_flight s = concat (timers s)"
    using assms(2) by (cases "timers s") (auto simp: in_flight_def)
  then show ?thesis
  proof cases
    case client
    then have ev: "session_event_ok (ClientReads 1 0) s" using head [OF client] st(6) by (simp add: Let_def)
    from client_reads_ok [OF st(2), of "take 1 (to_client s)" 0] head [OF client] st(6) obtain w' where
      "client_reads (take 1 (to_client s)) 0 ?cl = Inr (take 1 (to_client s), w')" "stream w' = stream ?cl" "sock_out w' = sock_out ?cl"
      by auto
    with head(2) [OF client] ev show ?thesis by (intro exI [of _ "ClientReads 1 0"]) (auto simp: hops_def Let_def)
  next
    case out
    let ?ev = "ServerWrites (Wrote 1)"
    have ev: "session_event_ok ?ev s" using write_one(1) [OF st(3) out] by simp
    from ok [OF this] obtain w' where "handleWrite (Wrote 1) ?sv = Inr w'" by (auto simp: result_eqs)
    with write_one(2) [OF st(3) out] ev show ?thesis by (intro exI [of _ ?ev]) (auto simp: hops_def)
  next
    case server
    let ?b = "take 1 (to_server s)" let ?ev = "ServerReads 1 0 (Wrote 1)"
    have room: "send_room ?b (Wrote 1) ?sv" "peer_up (Wrote 1)"
      using room_when_empty [OF st(3) server(1), of ?b 1] head [OF server(2)] one by (simp_all add: peer_up_def)
    have ev: "session_event_ok ?ev s" using head [OF server(2)] st(5) room by (simp add: Let_def)
    from server_reads [OF st(1) head(1) [OF server(2)] _ room, of r 0] head(2) [OF server(2)] st(5) obtain w' where
      "echo_step r (EchoReadable (Inr ?b) 0 (Wrote 1)) ?sv = Inr w'" "sock_out w' = sock_out ?sv @ written ?b (Wrote 1) ?sv"
      by auto
    with head(2) [OF server(2)] ev show ?thesis
      by (intro exI [of _ ?ev]) (auto simp: hops_def Let_def simp del: echo_step.simps)
  next
    case send
    let ?ev = "ClientWrites (Wrote 1)"
    have ev: "session_event_ok ?ev s" using write_one(1) [OF st(4) send] by simp
    from ok [OF this] obtain w' where "handleWrite (Wrote 1) ?cl = Inr w'" by (auto simp: result_eqs)
    with write_one(2) [OF st(4) send] ev show ?thesis by (intro exI [of _ ?ev]) (auto simp: hops_def)
  next
    case timer
    let ?ev = "TimerFires (Wrote 0)"
    have "length m \<le> length (in_flight s)" using timer by simp
    also have "\<dots> = length M" using in_flight_rotate(1) [OF inv] by simp
    finally have room: "send_room m (Wrote 0) ?cl" "peer_up (Wrote 0)"
      using room_when_empty [OF st(4) timer(1), of m 0] M(1) by (simp_all add: peer_up_def)
    have "m \<noteq> []" using inv timer(2) by (auto simp: session_inv_def)
    moreover from timer_fires [OF st(2) room, of r] obtain w' where
      "EchoClient_onTimer r m (Wrote 0) ?cl = Inr w'" "stream w' = stream ?cl @ m" "sock_out w' = sock_out ?cl @ written m (Wrote 0) ?cl" by auto
    ultimately show ?thesis using room timer(2) by (intro exI [of _ ?ev]) (auto simp: hops_def)
  qed
qed

subsection \<open>The start of a session\<close>

text \<open>A connection as server and client make it: constructed in a consistent loop, wired and established.\<close>

definition fresh_connection :: "TcpConnection \<Rightarrow> bool" where
  "fresh_connection w0 \<longleftrightarrow>
     (\<exists>l name c fd obj wc hw w. EP_inv l \<and> chans l c = None \<and> channels l fd = None \<and>
        TcpConnection_new name c fd l = Inr w \<and> connectEstablished obj (wire wc hw w) = Inr w0)"

definition session_start :: "TcpConnection \<Rightarrow> TcpConnection \<Rightarrow> session" where
  "session_start sv cl = \<lparr>server_end = sv, client_end = cl, at_server = 0, at_client = 0, timers = []\<rparr>"

lemma fresh_steady:
  assumes "fresh_connection w0"
  shows "steady w0" "stream w0 = []" "sock_out w0 = []" "writableBytes (input_buffer w0) = kInitialSize"
proof -
  obtain l name c fd obj wc hw w where l: "EP_inv l" "chans l c = None" "channels l fd = None"
    "TcpConnection_new name c fd l = Inr w" "connectEstablished obj (wire wc hw w) = Inr w0"
    using assms unfolding fresh_connection_def by blast
  from TcpConnection_new_ok [OF l(1-3), of name wc hw] l(4) have
    new: "conn_inv (wire wc hw w)" "conn_state w = kConnecting" "stream w = []" "Buffer_wf (input_buffer w)"
      "Buffer_used (output_buffer w) = kCheapPrepend" by auto
  have wired: "conn_state (wire wc hw w) = kConnecting" "stream (wire wc hw w) = []"
    "input_buffer (wire wc hw w) = input_buffer w" "output_buffer (wire wc hw w) = output_buffer w"
    using new(2,3) by (simp_all add: wire_def stream_def)
  note inp = TcpConnection_new_input [OF l(4)]
  have w0: "conn_inv w0" "conn_state w0 = kConnected" "stream w0 = []" "input_buffer w0 = input_buffer w" "output_buffer w0 = output_buffer w"
    using connectEstablished_ok [OF new(1) wired(1), of obj] l(5) wired by auto
  then show "steady w0" "stream w0 = []" "sock_out w0 = []" "writableBytes (input_buffer w0) = kInitialSize"
    using new(4,5) inp by (simp_all add: steady_def up_def ready_def stream_def kInitialSize_def)
qed

lemma session_start_inv:
  assumes "fresh_connection sv" and "fresh_connection cl0" and "EchoClient_onConnection M r wr cl0 = Inr cl"
    and "send_room M wr cl0" and "peer_up wr"
  shows "session_inv M (session_start sv cl)" and "sock_out cl = written M wr cl0"
proof -
  note f = fresh_steady [OF assms(1)] fresh_steady [OF assms(2)]
  have "EchoClient_onConnection M r wr cl0 = EchoClient_onTimer r M wr cl0"
    using f(5) by (simp add: EchoClient_onConnection_def EchoClient_onTimer_def isConnected_def steady_def up_def)
  with timer_fires [OF f(5) assms(4,5), of r] assms(3) f have "steady cl" "stream cl = M" "sock_out cl = written M wr cl0"
    by auto
  with f show "session_inv M (session_start sv cl)" "sock_out cl = written M wr cl0"
    by (simp_all add: session_inv_def session_start_def)
qed

subsection \<open>Properties\<close>



text \<open>A session of the message \<open>hi\<close>: the client's kernel takes it whole, the server reads and returns one byte, the client reads it.\<close>

lemma demo_fresh: obtains w0 where "fresh_connection w0" "Buffer_used (output_buffer w0) = 8"
proof -
  obtain w w0 where "TcpConnection_new ''c'' 1 5 demo_conn_loop = Inr w" "connectEstablished 1 (wire True True w) = Inr w0"
    "Buffer_used (output_buffer w0) = 8"
    by (rule demo_established)
  with demo_conn_loop_inv that show ?thesis unfolding fresh_connection_def by blast
qed

abbreviation demo_events :: "session_event list" where
  "demo_events \<equiv> [ServerReads 1 0 (Wrote 1), ClientReads 1 0]"

lemma demo_session:
  obtains sv cl0 cl s where "fresh_connection sv" "fresh_connection cl0" "EchoClient_onConnection ''hi'' 3 (Wrote 2) cl0 = Inr cl"
    "send_room ''hi'' (Wrote 2) cl0" "peer_up (Wrote 2)"
    "run_schedule (session_step 3) session_event_ok demo_events (session_start sv cl) = Some s" "at_client s = 1"
proof -
  obtain w0 where w0: "fresh_connection w0" "Buffer_used (output_buffer w0) = 8" by (rule demo_fresh)
  note f = fresh_steady [OF w0(1)]
  have empty: "Buffer_contents (output_buffer w0) = []" using f(2) by (simp add: stream_def)
  have room: "send_room ''hi'' (Wrote 2) w0" "send_room ''h'' (Wrote 1) w0" "peer_up (Wrote 2)" "peer_up (Wrote 1)"
    using w0(2) by (simp_all add: send_room_def write_spec_def vector_max_def peer_up_def)
  have "EchoClient_onConnection ''hi'' 3 (Wrote 2) w0 = EchoClient_onTimer 3 ''hi'' (Wrote 2) w0"
    using f(1) by (simp add: EchoClient_onConnection_def EchoClient_onTimer_def isConnected_def steady_def up_def)
  with timer_fires [OF f(1) room(1,3), of 3] obtain cl where
    cl: "EchoClient_onConnection ''hi'' 3 (Wrote 2) w0 = Inr cl" "steady cl" by auto
  have out: "sock_out cl = ''hi''" using session_start_inv(2) [OF w0(1) w0(1) cl(1) room(1,3)] empty by (simp add: written_def)
  have fit: "length ''h'' \<le> writableBytes (input_buffer w0)" "length ''h'' \<le> writableBytes (input_buffer cl)"
    using f(4) cl(2) by (simp_all add: kInitialSize_def steady_def ready_def)
  obtain sv where sv: "echo_step 3 (EchoReadable (Inr ''h'') 0 (Wrote 1)) w0 = Inr sv" "sock_out sv = ''h''"
    using server_reads [OF f(1) _ fit(1) room(2,4), of 3 0] f(3) empty by (auto simp: written_def)
  obtain cl' where cl': "client_reads ''h'' 0 cl = Inr (''h'', cl')" using client_reads_ok [OF cl(2) _ fit(2), of 0] by auto
  have "\<exists>s. run_schedule (session_step 3) session_event_ok demo_events (session_start w0 cl) = Some s \<and> at_client s = 1"
    using out sv cl' fit room f(3)
    by (simp add: session_start_def to_server_def to_client_def Let_def del: echo_step.simps)
  with that [OF w0(1) w0(1) cl(1) room(1,3)] show ?thesis by blast
qed



end
