(* ===== verification/OldLogging.thy ===== *)
theory OldLogging
  imports TimeStamp "HOL-Library.Word"
begin

text \<open>
  The first logging library, kept under docs/oldfiles/base: LogStream.h, Logging.h, Logging.cpp, the class \<open>AppendFile\<close> of
  FileUtil.cpp, LogFile.h, LogFile.cpp and the printing of Timestamp.cpp.

  \<^item> A record is formatted into a buffer of fixed size; a piece that does not fit is left out. The length of a piece
    is passed as an \<open>int\<close>, so it is the \<open>size_t\<close> length wrapped to 32 bits.
  \<^item> \<open>strftime\<close>, \<open>strerror_r\<close>, the host name and \<open>std::to_string\<close> of a \<open>double\<close> are parameters, results of \<open>fwrite\<close> and readings
    of the clock are arguments. A file is what has been written to its stream; when it reaches the disk and the resetting of \<open>errno\<close> are left out.
\<close>

subsection \<open>FixedBuffer\<close>

record FixedBuffer =
  fb_data :: "char list"
  fb_curr :: nat

definition FixedBuffer_new :: "nat \<Rightarrow> FixedBuffer" where
  "FixedBuffer_new SIZE = \<lparr>fb_data = replicate SIZE (CHR 0x00), fb_curr = 0\<rparr>"

definition size_as_int :: "nat \<Rightarrow> int" where "size_as_int n = sint (of_nat n :: 32 word)"

definition fb_length :: "FixedBuffer \<Rightarrow> int" where "fb_length b = int (fb_curr b)"

definition fb_avail :: "FixedBuffer \<Rightarrow> int" where "fb_avail b = int (length (fb_data b)) - int (fb_curr b)"

text \<open>A negative length would be a huge one for \<open>memcpy\<close>.\<close>

definition FixedBuffer_append :: "string \<Rightarrow> FixedBuffer \<Rightarrow> FixedBuffer result" where
  "FixedBuffer_append buf b =
     (let len = size_as_int (length buf)
      in if len < fb_avail b
         then check OutOfBounds (0 \<le> len)
                (result_bind (mem_write (fb_data b) (fb_curr b) (take (nat len) buf)) (\<lambda>d.
                  Inr (b\<lparr>fb_data := d, fb_curr := fb_curr b + nat len\<rparr>)))
         else Inr b)"

definition fb_reset :: "FixedBuffer \<Rightarrow> FixedBuffer" where "fb_reset b = b\<lparr>fb_curr := 0\<rparr>"

definition fb_bzero :: "FixedBuffer \<Rightarrow> FixedBuffer" where
  "fb_bzero b = b\<lparr>fb_data := replicate (length (fb_data b)) (CHR 0x00)\<rparr>"

definition fb_toString :: "FixedBuffer \<Rightarrow> string" where "fb_toString b = take (fb_curr b) (fb_data b)"

subsection \<open>LogStream\<close>

definition kSmallBuffer :: nat where "kSmallBuffer = 4096"

text \<open>The operands of \<open>operator<<\<close>: the integer types, \<open>float\<close> and \<open>double\<close>, \<open>bool\<close>, \<open>char\<close>, \<open>const char *\<close>,
  \<open>const void *\<close> and \<open>string_view\<close>.\<close>

datatype 'd operand =
    ONum int | ODouble 'd | OBool bool | OChar char | OCString "string option" | OPointer "64 word" | OView string

definition hex_digit :: "nat \<Rightarrow> char" where "hex_digit d = ''0123456789abcdef'' ! d"

fun show_hex :: "nat \<Rightarrow> string" where
  "show_hex n = (if n < 16 then [hex_digit n] else show_hex (n div 16) @ [hex_digit (n mod 16)])"

declare show_hex.simps [simp del]

fun operand_text :: "('d \<Rightarrow> string) \<Rightarrow> 'd operand \<Rightarrow> string" where
  "operand_text to_string (ONum i) = show_int i"
| "operand_text to_string (ODouble d) = to_string d"
| "operand_text to_string (OBool v) = (if v then ''1'' else ''0'')"
| "operand_text to_string (OChar c) = [c]"
| "operand_text to_string (OCString str) = (case str of Some s \<Rightarrow> s | None \<Rightarrow> ''(null)'')"
| "operand_text to_string (OPointer p) = snprintf 32 (''0x'' @ show_hex (unat p))"
| "operand_text to_string (OView s) = s"

definition old_stream_put :: "('d \<Rightarrow> string) \<Rightarrow> 'd operand \<Rightarrow> FixedBuffer \<Rightarrow> FixedBuffer result" where
  "old_stream_put to_string x b = FixedBuffer_append (operand_text to_string x) b"

subsection \<open>Source files and time stamps\<close>

text \<open>\<open>strrchr\<close>: the position of the last occurrence.\<close>

fun strrchr :: "char \<Rightarrow> string \<Rightarrow> nat option" where
  "strrchr c [] = None"
| "strrchr c (x # xs) =
     (case strrchr c xs of Some i \<Rightarrow> Some (i + 1) | None \<Rightarrow> if x = c then Some 0 else None)"

text \<open>The constructors from an array of characters (whose size counts the final zero) and from a C string; the result is
  the text and its size.\<close>

definition SourceFile_array :: "string \<Rightarrow> string \<times> int" where
  "SourceFile_array arr =
     (let N = int (length arr) + 1
      in case strrchr (CHR ''/'') arr of
           Some slash \<Rightarrow> (drop (slash + 1) arr, N - 1 - int (slash + 1))
         | None \<Rightarrow> (arr, N - 1))"

definition SourceFile_cstr :: "string \<Rightarrow> string \<times> int" where
  "SourceFile_cstr filename =
     (let data = (case strrchr (CHR ''/'') filename of Some slash \<Rightarrow> drop (slash + 1) filename | None \<Rightarrow> filename)
      in (data, size_as_int (length data)))"

text \<open>\<open>Timestamp::toString(true)\<close>: the remainder is taken before the conversion to 32 bits and printed by \<open>%06d\<close>.\<close>

definition old_micros :: "TimeStamp \<Rightarrow> string" where
  "old_micros t =
     (let rest = t smod 1000000
      in snprintf 12 (CHR ''.'' # (if 0 \<le> rest then show_padded 6 (nat rest) else CHR ''-'' # show_padded 5 (nat (- rest)))))"

definition old_toString :: "(string \<Rightarrow> int \<Rightarrow> string) \<Rightarrow> bool \<Rightarrow> TimeStamp \<Rightarrow> string" where
  "old_toString strf microsecond t =
     (if microsecond then toFormattedString strf ''%F %T'' t @ old_micros t else toFormattedString strf ''%F %T'' t)"

subsection \<open>Logger\<close>

datatype old_level = TRACE | DEBUG | INFO | WARN | ERROR | FATAL

fun level_rank :: "old_level \<Rightarrow> nat" where
  "level_rank TRACE = 0" | "level_rank DEBUG = 1" | "level_rank INFO = 2"
| "level_rank WARN = 3" | "level_rank ERROR = 4" | "level_rank FATAL = 5"

fun LogLevelName :: "old_level \<Rightarrow> string" where
  "LogLevelName TRACE = ''[TRACE] ''" | "LogLevelName DEBUG = ''[DEBUG] ''" | "LogLevelName INFO = ''[INFO] ''"
| "LogLevelName WARN = ''[WARN] ''" | "LogLevelName ERROR = ''[ERROR] ''" | "LogLevelName FATAL = ''[FATAL] ''"

definition initLogLevel :: "bool \<Rightarrow> bool \<Rightarrow> old_level" where
  "initLogLevel env_trace env_debug = (if env_trace then TRACE else if env_debug then DEBUG else INFO)"

text \<open>The macros: only the first three look at the level.\<close>

definition macro_logs :: "old_level \<Rightarrow> old_level \<Rightarrow> bool" where
  "macro_logs log_level lv \<longleftrightarrow> lv \<in> {WARN, ERROR, FATAL} \<or> level_rank log_level \<le> level_rank lv"

record log_site =
  site_file :: "string \<times> int"
  site_line :: int
  site_tid :: int
  site_time :: TimeStamp
  site_errno :: int

text \<open>What the constructor of \<open>Impl\<close> puts into the stream, and what \<open>finish\<close> does.\<close>

definition Impl_operands :: "(string \<Rightarrow> int \<Rightarrow> string) \<Rightarrow> (int \<Rightarrow> string) \<Rightarrow> log_site \<Rightarrow> old_level \<Rightarrow> 'd operand list" where
  "Impl_operands strf strerror s lv =
     [OView (old_toString strf True (site_time s)), OChar (CHR '' ''), ONum (site_tid s), OChar (CHR '' ''),
      OCString (Some (LogLevelName lv))] @
     (if site_errno s \<noteq> 0
      then [OCString (Some (strerror (site_errno s))), OCString (Some '' (errno = ''), ONum (site_errno s),
            OCString (Some '') '')]
      else [])"

definition finish_operands :: "log_site \<Rightarrow> 'd operand list" where
  "finish_operands s =
     [OCString (Some '' - ''), OView (take (nat (snd (site_file s))) (fst (site_file s))), OChar (CHR '':''),
      ONum (site_line s), OChar (CHR 0x0A)]"

text \<open>A statement \<open>LOG_X << args\<close>: the constructors (the one for \<open>TRACE\<close> and \<open>DEBUG\<close> adds the function name), the user's
  operands, the destructor. The result is the text passed to the output function and whether the program is aborted.\<close>

definition Logger_statement ::
  "('d \<Rightarrow> string) \<Rightarrow> (string \<Rightarrow> int \<Rightarrow> string) \<Rightarrow> (int \<Rightarrow> string) \<Rightarrow> log_site \<Rightarrow> old_level \<Rightarrow> string option \<Rightarrow>
    'd operand list \<Rightarrow> (string \<times> bool) result" where
  "Logger_statement to_string strf strerror s lv func args =
     result_bind (foldM (old_stream_put to_string) (Impl_operands strf strerror s lv) (FixedBuffer_new kSmallBuffer)) (\<lambda>b1.
     result_bind (foldM (old_stream_put to_string)
        (case func of Some f \<Rightarrow> [OCString (Some f), OChar (CHR '' '')] | None \<Rightarrow> []) b1) (\<lambda>b2.
     result_bind (foldM (old_stream_put to_string) args b2) (\<lambda>b3.
     result_bind (foldM (old_stream_put to_string) (finish_operands s) b3) (\<lambda>b4.
       Inr (take (nat (fb_length b4)) (fb_data b4), lv = FATAL)))))"

subsection \<open>AppendFile\<close>

text \<open>The files by name. Opening for appending creates a file or keeps what it has; \<open>writen_bytes_\<close> starts at 0 either way.\<close>

record AppendFile =
  af_name :: string
  writen_bytes :: nat

type_synonym old_files = "string \<rightharpoonup> string"

definition AppendFile_new :: "string \<Rightarrow> old_files \<Rightarrow> AppendFile \<times> old_files" where
  "AppendFile_new filename fs =
     (\<lparr>af_name = filename, writen_bytes = 0\<rparr>,
      if fs filename = None then fs(filename \<mapsto> []) else fs)"

definition file_add :: "string \<Rightarrow> string \<Rightarrow> old_files \<Rightarrow> old_files" where
  "file_add f d fs = fs(f \<mapsto> (case fs f of None \<Rightarrow> d | Some c \<Rightarrow> c @ d))"

text \<open>The loop of \<open>append\<close> after the first \<open>fwrite\<close>: every further one starts at the beginning of the line again. \<open>ns\<close>
  are the results of \<open>fwrite\<close>.\<close>

fun append_loop :: "string \<Rightarrow> string \<Rightarrow> nat list \<Rightarrow> nat \<Rightarrow> old_files \<Rightarrow> old_files option" where
  "append_loop f logline ns remain fs =
     (if 0 < remain
      then case ns of
             [] \<Rightarrow> None
           | x # rest \<Rightarrow> if x = 0 then Some fs else append_loop f logline rest (remain - x) (file_add f (take x logline) fs)
      else Some fs)"

declare append_loop.simps [simp del]

definition AppendFile_append :: "string \<Rightarrow> nat list \<Rightarrow> AppendFile \<times> old_files \<Rightarrow> (AppendFile \<times> old_files) option" where
  "AppendFile_append logline ns st =
     (case st of (a, fs) \<Rightarrow>
        case ns of
          [] \<Rightarrow> None
        | n # rest \<Rightarrow>
            map_option (\<lambda>fs'. (a\<lparr>writen_bytes := writen_bytes a + length logline\<rparr>, fs'))
              (append_loop (af_name a) logline rest (length logline - n) (file_add (af_name a) (take n logline) fs)))"

text \<open>A short write is followed by the start of the line, not by its rest.\<close>

lemma append_short_write:
  assumes "fs f = Some c" and "0 < n" and "n < length line"
  shows "AppendFile_append line [n, length line - n] (\<lparr>af_name = f, writen_bytes = k\<rparr>, fs) =
     Some (\<lparr>af_name = f, writen_bytes = k + length line\<rparr>, fs(f \<mapsto> c @ take n line @ take (length line - n) line))"
  using assms by (simp add: AppendFile_append_def append_loop.simps file_add_def)

lemma append_whole:
  "AppendFile_append line [length line] (a, fs) =
     Some (a\<lparr>writen_bytes := writen_bytes a + length line\<rparr>, file_add (af_name a) line fs)"
  by (simp add: AppendFile_append_def append_loop.simps)

subsection \<open>LogFile\<close>

record OldLogFile =
  lf_basename :: string
  roll_file_size_max :: int
  flush_interval :: int
  check_of_n_lines :: int
  lf_file :: AppendFile
  lf_disk :: old_files
  start_of_log :: int
  last_roll :: int
  last_flush :: int
  lf_count :: int

definition old_kRollPerSeconds :: int where "old_kRollPerSeconds = 60 * 60 * 24"

text \<open>\<open>stamp\<close> is what \<open>localtime_r\<close> and \<open>strftime\<close> make of a time, \<open>host\<close> what \<open>gethostname\<close> gives.\<close>

definition old_getLogFileName :: "(int \<Rightarrow> string) \<Rightarrow> string \<Rightarrow> string \<Rightarrow> int \<Rightarrow> string" where
  "old_getLogFileName stamp host basename now = basename @ stamp now @ host @ ''.log''"

definition old_rollFile :: "(int \<Rightarrow> string) \<Rightarrow> string \<Rightarrow> int \<Rightarrow> OldLogFile \<Rightarrow> OldLogFile" where
  "old_rollFile stamp host now lf =
     (case AppendFile_new (old_getLogFileName stamp host (lf_basename lf) now) (lf_disk lf) of (a, fs) \<Rightarrow>
        lf\<lparr>last_roll := now, last_flush := now, start_of_log := now sdiv old_kRollPerSeconds * old_kRollPerSeconds,
           lf_file := a, lf_disk := fs\<rparr>)"

definition OldLogFile_new ::
  "(int \<Rightarrow> string) \<Rightarrow> string \<Rightarrow> int \<Rightarrow> string \<Rightarrow> int \<Rightarrow> int \<Rightarrow> int \<Rightarrow> old_files \<Rightarrow> OldLogFile" where
  "OldLogFile_new stamp host now basename rollFileSizeMax flushInterval logLineMax fs =
     old_rollFile stamp host now
       \<lparr>lf_basename = basename, roll_file_size_max = rollFileSizeMax, flush_interval = flushInterval,
        check_of_n_lines = logLineMax, lf_file = \<lparr>af_name = [], writen_bytes = 0\<rparr>, lf_disk = fs,
        start_of_log = 0, last_roll = 0, last_flush = 0, lf_count = 0\<rparr>"

text \<open>\<open>append_unlocked\<close> (the mutex of \<open>append\<close> makes it one step): \<open>ns\<close> are the results of \<open>fwrite\<close>, \<open>now\<close> the reading of
  the clock here and \<open>now'\<close> that in \<open>rollFile\<close>.\<close>

definition append_unlocked ::
  "(int \<Rightarrow> string) \<Rightarrow> string \<Rightarrow> nat list \<Rightarrow> int \<Rightarrow> int \<Rightarrow> string \<Rightarrow> OldLogFile \<Rightarrow> OldLogFile option" where
  "append_unlocked stamp host ns now now' logline lf =
     (case AppendFile_append logline ns (lf_file lf, lf_disk lf) of
        None \<Rightarrow> None
      | Some (a, fs) \<Rightarrow>
          (let lf1 = lf\<lparr>lf_file := a, lf_disk := fs\<rparr>
           in Some (if roll_file_size_max lf1 < int (writen_bytes a) then old_rollFile stamp host now' lf1
                    else let lf2 = lf1\<lparr>lf_count := lf_count lf1 + 1\<rparr>
                         in if check_of_n_lines lf2 \<le> lf_count lf2
                            then let lf3 = lf2\<lparr>lf_count := 0\<rparr>;
                                     currentPeriod = now sdiv old_kRollPerSeconds * old_kRollPerSeconds
                                 in if currentPeriod \<noteq> start_of_log lf3 then old_rollFile stamp host now' lf3
                                    else if flush_interval lf3 < now - last_flush lf3 then lf3\<lparr>last_flush := now\<rparr>
                                    else lf3
                            else lf2)))"

text \<open>A sequence of lines, each with the two clock readings, written whole.\<close>

fun append_lines ::
  "(int \<Rightarrow> string) \<Rightarrow> string \<Rightarrow> (string \<times> int \<times> int) list \<Rightarrow> OldLogFile \<Rightarrow> OldLogFile option" where
  "append_lines stamp host [] lf = Some lf"
| "append_lines stamp host ((line, now, now') # ls) lf =
     Option.bind (append_unlocked stamp host [length line] now now' line lf) (append_lines stamp host ls)"

text \<open>The file each line goes to: the one open when it is appended.\<close>

fun placed ::
  "(int \<Rightarrow> string) \<Rightarrow> string \<Rightarrow> (string \<times> int \<times> int) list \<Rightarrow> OldLogFile \<Rightarrow> (string \<times> string) list" where
  "placed stamp host [] lf = []"
| "placed stamp host ((line, now, now') # ls) lf =
     (af_name (lf_file lf), line) #
     (case append_unlocked stamp host [length line] now now' line lf of
        None \<Rightarrow> [] | Some lf1 \<Rightarrow> placed stamp host ls lf1)"

definition contents_of :: "string \<Rightarrow> old_files \<Rightarrow> string" where
  "contents_of f fs = (case fs f of None \<Rightarrow> [] | Some c \<Rightarrow> c)"

subsection \<open>Formatting\<close>

text \<open>The reference: pieces are taken as long as a byte stays free behind them; others are skipped.\<close>

fun fitting :: "nat \<Rightarrow> string \<Rightarrow> string list \<Rightarrow> string" where
  "fitting n acc [] = acc"
| "fitting n acc (p # ps) = (if length acc + length p < n then fitting n (acc @ p) ps else fitting n acc ps)"

definition fb_wf :: "nat \<Rightarrow> FixedBuffer \<Rightarrow> bool" where
  "fb_wf n b \<longleftrightarrow> length (fb_data b) = n \<and> fb_curr b < n"

lemma size_as_int_small: "n < 2 ^ 31 \<Longrightarrow> size_as_int n = int n"
  by (simp add: size_as_int_def signed_of_nat signed_take_bit_int_eq_self)

lemma fb_append_ok:
  assumes "fb_wf n b" and "length s < 2 ^ 31"
  shows "\<exists>b'. FixedBuffer_append s b = Inr b' \<and> fb_wf n b' \<and> fb_toString b' = fitting n (fb_toString b) [s]"
proof -
  have l: "length (fb_toString b) = fb_curr b" using assms(1) by (simp add: fb_wf_def fb_toString_def)
  show ?thesis
  proof (cases "fb_curr b + length s < n")
    case True
    let ?b = "b\<lparr>fb_data := take (fb_curr b) (fb_data b) @ s @ drop (fb_curr b + length s) (fb_data b),
        fb_curr := fb_curr b + length s\<rparr>"
    have "FixedBuffer_append s b = Inr ?b"
      using True assms by (simp add: FixedBuffer_append_def size_as_int_small fb_avail_def fb_wf_def mem_write_ok)
    moreover have "fb_wf n ?b" using True assms(1) by (simp add: fb_wf_def)
    moreover have "fb_toString ?b = fb_toString b @ s" using assms(1) by (simp add: fb_wf_def fb_toString_def)
    ultimately show ?thesis using True l by auto
  next
    case False
    then have "FixedBuffer_append s b = Inr b"
      using assms by (simp add: FixedBuffer_append_def size_as_int_small fb_avail_def fb_wf_def)
    with False l assms(1) show ?thesis by simp
  qed
qed

lemma fitting_append: "fitting n acc (ps @ qs) = fitting n (fitting n acc ps) qs"
  by (induction n acc ps rule: fitting.induct) simp_all

lemma foldM_old_stream_put:
  assumes "fb_wf n b" and "\<And>x. x \<in> set xs \<Longrightarrow> length (operand_text to_string x) < 2 ^ 31"
  shows "\<exists>b'. foldM (old_stream_put to_string) xs b = Inr b' \<and> fb_wf n b' \<and>
     fb_toString b' = fitting n (fb_toString b) (map (operand_text to_string) xs)"
  using assms
proof (induction xs arbitrary: b)
  case Nil
  then show ?case by simp
next
  case (Cons x xs)
  obtain b1 where b1: "FixedBuffer_append (operand_text to_string x) b = Inr b1" "fb_wf n b1"
    "fb_toString b1 = fitting n (fb_toString b) [operand_text to_string x]"
    using fb_append_ok [OF Cons.prems(1)] Cons.prems(2) by fastforce
  with Cons.IH [OF b1(2)] Cons.prems(2) show ?case by (auto simp: old_stream_put_def)
qed

lemma fitting_all: "length acc + length (concat ps) < n \<Longrightarrow> fitting n acc ps = acc @ concat ps"
  by (induction n acc ps rule: fitting.induct) auto

lemma length_fitting: "length acc < n \<Longrightarrow> length (fitting n acc ps) < n"
  by (induction n acc ps rule: fitting.induct) auto

lemma fitting_full: "length acc + 1 = n \<Longrightarrow> [] \<notin> set ps \<Longrightarrow> fitting n acc ps = acc"
  by (induction n acc ps rule: fitting.induct) (auto simp: Suc_eq_plus1 [symmetric] length_greater_0_conv [symmetric] simp del: length_greater_0_conv)

text \<open>Both constructors of \<open>SourceFile\<close> give the part of the path behind its last slash.\<close>

lemma strrchr_None: "strrchr c s = None \<longleftrightarrow> c \<notin> set s"
  by (induction s) (auto split: option.splits)

lemma strrchr_Some: "strrchr c s = Some i \<Longrightarrow> i < length s \<and> s ! i = c \<and> c \<notin> set (drop (i + 1) s)"
  by (induction s arbitrary: i) (auto simp: strrchr_None split: option.splits if_splits)

lemma SourceFile_basename:
  assumes "length path < 2 ^ 31"
  shows "SourceFile_array path = SourceFile_cstr path" and "CHR ''/'' \<notin> set (fst (SourceFile_cstr path))"
    and "snd (SourceFile_cstr path) = int (length (fst (SourceFile_cstr path)))"
    and "\<exists>dir. path = dir @ fst (SourceFile_cstr path) \<and> (dir = [] \<or> last dir = CHR ''/'')"
proof -
  let ?r = "strrchr (CHR ''/'') path"
  show "snd (SourceFile_cstr path) = int (length (fst (SourceFile_cstr path)))"
    using assms by (simp add: SourceFile_cstr_def Let_def size_as_int_small split: option.split)
  show "SourceFile_array path = SourceFile_cstr path"
    using assms strrchr_Some [of "CHR ''/''" path]
    by (cases ?r) (auto simp: SourceFile_cstr_def SourceFile_array_def Let_def size_as_int_small)
  show "CHR ''/'' \<notin> set (fst (SourceFile_cstr path))"
    using strrchr_Some [of "CHR ''/''" path] strrchr_None [of "CHR ''/''" path]
    by (cases ?r) (auto simp: SourceFile_cstr_def Let_def)
  show "\<exists>dir. path = dir @ fst (SourceFile_cstr path) \<and> (dir = [] \<or> last dir = CHR ''/'')"
  proof (cases ?r)
    case None
    then show ?thesis by (simp add: SourceFile_cstr_def Let_def)
  next
    case (Some i)
    with strrchr_Some [OF this] id_take_nth_drop [of i path] show ?thesis
      by (intro exI [of _ "take (i + 1) path"]) (simp add: SourceFile_cstr_def Let_def take_Suc_conv_app_nth)
  qed
qed

text \<open>All pieces of a record.\<close>

definition record_operands ::
  "(string \<Rightarrow> int \<Rightarrow> string) \<Rightarrow> (int \<Rightarrow> string) \<Rightarrow> log_site \<Rightarrow> old_level \<Rightarrow> string option \<Rightarrow> 'd operand list \<Rightarrow> 'd operand list" where
  "record_operands strf strerror s lv func args =
     Impl_operands strf strerror s lv @
     (case func of Some f \<Rightarrow> [OCString (Some f), OChar (CHR '' '')] | None \<Rightarrow> []) @ args @ finish_operands s"

lemma statement_eq:
  "Logger_statement to_string strf strerror s lv func args =
     result_bind (foldM (old_stream_put to_string) (record_operands strf strerror s lv func args) (FixedBuffer_new kSmallBuffer))
       (\<lambda>b. Inr (take (nat (fb_length b)) (fb_data b), lv = FATAL))"
  unfolding Logger_statement_def record_operands_def foldM_append result_bind_assoc ..

text \<open>A record that fills the buffer before its end has no final newline.\<close>

lemma record_without_newline:
  assumes "length acc = kSmallBuffer - 1"
  shows "fitting kSmallBuffer acc [''\<newline>''] = acc"
  using assms by (intro fitting_full) (simp_all add: kSmallBuffer_def)

subsection \<open>Files\<close>

lemma contents_of_add: "contents_of g (file_add f d fs) = contents_of g fs @ (if g = f then d else [])"
  by (simp add: contents_of_def file_add_def split: option.split)

lemma old_rollFile_facts [simp]:
  "contents_of f (lf_disk (old_rollFile stamp host now lf)) = contents_of f (lf_disk lf)"
  "writen_bytes (lf_file (old_rollFile stamp host now lf)) = 0"
  "roll_file_size_max (old_rollFile stamp host now lf) = roll_file_size_max lf"
  by (simp_all add: old_rollFile_def AppendFile_new_def contents_of_def)

lemma append_unlocked_ok:
  assumes "0 \<le> roll_file_size_max lf"
  shows "\<exists>lf'. append_unlocked stamp host [length line] now now' line lf = Some lf' \<and>
     roll_file_size_max lf' = roll_file_size_max lf \<and> int (writen_bytes (lf_file lf')) \<le> roll_file_size_max lf' \<and>
     (\<forall>f. contents_of f (lf_disk lf') = contents_of f (lf_disk lf) @ (if f = af_name (lf_file lf) then line else []))"
  using assms unfolding append_unlocked_def append_whole by (auto simp: Let_def contents_of_add)

lemma append_lines_ok:
  assumes "0 \<le> roll_file_size_max lf" and "int (writen_bytes (lf_file lf)) \<le> roll_file_size_max lf"
  shows "\<exists>lf'. append_lines stamp host ls lf = Some lf' \<and> map snd (placed stamp host ls lf) = map fst ls \<and>
     int (writen_bytes (lf_file lf')) \<le> roll_file_size_max lf \<and>
     (\<forall>f. contents_of f (lf_disk lf') =
        contents_of f (lf_disk lf) @ concat (map snd (filter (\<lambda>x. fst x = f) (placed stamp host ls lf))))"
  using assms
proof (induction ls arbitrary: lf)
  case Nil
  then show ?case by simp
next
  case (Cons l ls)
  obtain line now now' where l: "l = (line, now, now')" by (cases l)
  obtain lf1 where lf1: "append_unlocked stamp host [length line] now now' line lf = Some lf1"
    "roll_file_size_max lf1 = roll_file_size_max lf" "int (writen_bytes (lf_file lf1)) \<le> roll_file_size_max lf1"
    "\<forall>f. contents_of f (lf_disk lf1) = contents_of f (lf_disk lf) @ (if f = af_name (lf_file lf) then line else [])"
    using append_unlocked_ok [OF Cons.prems(1)] by blast
  from Cons.IH [of lf1] lf1 Cons.prems(1) show ?case by (auto simp: l)
qed

text \<open>The microseconds of a record are those of its time, unlike in the later library.\<close>

lemma old_micros_exact: "0 \<le> t \<Longrightarrow> old_micros t = snprintf 12 (CHR ''.'' # show_padded 6 (nat (t mod 1000000)))"
  by (cases "t = 0") (simp_all add: old_micros_def signed_modulo_int_def Let_def)

subsection \<open>Properties\<close>

text \<open>A record of the first logging library is its pieces in order: time, thread, level, error text, function name, the operands,
  file and line. Whatever the operands are the buffer of 4096 bytes is not overrun; a piece that would fill it is left out
  whole and later ones that fit still follow; a record shorter than the buffer is complete.\<close>

theorem old_record_text:
  assumes "\<forall>x \<in> set (record_operands strf strerror s lv func args). length (operand_text to_string x) < 2 ^ 31"
  shows "\<exists>txt. Logger_statement to_string strf strerror s lv func args = Inr (txt, lv = FATAL) \<and>
    txt = fitting 4096 [] (map (operand_text to_string) (record_operands strf strerror s lv func args)) \<and> length txt < 4096 \<and>
    (length (concat (map (operand_text to_string) (record_operands strf strerror s lv func args))) < 4096 \<longrightarrow>
       txt = concat (map (operand_text to_string) (record_operands strf strerror s lv func args)))"
proof -
  let ?ops = "record_operands strf strerror s lv func args"
  let ?ps = "map (operand_text to_string) ?ops"
  have new: "fb_wf 4096 (FixedBuffer_new kSmallBuffer)" "fb_toString (FixedBuffer_new kSmallBuffer) = []"
    by (simp_all add: fb_wf_def FixedBuffer_new_def kSmallBuffer_def fb_toString_def)
  obtain b where b: "foldM (old_stream_put to_string) ?ops (FixedBuffer_new kSmallBuffer) = Inr b"
    "fb_toString b = fitting 4096 [] ?ps"
    using foldM_old_stream_put [OF new(1), of ?ops to_string] assms new(2) by auto
  have "Logger_statement to_string strf strerror s lv func args = Inr (fitting 4096 [] ?ps, lv = FATAL)"
    using b by (simp add: statement_eq fb_toString_def fb_length_def)
  moreover have "length (fitting 4096 [] ?ps) < 4096" by (rule length_fitting) simp
  moreover have "length (concat ?ps) < 4096 \<longrightarrow> fitting 4096 [] ?ps = concat ?ps" using fitting_all [of "[]" ?ps 4096] by simp
  ultimately show ?thesis by blast
qed



definition demo_site :: log_site where
  "demo_site = \<lparr>site_file = SourceFile_array ''src/main.cpp'', site_line = 12, site_tid = 7, site_time = 1000042, site_errno = 0\<rparr>"

theorem old_record_text_witness:
  "Logger_statement (\<lambda>d::unit. ''1.5'') (\<lambda>f t. ''now'') (\<lambda>e. ''err'') demo_site WARN None [OCString (Some ''hi''), OBool True] =
     Inr (''now.000042 7 [WARN] hi1 - main.cpp:12'' @ [CHR 0x0A], False)"
proof -
  have ops: "map (operand_text (\<lambda>d::unit. ''1.5''))
      (record_operands (\<lambda>f t. ''now'') (\<lambda>e. ''err'') demo_site WARN None [OCString (Some ''hi''), OBool True]) =
    [''now.000042'', '' '', ''7'', '' '', ''[WARN] '', ''hi'', ''1'', '' - '', ''main.cpp'', '':'', ''12'', [CHR 0x0A]]"
    by (simp add: record_operands_def Impl_operands_def finish_operands_def demo_site_def SourceFile_array_def old_toString_def
        toFormattedString_def old_micros_exact show_int_def show_padded_def show_nat.simps snprintf_def digit_char_def Let_def) code_simp
  have "\<forall>p \<in> set (map (operand_text (\<lambda>d::unit. ''1.5''))
      (record_operands (\<lambda>f t. ''now'') (\<lambda>e. ''err'') demo_site WARN None [OCString (Some ''hi''), OBool True])). length p < 2 ^ 31"
    unfolding ops by simp
  then have "\<forall>x \<in> set (record_operands (\<lambda>f t. ''now'') (\<lambda>e. ''err'') demo_site WARN None [OCString (Some ''hi''), OBool True]).
      length (operand_text (\<lambda>d::unit. ''1.5'') x) < 2 ^ 31"
    unfolding set_map by blast
  from old_record_text [OF this] show ?thesis unfolding ops by simp
qed

end
