(* ===== verification/BufferOps.thy ===== *)
theory BufferOps
  imports Buffer
begin

text \<open>
  All operations of \<open>Buffer\<close> (include/libfm/fmnet/Buffer.h, net/Buffer.cpp) together: a datatype of calls, their execution,
  and the effect each should have on the readable bytes. An operation keeps the buffer well-formed with that effect, or
  stops at one of its own asserts, or throws \<open>std::length_error\<close>; it never touches memory outside the vector.
\<close>

datatype buffer_op =
    Append string | Prepend string | AppendInt64 byte_order "64 word" | AppendInt32 byte_order "32 word"
  | AppendInt16 byte_order "16 word" | AppendInt8 byte_order "8 word" | PrependInt64 byte_order "64 word"
  | PrependInt32 byte_order "32 word" | PrependInt16 byte_order "16 word" | PrependInt8 byte_order "8 word"
  | Retrieve nat | RetrieveUntil nat | RetrieveAll | RetrieveAsString nat | RetrieveAllAsString
  | ReadInt64 byte_order | ReadInt32 byte_order | ReadInt16 byte_order | ReadInt8 byte_order
  | UnWrite nat | EnsureWritableBytes nat | Shrink nat | ReadFd "int + string"

fun call_op :: "buffer_op \<Rightarrow> Buffer \<Rightarrow> Buffer result" where
  "call_op (Append s) b = Buffer_append s b"
| "call_op (Prepend s) b = Buffer_prepend s b"
| "call_op (AppendInt64 e x) b = appendInt64 e x b"
| "call_op (AppendInt32 e x) b = appendInt32 e x b"
| "call_op (AppendInt16 e x) b = appendInt16 e x b"
| "call_op (AppendInt8 e x) b = appendInt8 e x b"
| "call_op (PrependInt64 e x) b = prependInt64 e x b"
| "call_op (PrependInt32 e x) b = prependInt32 e x b"
| "call_op (PrependInt16 e x) b = prependInt16 e x b"
| "call_op (PrependInt8 e x) b = prependInt8 e x b"
| "call_op (Retrieve n) b = retrieve n b"
| "call_op (RetrieveUntil i) b = retrieveUntil i b"
| "call_op RetrieveAll b = Inr (retrieveAll b)"
| "call_op (RetrieveAsString n) b = result_bind (retrieveAsString n b) (\<lambda>(s, b'). Inr b')"
| "call_op RetrieveAllAsString b = result_bind (retrieveAllAsString b) (\<lambda>(s, b'). Inr b')"
| "call_op (ReadInt64 e) b = result_bind (readInt64 e b) (\<lambda>(x, b'). Inr b')"
| "call_op (ReadInt32 e) b = result_bind (readInt32 e b) (\<lambda>(x, b'). Inr b')"
| "call_op (ReadInt16 e) b = result_bind (readInt16 e b) (\<lambda>(x, b'). Inr b')"
| "call_op (ReadInt8 e) b = result_bind (readInt8 e b) (\<lambda>(x, b'). Inr b')"
| "call_op (UnWrite n) b = unWrite n b"
| "call_op (EnsureWritableBytes n) b = ensureWritableBytes n b"
| "call_op (Shrink n) b = shrink n b"
| "call_op (ReadFd r) b = result_bind (readFd b r) (\<lambda>(b', n). Inr b')"

text \<open>Sizes are those of real objects; \<open>readInt16\<close> needs four bytes before the end of the vector, \<open>readFd\<close> gets no more bytes
  than are free (see \<open>peekInt16_overread\<close> and \<open>readFd_loses_extra\<close>).\<close>

fun op_ok :: "buffer_op \<Rightarrow> Buffer \<Rightarrow> bool" where
  "op_ok (Append s) b \<longleftrightarrow> length s \<le> vector_max"
| "op_ok (EnsureWritableBytes n) b \<longleftrightarrow> n \<le> vector_max"
| "op_ok (Shrink n) b \<longleftrightarrow> readableBytes b + n \<le> vector_max"
| "op_ok (ReadInt16 e) b \<longleftrightarrow> read_index b + 4 \<le> length (buffer_data b)"
| "op_ok (ReadFd r) b \<longleftrightarrow> (case r of Inl e \<Rightarrow> True | Inr bytes \<Rightarrow> length bytes \<le> writableBytes b)"
| "op_ok _ b \<longleftrightarrow> True"

text \<open>The effect on the readable bytes.\<close>

fun op_effect :: "buffer_op \<Rightarrow> Buffer \<Rightarrow> string \<Rightarrow> string" where
  "op_effect (Append s) b cs = cs @ s"
| "op_effect (Prepend s) b cs = s @ cs"
| "op_effect (AppendInt64 e x) b cs = cs @ be_bytes 8 (unat x)"
| "op_effect (AppendInt32 e x) b cs = cs @ be_bytes 4 (unat x)"
| "op_effect (AppendInt16 e x) b cs = cs @ be_bytes 2 (unat x)"
| "op_effect (AppendInt8 e x) b cs = cs @ be_bytes 1 (unat x)"
| "op_effect (PrependInt64 e x) b cs = be_bytes 8 (unat x) @ cs"
| "op_effect (PrependInt32 e x) b cs = be_bytes 4 (unat x) @ cs"
| "op_effect (PrependInt16 e x) b cs = be_bytes 2 (unat x) @ cs"
| "op_effect (PrependInt8 e x) b cs = be_bytes 1 (unat x) @ cs"
| "op_effect (Retrieve n) b cs = drop n cs"
| "op_effect (RetrieveUntil i) b cs = drop (i - peek b) cs"
| "op_effect RetrieveAll b cs = []"
| "op_effect (RetrieveAsString n) b cs = drop n cs"
| "op_effect RetrieveAllAsString b cs = []"
| "op_effect (ReadInt64 e) b cs = drop 8 cs"
| "op_effect (ReadInt32 e) b cs = drop 4 cs"
| "op_effect (ReadInt16 e) b cs = drop 2 cs"
| "op_effect (ReadInt8 e) b cs = drop 1 cs"
| "op_effect (UnWrite n) b cs = take (length cs - n) cs"
| "op_effect (EnsureWritableBytes n) b cs = cs"
| "op_effect (Shrink n) b cs = cs"
| "op_effect (ReadFd r) b cs = (case r of Inl e \<Rightarrow> cs | Inr bytes \<Rightarrow> cs @ bytes)"

definition typed :: "string \<Rightarrow> Buffer result \<Rightarrow> bool" where
  "typed cs r \<longleftrightarrow> yields {AssertFailed, LengthError} (\<lambda>b. Buffer_wf b \<and> Buffer_contents b = cs) r"

lemma typed_Inr: "Buffer_wf b \<Longrightarrow> Buffer_contents b = cs \<Longrightarrow> typed cs (Inr b)"
  by (simp add: typed_def)

lemma typed_assert: "(P \<Longrightarrow> typed cs r) \<Longrightarrow> typed cs (assert_c P r)"
  by (cases P) (simp_all add: typed_def)

lemma typed_bind:
  assumes "typed cs r" and "\<And>b. Buffer_wf b \<Longrightarrow> Buffer_contents b = cs \<Longrightarrow> typed ds (k b)"
  shows "typed ds (result_bind r k)"
  using assms yields_bind unfolding typed_def by blast

subsection \<open>Adding bytes\<close>

lemma makeSpace_typed:
  assumes "Buffer_wf b" and "writableBytes b < len" and "len \<le> vector_max"
  shows "typed (Buffer_contents b) (makeSpace len b)"
proof (cases "writableBytes b + read_index b < len + kCheapPrepend")
  case True
  show ?thesis
  proof (cases "write_index b + len \<le> vector_max")
    case False
    with True makeSpace_sums [OF assms(1,3)] show ?thesis
      by (simp add: makeSpace_def vector_resize_def typed_def)
  next
    case fits: True
    from makeSpace_ok [OF assms(1,2) fits] show ?thesis by (auto simp: typed_def)
  qed
next
  case False
  from makeSpace_move [OF assms False] show ?thesis by (auto simp: typed_def)
qed

lemma ensure_typed:
  assumes "Buffer_wf b" and "len \<le> vector_max"
  shows "typed (Buffer_contents b) (ensureWritableBytes len b)"
    and "ensureWritableBytes len b = Inr b' \<Longrightarrow> len \<le> writableBytes b'"
proof -
  have "typed (Buffer_contents b) (if writableBytes b < len then makeSpace len b else Inr b)"
    using makeSpace_typed [OF assms(1) _ assms(2)] assms(1) by (simp add: typed_Inr)
  then show "typed (Buffer_contents b) (ensureWritableBytes len b)"
    unfolding ensureWritableBytes_def by (rule typed_bind) (auto intro: typed_assert typed_Inr)
  show "ensureWritableBytes len b = Inr b' \<Longrightarrow> len \<le> writableBytes b'"
    by (auto simp: ensureWritableBytes_def result_eqs)
qed

lemma append_typed:
  assumes "Buffer_wf b" and "length s \<le> vector_max"
  shows "typed (Buffer_contents b @ s) (Buffer_append s b)"
proof (cases "ensureWritableBytes (length s) b")
  case (Inl e)
  with ensure_typed(1) [OF assms] show ?thesis by (simp add: Buffer_append_def typed_def)
next
  case (Inr b1)
  with ensure_typed(1) [OF assms] have b1: "Buffer_wf b1" "Buffer_contents b1 = Buffer_contents b"
    by (simp_all add: typed_def)
  from write_back_ok [OF b1(1) ensure_typed(2) [OF assms Inr]] b1(2) Inr show ?thesis
    unfolding Buffer_append_def by (auto simp: typed_def)
qed

lemma prepend_typed: "Buffer_wf b \<Longrightarrow> typed (s @ Buffer_contents b) (Buffer_prepend s b)"
  using Buffer_prepend_ok [of b s]
  by (cases "length s \<le> read_index b") (auto simp: typed_def Buffer_prepend_def prependableBytes_def)

lemma length_be_small: "n \<le> 8 \<Longrightarrow> length (be_bytes n x) \<le> vector_max"
  by (simp add: vector_max_def)

lemma shrink_typed:
  assumes "Buffer_wf b" and "readableBytes b + n \<le> vector_max"
  shows "typed (Buffer_contents b) (shrink n b)"
proof -
  have "kCheapPrepend + kInitialSize \<le> vector_max" by (simp add: kCheapPrepend_def kInitialSize_def vector_max_def)
  then obtain b0 where b0: "Buffer_new kInitialSize = Inr b0" "Buffer_wf b0" "Buffer_contents b0 = []"
    using Buffer_new_ok [of kInitialSize] by auto
  have sz: "sz_add (readableBytes b) n = readableBytes b + n"
    using assms(2) by (intro sz_add_small) (simp add: vector_max_def)
  have "length (Buffer_contents b) \<le> vector_max" using assms by (simp add: length_Buffer_contents)
  note app = append_typed [OF _ this]
  have "typed [] (ensureWritableBytes (readableBytes b + n) b0)" using ensure_typed(1) [OF b0(2) assms(2)] b0(3) by simp
  then have "typed (Buffer_contents b) (result_bind (ensureWritableBytes (readableBytes b + n) b0)
      (\<lambda>b1. result_bind (Buffer_append (Buffer_contents b) b1) Inr))"
  proof (rule typed_bind)
    fix b1 assume "Buffer_wf b1" "Buffer_contents b1 = []"
    with app [of b1] show "typed (Buffer_contents b) (result_bind (Buffer_append (Buffer_contents b) b1) Inr)"
      by (intro typed_bind [where cs = "Buffer_contents b"]) (simp_all add: typed_Inr)
  qed
  then show ?thesis by (simp add: shrink_def b0(1) sz Buffer_toString_ok [OF assms(1)] Buffer_swap_def)
qed

subsection \<open>Taking bytes out\<close>

lemma retrieve_typed: "Buffer_wf b \<Longrightarrow> typed (drop n (Buffer_contents b)) (retrieve n b)"
  using retrieve_ok [of b n] retrieve_assert [of b n]
  by (cases "n \<le> length (Buffer_contents b)") (auto simp: typed_def length_Buffer_contents)

lemma retrieveAsString_typed:
  "Buffer_wf b \<Longrightarrow> typed (drop n (Buffer_contents b)) (result_bind (retrieveAsString n b) (\<lambda>(s, b'). Inr b'))"
  using retrieveAsString_ok [of b n]
  by (cases "n \<le> length (Buffer_contents b)") (auto simp: typed_def retrieveAsString_def length_Buffer_contents)

text \<open>An integer is read by a peek, which fails only by its assert, followed by a retrieve.\<close>

lemma read_typed:
  assumes "Buffer_wf b" and "yields {AssertFailed} (\<lambda>x. True) pk"
  shows "typed (drop n (Buffer_contents b))
    (result_bind (result_bind pk (\<lambda>r. result_bind (retrieve n b) (\<lambda>b'. Inr (r, b')))) (\<lambda>(x, b'). Inr b'))"
  using assms(2) retrieve_typed [OF assms(1), of n]
  by (cases pk; cases "retrieve n b") (simp_all add: typed_def)

lemma peek_typed:
  assumes "Buffer_wf b"
  shows "yields {AssertFailed} (\<lambda>x. True) (peekInt64 e b)" and "yields {AssertFailed} (\<lambda>x. True) (peekInt32 e b)"
    and "yields {AssertFailed} (\<lambda>x. True) (peekInt8 e b)"
  using peekInt64_ok [OF assms] peekInt32_ok [OF assms] peekInt8_ok [OF assms]
  by (cases "8 \<le> readableBytes b"; simp add: length_Buffer_contents [OF assms] peekInt64_def;
      cases "4 \<le> readableBytes b"; simp add: length_Buffer_contents [OF assms] peekInt32_def;
      cases "1 \<le> readableBytes b"; simp add: length_Buffer_contents [OF assms] peekInt8_def)+

lemma peek16_typed: "read_index b + 4 \<le> length (buffer_data b) \<Longrightarrow> yields {AssertFailed} (\<lambda>x. True) (peekInt16 e b)"
  by (cases "2 \<le> readableBytes b") (simp_all add: peekInt16_def Buffer_range_def peek_def mem_read_ok Let_def)

lemma unWrite_typed: "Buffer_wf b \<Longrightarrow> typed (take (length (Buffer_contents b) - n) (Buffer_contents b)) (unWrite n b)"
  using unWrite_ok [of b n]
  by (cases "n \<le> length (Buffer_contents b)") (auto simp: typed_def unWrite_def length_Buffer_contents)

subsection \<open>Every operation\<close>

lemma retrieveUntil_typed: "Buffer_wf b \<Longrightarrow> typed (drop (i - peek b) (Buffer_contents b)) (retrieveUntil i b)"
  unfolding retrieveUntil_def by (intro typed_assert retrieve_typed)

lemma readFd_typed:
  assumes "Buffer_wf b" and "op_ok (ReadFd r) b"
  shows "typed (op_effect (ReadFd r) b (Buffer_contents b)) (call_op (ReadFd r) b)"
proof (cases r)
  case (Inr bytes)
  with readFd_fits [OF assms(1), of bytes] assms(2) show ?thesis by (auto simp: typed_def)
qed (use assms(1) in \<open>simp add: readFd_error typed_Inr\<close>)

lemma retrieveAll_typed:
  "Buffer_wf b \<Longrightarrow> typed [] (result_bind (retrieveAsString (readableBytes b) b) (\<lambda>(s, b'). Inr b'))"
  using retrieveAsString_typed [of b "readableBytes b"] by (simp add: length_Buffer_contents)

lemma op_typed:
  assumes wf: "Buffer_wf b" and ok: "op_ok op b"
  shows "typed (op_effect op b (Buffer_contents b)) (call_op op b)"
proof (cases op)
  case (ReadFd r)
  with readFd_typed [OF wf] ok show ?thesis by blast
qed (use wf ok append_typed [OF wf] prepend_typed [OF wf] retrieve_typed [OF wf] retrieveAsString_typed [OF wf]
    retrieveAll_typed [OF wf] retrieveUntil_typed [OF wf] unWrite_typed [OF wf] ensure_typed(1) [OF wf] shrink_typed [OF wf] retrieveAll_ok [OF wf]
    read_typed [OF wf peek_typed(1) [OF wf]] read_typed [OF wf peek_typed(2) [OF wf]] read_typed [OF wf peek_typed(3) [OF wf]]
    read_typed [OF wf peek16_typed] length_Buffer_contents [OF wf]
  in \<open>simp_all add: appendInt_be prependInt_be length_be_small typed_Inr readInt64_def readInt32_def readInt16_def readInt8_def
      retrieveInt64_def retrieveInt32_def retrieveInt16_def retrieveInt8_def retrieveAllAsString_def
      del: length_be_bytes One_nat_def\<close>)

text \<open>A sequence of calls: each with the state it is made in.\<close>

lemma run_typed:
  "machine_run call_op op_ok out b0 os b \<Longrightarrow> Buffer_wf b0 \<Longrightarrow> Buffer_wf b"
proof (induction rule: machine_run.induct)
  case (run_event os b op b')
  with op_typed [of b op] show ?case by (simp add: typed_def)
qed

subsection \<open>Properties\<close>



end
