(* ===== verification/Spec2Isabelle.thy ===== *)
theory Spec2Isabelle
  imports HttpServer LogGlobals Connector TcpServer LogReader EchoSession OldLogging BufferOps
begin

text \<open>
  \<^bold>\<open>libfm\<close>: a reactor-style network library in C++ (README.md). One loop per thread waits in \<open>epoll_wait\<close>,
  calls the handlers of the channels that are ready and then the functors other threads have queued. A
  server accepts in a base loop and hands each connection to a loop of a pool; a connection buffers what
  the kernel does not take; an HTTP server parses requests from the input buffer and answers them; a
  logging library encodes lines into a queue that a thread writes to rolling files.

  \<^bold>\<open>Theories and sources\<close> (paths under src/)

  \<^item> \<open>Prelude\<close>: faults and the error monad, size_t arithmetic, bounds-checked memory, decimal printing,
    \<open>snprintf\<close>, the collections and lemmas that all theories share, the locale of state machines that never fail.
  \<^item> \<open>Endian\<close> (include/libfm/fmnet/Endian.h), \<open>Buffer\<close> (Buffer.h, net/Buffer.cpp): byte-order conversions; the
    buffer as a vector with two indices and every operation of it. \<open>BufferOps\<close>: all calls of a buffer as one datatype.
  \<^item> \<open>TimeStamp\<close> (TimeStamp.h, SystemClock.h, util/TimeStamp.cpp), \<open>TimerQueue\<close> (net/Timer*, net/TimerQueue*):
    microsecond counts; timers on a heap, the two sets over them, the timer descriptor and its handler.
  \<^item> \<open>Channel\<close>, \<open>Epoller\<close> (net/Channel.cpp, net/Epoller.cpp and headers): event masks; channels in a heap, the map of
    descriptors, the log of \<open>epoll_ctl\<close> calls, polling and dispatch.
  \<^item> \<open>EventLoop\<close> (net/EventLoop.cpp): the loop over the poller's record, and the loop thread among other threads
    as a step relation.
  \<^item> \<open>TcpConnection\<close> (net/TcpConnection.cpp): one connection in its loop.
  \<^item> \<open>Sockets\<close> (net/InetAddress.cpp, net/SocketsOps.cpp, net/Socket.cpp): addresses as bytes, their text, what the
    socket wrappers add to the system calls.
  \<^item> \<open>Connector\<close> (net/Connector.cpp, net/TcpClient.cpp), \<open>EventLoopThreads\<close> (net/EventLoopThread*.cpp),
    \<open>TcpServer\<close> (net/Acceptor.cpp, net/TcpServer.cpp): clients, pools of loops, servers.
  \<^item> \<open>ThreadPool\<close> (util/ThreadPool.cpp), \<open>HttpContext\<close> (net/http/HttpRequest.cpp, HttpContext.cpp), \<open>HttpServer\<close>
    (net/http/HttpResponse.cpp, HttpServer.cpp): worker threads, the request parser, responses and the server.
  \<^item> \<open>LogLine\<close>, \<open>LogBufferQueue\<close>, \<open>LogProducers\<close>, \<open>LogReader\<close>, \<open>Logger\<close>, \<open>LogGlobals\<close> (util/LogLine.cpp, LogBufferQueue.cpp, Log*.cpp,
    StdLogger.cpp, AsyncLogger.cpp): encoding of lines, the queue of buffers, its producers and its reader as
    concurrent threads, the loggers and the rolling file, the global logger among threads.
  \<^item> \<open>Examples\<close> (examples/EchoServer.cpp, EchoClient.cpp, HttpServer/*): programs on top of the library, as
    compositions of the components above. \<open>EchoSession\<close>: echo server and echo client joined by a network.
  \<^item> \<open>OldLogging\<close> (docs/oldfiles/base: LogStream.h, Logging.*, FileUtil.*, LogFile.*, Timestamp.cpp): the first logging
    library, which formats into a fixed buffer and appends to rolling files.

  \<^bold>\<open>How the model is built\<close>

  \<^item> Names of the code are kept; a name that several classes share has the class in front
    (\<open>Connector_start\<close>). A class is a record of its data members; a class that lives in a loop extends the
    loop's record, as connections, connectors and servers do, so that its channel operations are those of the poller.
  \<^item> Operations return \<open>fault + 'a\<close>: a failed \<open>assert\<close>, an access outside an array, a \<open>std::length_error\<close>, a
    use of a dead object, a call of an empty \<open>std::function\<close>, \<open>LOG_FATAL\<close>, \<open>std::terminate\<close>. Objects that are shared by
    address (channels, timers, log buffers, strings captured by reference) live in maps from addresses.
  \<^item> Results of system calls, the clock, the allocator and the traversal order of hash maps are arguments;
    user callbacks are functions or logged calls. Lambdas queued in a loop are values of a datatype.
  \<^item> A loop that need not end is a partial function to \<open>option\<close> (\<open>parse_loop\<close>) or, where it waits, a function with
    the value \<open>None\<close> for waiting (\<open>submit\<close>, \<open>join\<close>, \<open>LogBufferQueue_push\<close>). \<open>read_loop\<close> recurses over the results of \<open>read\<close>. The only bound
    on a number of steps is that of \<open>run_alone\<close>, for which nine are enough (\<open>push_alone\<close>).
  \<^item> Threads are interleaved by step relations whose steps are critical sections (\<open>sys_step\<close>, \<open>pool_step\<close>,
    \<open>server_step\<close>) or single atomic operations (\<open>producers_step\<close>, \<open>traffic_step\<close>, \<open>log_step\<close>), with sequentially consistent memory.

  \<^bold>\<open>What the lemmas show\<close>

  \<^item> Buffers are byte FIFOs; integers and frames written are read back; after any calls a buffer is well-formed and
    every call has its effect or stops at an assert; \<open>readFd\<close> loses bytes that do not fit.
  \<^item> The kernel's interest set always agrees with the channels; polling and dispatch deliver exactly the events
    reported; no queued functor is lost, reordered or left unnoticed by a sleeping loop.
  \<^item> Timers never touch freed memory, are rescheduled as the code says, the descriptor is armed for the earliest,
    and the destructor frees each of them once.
  \<^item> The bytes of a connection leave in order and whole for any interleaving of calls, events and partial
    writes; no operation of a connection, a connector or a server fails; the server's map is exact.
  \<^item> Requests survive printing and parsing, in one piece or in several; where the parser does not return is
    characterised; responses reach the output whole.
  \<^item> Log lines survive encoding and printing; the ring and the queue are FIFO queues, also under concurrent
    producers, who never share a slot and never all spin, and with a reader that pops lines while they are pushed; the
    asynchronous logger writes every line in order, also behind the global pointer that threads load while it is set.
  \<^item> The echo server sends back exactly the bytes it receives; with the echo client at the other end a message goes
    round for ever, byte for byte, and never gets stuck; the example HTTP server answers with the cached
    file or 404; a file is read whole however \<open>read\<close> splits it.
  \<^item> The first logging library never overruns its buffer and, while writes are not cut short, keeps every line.
  \<^item> Defects the model exposes are theorems too: inverted predicates of the worker pool, references that die
    before they are used, the over-read of \<open>peekInt16\<close>, recycled log buffers, a second \<open>initialize\<close> of the logger, and others.

  \<^bold>\<open>Interfaces\<close>. \<open>byte_fifo\<close> is the contract of a byte buffer, \<open>bounded_queue\<close> that of the ring of log buffers;
  \<open>safe_machine\<close> is that of a component none of whose possible events fails under its invariant, and \<open>output_machine\<close>
  extends it by what the component emits; \<open>base_logger\<close> is that of a logger class, from which the machine of the global logger is a
  \<open>safe_machine\<close> by a sublocale. Each has its client lemmas proved from the contract; buffer and ring, and the
  connection, the connector, the server, the log producers with and without the reader, the echo server and the echo session
  as machines, and both loggers, are interpretations.

  \<^bold>\<open>Not modelled\<close>: the system calls themselves, memory orderings weaker than sequential consistency, IPv6 text
  conversion, \<open>strftime\<close> and locale-dependent printing (parameters); debug counters and log output of the network code;
  type names in Callback.h; tests; the rest of docs/oldfiles, earlier versions of the headers and classes modelled here.
\<close>

end
